(* ===== verification/Prelude.thy ===== *)
theory Prelude
  imports Main "HOL-Library.Word" "HOL-Library.Multiset" "HOL-Library.Product_Lexorder"
begin

text \<open>
  Shared vocabulary of the development: the type of operations that may fail while they
  change a state (an \<^verbatim>\<open>async fn\<close> that returns a \<^verbatim>\<open>Result\<close>), the combinators that stand
  for the \<^verbatim>\<open>?\<close> operator and for the loops of the code, the relational reasoning rules for
  them, and a few facts on lists, association lists and words that several components use.
\<close>

section \<open>Fallible operations\<close>

text \<open>
  An operation reads and changes a state of type \<open>'s\<close>. It returns \<open>Inl e\<close> where the code
  returns \<^verbatim>\<open>Err(e)\<close> and \<open>Inr a\<close> where it returns \<^verbatim>\<open>Ok(a)\<close>; the state after an error is
  explicit, since an error does not undo what was already written.
\<close>

type_synonym ('s, 'e, 'a) fallible = "'s \<Rightarrow> ('e + 'a) \<times> 's"

definition ok :: "'a \<Rightarrow> ('s, 'e, 'a) fallible" where
  "ok a = (\<lambda>s. (Inr a, s))"

definition err :: "'e \<Rightarrow> ('s, 'e, 'a) fallible" where
  "err e = (\<lambda>s. (Inl e, s))"

text \<open>\<^verbatim>\<open>let a = m.await?; f(a)\<close>\<close>

definition and_then ::
  "('s, 'e, 'a) fallible \<Rightarrow> ('a \<Rightarrow> ('s, 'e, 'b) fallible) \<Rightarrow> ('s, 'e, 'b) fallible" where
  "and_then m f = (\<lambda>s. case m s of (Inl e, s') \<Rightarrow> (Inl e, s') | (Inr a, s') \<Rightarrow> f a s')"

text \<open>\<^verbatim>\<open>m.map_err(g)\<close>, also the conversion a \<^verbatim>\<open>?\<close> applies through \<^verbatim>\<open>From\<close>.\<close>

definition map_err :: "('e \<Rightarrow> 'f) \<Rightarrow> ('s, 'e, 'a) fallible \<Rightarrow> ('s, 'f, 'a) fallible" where
  "map_err g m = (\<lambda>s. case m s of (Inl e, s') \<Rightarrow> (Inl (g e), s') | (Inr a, s') \<Rightarrow> (Inr a, s'))"

text \<open>A \<^verbatim>\<open>for\<close> loop that carries local variables (the accumulator) and may return early.\<close>

fun fold_each ::
  "('x \<Rightarrow> 'acc \<Rightarrow> ('s, 'e, 'acc) fallible) \<Rightarrow> 'x list \<Rightarrow> 'acc \<Rightarrow> ('s, 'e, 'acc) fallible" where
  "fold_each f [] acc = ok acc"
| "fold_each f (x # xs) acc = and_then (f x acc) (fold_each f xs)"

text \<open>A \<^verbatim>\<open>for\<close> loop without local variables.\<close>

definition for_each :: "('x \<Rightarrow> ('s, 'e, unit) fallible) \<Rightarrow> 'x list \<Rightarrow> ('s, 'e, unit) fallible" where
  "for_each f xs = fold_each (\<lambda>x _. f x) xs ()"

lemma ok_iff [simp]: "ok a s = (r, s') \<longleftrightarrow> r = Inr a \<and> s' = s"
  by (auto simp: ok_def)

lemma err_iff [simp]: "err e s = (r, s') \<longleftrightarrow> r = Inl e \<and> s' = s"
  by (auto simp: err_def)

lemma snd_ok [simp]: "snd (ok a s) = s"
  by (simp add: ok_def)

lemma snd_err [simp]: "snd (err e s) = s"
  by (simp add: err_def)

lemma and_then_ok [simp]: "and_then (ok a) f = f a"
  by (simp add: and_then_def ok_def)

lemma and_then_err [simp]: "and_then (err e) f = err e"
  by (simp add: and_then_def err_def)

lemma and_then_assoc: "and_then (and_then m f) g = and_then m (\<lambda>a. and_then (f a) g)"
  by (auto simp: and_then_def fun_eq_iff split: prod.split sum.split)

lemma for_each_Nil [simp]: "for_each f [] = ok ()"
  by (simp add: for_each_def)

lemma for_each_Cons [simp]: "for_each f (x # xs) = and_then (f x) (\<lambda>_. for_each f xs)"
  by (simp add: for_each_def)

subsection \<open>Inverting a run\<close>

text \<open>
  The two ways a sequence can end: a successful run of \<open>and_then\<close> is a successful run of its
  first part followed by one of its second part, and a failing run fails in one of the two.
\<close>

lemma and_then_Inr_iff:
  "and_then m f s = (Inr b, s') \<longleftrightarrow> (\<exists>a t. m s = (Inr a, t) \<and> f a t = (Inr b, s'))"
  by (auto simp: and_then_def split: prod.splits sum.splits)

lemma and_then_Inl_iff:
  "and_then m f s = (Inl e, s') \<longleftrightarrow>
     m s = (Inl e, s') \<or> (\<exists>a t. m s = (Inr a, t) \<and> f a t = (Inl e, s'))"
  by (auto simp: and_then_def split: prod.splits sum.splits)

lemma map_err_Inr_iff [simp]: "map_err g m s = (Inr a, s') \<longleftrightarrow> m s = (Inr a, s')"
  by (auto simp: map_err_def split: prod.splits sum.splits)

lemma map_err_Inl_iff: "map_err g m s = (Inl e, s') \<longleftrightarrow> (\<exists>e'. m s = (Inl e', s') \<and> e = g e')"
  by (auto simp: map_err_def split: prod.splits sum.splits)

lemma snd_map_err [simp]: "snd (map_err g m s) = snd (m s)"
  by (auto simp: map_err_def split: prod.splits sum.splits)

lemma and_then_run: "m s = (Inr a, t) \<Longrightarrow> and_then m f s = f a t"
  by (simp add: and_then_def)

lemma and_then_stop: "m s = (Inl e, t) \<Longrightarrow> and_then m f s = (Inl e, t)"
  by (simp add: and_then_def)

subsection \<open>Relations every run respects\<close>

text \<open>
  \<open>always R m\<close>: whatever \<open>m\<close> returns, the state before and the state after are related by
  \<open>R\<close>. For a reflexive and transitive \<open>R\<close> (unchanged tables, an append-only log) the rules
  below take a whole operation apart down to its statements.
\<close>

named_theorems always_intros \<open>rules that build \<open>always R m\<close> from the parts of \<open>m\<close>\<close>

definition always :: "('s \<Rightarrow> 's \<Rightarrow> bool) \<Rightarrow> ('s, 'e, 'a) fallible \<Rightarrow> bool" where
  "always R m \<longleftrightarrow> (\<forall>s. R s (snd (m s)))"

lemma alwaysD: "always R m \<Longrightarrow> m s = (r, s') \<Longrightarrow> R s s'"
  unfolding always_def by (metis snd_conv)

lemma alwaysI: "(\<And>s r s'. m s = (r, s') \<Longrightarrow> R s s') \<Longrightarrow> always R m"
  unfolding always_def by (metis prod.collapse)

lemma always_ok [always_intros]: "reflp R \<Longrightarrow> always R (ok a)"
  by (simp add: always_def reflp_def)

lemma always_err [always_intros]: "reflp R \<Longrightarrow> always R (err e)"
  by (simp add: always_def reflp_def)

lemma always_map_err [always_intros]: "always R m \<Longrightarrow> always R (map_err g m)"
  by (simp add: always_def)

lemma always_and_then [always_intros]:
  assumes "transp R" "always R m" "\<And>a. always R (f a)"
  shows "always R (and_then m f)"
proof (rule alwaysI)
  fix s r s'
  assume run: "and_then m f s = (r, s')"
  obtain q t where m: "m s = (q, t)" by (cases "m s")
  have "R s t" using assms(2) m by (rule alwaysD)
  show "R s s'"
  proof (cases q)
    case (Inl e)
    with run m \<open>R s t\<close> show ?thesis by (simp add: and_then_def)
  next
    case (Inr a)
    with run m have "f a t = (r, s')" by (simp add: and_then_def)
    with assms(3) have "R t s'" by (rule alwaysD)
    with \<open>R s t\<close> assms(1) show ?thesis by (blast dest: transpD)
  qed
qed

lemma always_fold_each [always_intros]:
  assumes "reflp R" "transp R" "\<And>x acc. always R (f x acc)"
  shows "always R (fold_each f xs acc)"
  using assms by (induction xs arbitrary: acc) (auto intro!: always_intros)

lemma always_for_each [always_intros]:
  assumes "reflp R" "transp R" "\<And>x. always R (f x)"
  shows "always R (for_each f xs)"
  using assms unfolding for_each_def by (intro always_intros)

subsection \<open>Operations that cannot fail\<close>

named_theorems never_fails_intros \<open>rules that build \<open>never_fails m\<close> from the parts of \<open>m\<close>\<close>

definition never_fails :: "('s, 'e, 'a) fallible \<Rightarrow> bool" where
  "never_fails m \<longleftrightarrow> (\<forall>s. \<exists>a s'. m s = (Inr a, s'))"

lemma never_fails_ok [never_fails_intros]: "never_fails (ok a)"
  by (simp add: never_fails_def)

lemma never_fails_and_then [never_fails_intros]:
  "never_fails m \<Longrightarrow> (\<And>a. never_fails (f a)) \<Longrightarrow> never_fails (and_then m f)"
  unfolding never_fails_def by (metis and_then_run)

lemma never_fails_map_err [never_fails_intros]: "never_fails m \<Longrightarrow> never_fails (map_err g m)"
  by (simp add: never_fails_def)

lemma never_fails_fold_each [never_fails_intros]:
  "(\<And>x acc. never_fails (f x acc)) \<Longrightarrow> never_fails (fold_each f xs acc)"
  by (induction xs arbitrary: acc) (auto intro!: never_fails_intros)

lemma never_fails_for_each [never_fails_intros]:
  "(\<And>x. never_fails (f x)) \<Longrightarrow> never_fails (for_each f xs)"
  unfolding for_each_def by (intro never_fails_intros)

lemma never_failsE:
  assumes "never_fails m"
  obtains a s' where "m s = (Inr a, s')"
  using assms unfolding never_fails_def by blast

subsection \<open>Loops that cannot fail\<close>

text \<open>
  Where every step of a loop succeeds from the states it reaches, the loop is the fold of its
  steps. The invariant \<open>I\<close> says which accumulators and states the steps are reached in, with
  the elements still to come as its first argument.
\<close>

lemma fold_each_succeeds:
  assumes "I xs acc s"
    and "\<And>x ys acc s. I (x # ys) acc s \<Longrightarrow> \<exists>acc' s'. f x acc s = (Inr acc', s') \<and> I ys acc' s'"
  shows "\<exists>acc' s'. fold_each f xs acc s = (Inr acc', s') \<and> I [] acc' s'"
  using assms(1)
proof (induction xs arbitrary: acc s)
  case Nil
  then show ?case by simp
next
  case (Cons x xs)
  from assms(2)[OF Cons.prems] obtain acc' s' where
    "f x acc s = (Inr acc', s')" and "I xs acc' s'" by blast
  with Cons.IH show ?case by (auto simp: and_then_def)
qed

text \<open>An invariant of the successful runs of a loop.\<close>

lemma fold_each_invariant:
  assumes "fold_each f xs acc s = (Inr acc', s')" and "I xs acc s"
    and "\<And>x ys acc s acc' s'. I (x # ys) acc s \<Longrightarrow> f x acc s = (Inr acc', s') \<Longrightarrow> I ys acc' s'"
  shows "I [] acc' s'"
  using assms(1,2)
proof (induction xs arbitrary: acc s)
  case Nil
  then show ?case by simp
next
  case (Cons x xs)
  from Cons.prems(1) obtain a t where
    "f x acc s = (Inr a, t)" and run: "fold_each f xs a t = (Inr acc', s')"
    by (auto simp: and_then_Inr_iff)
  with assms(3) Cons.prems(2) have "I xs a t" by blast
  with run show ?case by (rule Cons.IH)
qed

subsection \<open>Pre- and postconditions\<close>

text \<open>
  \<open>triple P m Q X\<close>: from a state with \<open>P\<close>, a run of \<open>m\<close> either succeeds with \<open>Q\<close> or fails
  with \<open>X\<close>. With \<open>X\<close> false the operation cannot fail. The rules follow the structure of an
  operation; \<open>triple_intros\<close> collects them with the rules of the primitive operations.
\<close>

named_theorems triple_intros \<open>rules that build \<open>triple P m Q X\<close> from the parts of \<open>m\<close>\<close>

definition triple ::
  "('s \<Rightarrow> bool) \<Rightarrow> ('s, 'e, 'a) fallible \<Rightarrow> ('a \<Rightarrow> 's \<Rightarrow> bool) \<Rightarrow> ('e \<Rightarrow> 's \<Rightarrow> bool) \<Rightarrow> bool" where
  "triple P m Q X \<longleftrightarrow>
     (\<forall>s. P s \<longrightarrow> (case m s of (Inr a, s') \<Rightarrow> Q a s' | (Inl e, s') \<Rightarrow> X e s'))"

lemma tripleI:
  "(\<And>s a s'. P s \<Longrightarrow> m s = (Inr a, s') \<Longrightarrow> Q a s') \<Longrightarrow>
   (\<And>s e s'. P s \<Longrightarrow> m s = (Inl e, s') \<Longrightarrow> X e s') \<Longrightarrow> triple P m Q X"
  unfolding triple_def by (auto split: prod.split sum.split)

lemma triple_Inr: "triple P m Q X \<Longrightarrow> P s \<Longrightarrow> m s = (Inr a, s') \<Longrightarrow> Q a s'"
  by (fastforce simp: triple_def)

lemma triple_Inl: "triple P m Q X \<Longrightarrow> P s \<Longrightarrow> m s = (Inl e, s') \<Longrightarrow> X e s'"
  by (fastforce simp: triple_def)

lemma triple_total:
  "triple P m Q (\<lambda>_ _. False) \<Longrightarrow> P s \<Longrightarrow> \<exists>a s'. m s = (Inr a, s') \<and> Q a s'"
  unfolding triple_def by (cases "m s"; cases "fst (m s)") fastforce+

lemma triple_weaken:
  assumes "triple P' m Q' X'" "\<And>s. P s \<Longrightarrow> P' s" "\<And>a s. Q' a s \<Longrightarrow> Q a s" "\<And>e s. X' e s \<Longrightarrow> X e s"
  shows "triple P m Q X"
proof (rule tripleI)
  show "Q a s'" if "P s" "m s = (Inr a, s')" for s a s'
    using assms(3)[OF triple_Inr[OF assms(1) assms(2)[OF that(1)] that(2)]] .
  show "X e s'" if "P s" "m s = (Inl e, s')" for s e s'
    using assms(4)[OF triple_Inl[OF assms(1) assms(2)[OF that(1)] that(2)]] .
qed

lemma triple_ok: "(\<And>s. P s \<Longrightarrow> Q a s) \<Longrightarrow> triple P (ok a) Q X"
  by (simp add: triple_def ok_def)

lemma triple_err: "(\<And>s. P s \<Longrightarrow> X e s) \<Longrightarrow> triple P (err e) Q X"
  by (simp add: triple_def err_def)

lemma triple_and_then:
  assumes "triple P m R X" "\<And>a. triple (R a) (f a) Q X"
  shows "triple P (and_then m f) Q X"
proof (rule tripleI)
  fix s b s'
  assume "P s" "and_then m f s = (Inr b, s')"
  then obtain a t where "m s = (Inr a, t)" "f a t = (Inr b, s')" by (auto simp: and_then_Inr_iff)
  with \<open>P s\<close> show "Q b s'" using triple_Inr[OF assms(1)] triple_Inr[OF assms(2)] by blast
next
  fix s e s'
  assume "P s" "and_then m f s = (Inl e, s')"
  then consider "m s = (Inl e, s')" | a t where "m s = (Inr a, t)" "f a t = (Inl e, s')"
    by (auto simp: and_then_Inl_iff)
  then show "X e s'"
    using \<open>P s\<close> triple_Inl[OF assms(1)] triple_Inr[OF assms(1)] triple_Inl[OF assms(2)] by cases blast+
qed

lemma triple_pure: "(c \<Longrightarrow> triple P m Q X) \<Longrightarrow> triple (\<lambda>s. P s \<and> c) m Q X"
  by (simp add: triple_def)

lemma triple_map_err: "triple P m Q (\<lambda>e. X (g e)) \<Longrightarrow> triple P (map_err g m) Q X"
  by (auto simp: triple_def map_err_def split: prod.splits sum.splits)

lemma triple_fold_each:
  assumes "\<And>x ys acc. triple (I (x # ys) acc) (f x acc) (I ys) X"
  shows "triple (I xs acc) (fold_each f xs acc) (I []) X"
proof (induction xs arbitrary: acc)
  case (Cons x xs)
  show ?case by (simp, rule triple_and_then[OF assms Cons.IH])
qed (simp add: triple_ok)

lemma triple_for_each:
  assumes "\<And>x ys. triple (I (x # ys)) (f x) (\<lambda>_. I ys) X"
  shows "triple (I xs) (for_each f xs) (\<lambda>_. I []) X"
  unfolding for_each_def by (rule triple_fold_each[where I = "\<lambda>ys _. I ys"]) (rule assms)

text \<open>A loop that keeps a property\<close>

lemma triple_for_each_keeps:
  "(\<And>x. x \<in> set xs \<Longrightarrow> triple I (f x) (\<lambda>_. I) X) \<Longrightarrow> triple I (for_each f xs) (\<lambda>_. I) X"
  by (induction xs) (auto intro!: triple_ok triple_and_then)

section \<open>Lists\<close>

lemma distinct_map_filter: "distinct (map f xs) \<Longrightarrow> distinct (map f (filter P xs))"
  by (induction xs) auto

lemma filter_unique_key:
  assumes "distinct (map f xs)" "x \<in> set xs"
  shows "filter (\<lambda>y. f y = f x) xs = [x]"
  using assms by (induction xs) (auto simp: filter_empty_conv image_iff)

lemma map_of_key: "distinct (map f xs) \<Longrightarrow> x \<in> set xs \<Longrightarrow> map_of (map (\<lambda>y. (f y, y)) xs) (f x) = Some x"
  by (rule map_of_is_SomeI) (auto simp: comp_def)

lemma permuted_set: "mset (f xs) = mset xs \<Longrightarrow> set (f xs) = set xs"
  by (metis set_mset_mset)

lemma permuted_distinct: "mset (f xs) = mset xs \<Longrightarrow> distinct (f xs) \<longleftrightarrow> distinct xs"
  by (rule mset_eq_imp_distinct_iff)

lemma permuted_length: "mset (f xs) = mset xs \<Longrightarrow> length (f xs) = length xs"
  by (metis size_mset)

section \<open>Hash maps of vectors\<close>

text \<open>\<^verbatim>\<open>map.entry(k).or_default().push(v)\<close>\<close>

definition entry_push :: "('k \<rightharpoonup> 'v list) \<Rightarrow> 'k \<Rightarrow> 'v \<Rightarrow> ('k \<rightharpoonup> 'v list)" where
  "entry_push m k v = m(k \<mapsto> (case m k of None \<Rightarrow> [] | Some vs \<Rightarrow> vs) @ [v])"

text \<open>The loop that groups rows under their keys, and what it computes.\<close>

fun group_rows :: "('k \<times> 'v) list \<Rightarrow> ('k \<rightharpoonup> 'v list) \<Rightarrow> ('k \<rightharpoonup> 'v list)" where
  "group_rows [] m = m"
| "group_rows ((k, v) # rows) m = group_rows rows (entry_push m k v)"

abbreviation rows_at :: "'k \<Rightarrow> ('k \<times> 'v) list \<Rightarrow> 'v list" where
  "rows_at k rows \<equiv> map snd (filter (\<lambda>row. fst row = k) rows)"

lemma entry_push_apply:
  "entry_push m k v k' =
     (if k' = k then Some ((case m k of None \<Rightarrow> [] | Some vs \<Rightarrow> vs) @ [v]) else m k')"
  by (simp add: entry_push_def)

lemma group_rows_lookup:
  "group_rows rows m k =
     (if rows_at k rows = [] then m k
      else Some ((case m k of None \<Rightarrow> [] | Some vs \<Rightarrow> vs) @ rows_at k rows))"
proof (induction rows arbitrary: m)
  case (Cons row rows)
  obtain k' v where row: "row = (k', v)" by (cases row)
  show ?case
    using Cons.IH[of "entry_push m k' v"]
    by (simp add: row entry_push_apply[of m k' v k] split: option.split)
qed simp

lemma group_rows_empty:
  "group_rows rows Map.empty k = (if rows_at k rows = [] then None else Some (rows_at k rows))"
  by (simp add: group_rows_lookup)

text \<open>\<^verbatim>\<open>map.get(k).cloned().unwrap_or_default()\<close>\<close>

definition get_or_default :: "('k \<rightharpoonup> 'v list) \<Rightarrow> 'k \<Rightarrow> 'v list" where
  "get_or_default m k = (case m k of None \<Rightarrow> [] | Some vs \<Rightarrow> vs)"

lemma get_or_default_group_rows [simp]:
  "get_or_default (group_rows rows Map.empty) k = rows_at k rows"
  by (simp add: get_or_default_def group_rows_empty)

end
