(* ===== verification/Core.thy ===== *)
theory Core
  imports Prelude
begin

text \<open>
  The crate \<^verbatim>\<open>rustend-core\<close>: identifiers, lineage, content, revisions, the filter types and the
  protocol messages. A UUID is its 128 bits; a transaction id is a \<^verbatim>\<open>u64\<close>; a point in time is
  the number of nanoseconds since the epoch (the code only compares and stores times). The
  JSON payload is a type parameter \<open>'v\<close> wherever the code does not look inside it; the pull
  filters, which do, use the type \<open>Value\<close> of theory \<open>Filters\<close>.
\<close>

section \<open>Identifiers (ids.rs)\<close>

type_synonym uuid = "128 word"

datatype ObjectId = ObjectId (object_uuid: uuid)

datatype RevisionId = RevisionId (revision_uuid: uuid)

datatype ClientId = ClientId (client_uuid: uuid)

datatype TransactionId = TransactionId (transaction_u64: "64 word")

datatype UserId = UserId (user_uuid: uuid)

lemma inj_revision_uuid: "inj revision_uuid"
  by (auto intro: injI RevisionId.expand)

lemma revision_uuid_eq_iff [simp]: "revision_uuid a = revision_uuid b \<longleftrightarrow> a = b"
  using RevisionId.expand by blast

lemma object_uuid_eq_iff [simp]: "object_uuid a = object_uuid b \<longleftrightarrow> a = b"
  using ObjectId.expand by blast

lemma client_uuid_eq_iff [simp]: "client_uuid a = client_uuid b \<longleftrightarrow> a = b"
  using ClientId.expand by blast

lemma user_uuid_eq_iff [simp]: "user_uuid a = user_uuid b \<longleftrightarrow> a = b"
  using UserId.expand by blast

text \<open>
  Keys are ordered by their bits: a UUID is written as 32 hexadecimal digits with hyphens at
  fixed places, so the order of the written form is the order of the number.
\<close>

instantiation ObjectId :: linorder
begin

definition less_eq_ObjectId :: "ObjectId \<Rightarrow> ObjectId \<Rightarrow> bool" where
  "less_eq_ObjectId a b \<longleftrightarrow> object_uuid a \<le> object_uuid b"

definition less_ObjectId :: "ObjectId \<Rightarrow> ObjectId \<Rightarrow> bool" where
  "less_ObjectId a b \<longleftrightarrow> object_uuid a < object_uuid b"

instance
  by standard (auto simp: less_eq_ObjectId_def less_ObjectId_def order_less_le)

end

instantiation RevisionId :: linorder
begin

definition less_eq_RevisionId :: "RevisionId \<Rightarrow> RevisionId \<Rightarrow> bool" where
  "less_eq_RevisionId a b \<longleftrightarrow> revision_uuid a \<le> revision_uuid b"

definition less_RevisionId :: "RevisionId \<Rightarrow> RevisionId \<Rightarrow> bool" where
  "less_RevisionId a b \<longleftrightarrow> revision_uuid a < revision_uuid b"

instance
  by standard (auto simp: less_eq_RevisionId_def less_RevisionId_def order_less_le)

end

section \<open>Lineage (lineage.rs)\<close>

datatype Lineage =
    Root
  | Update RevisionId
  | Merge RevisionId RevisionId "RevisionId list"

fun parents :: "Lineage \<Rightarrow> RevisionId list" where
  "parents Root = []"
| "parents (Update p) = [p]"
| "parents (Merge a b rest) = [a, b] @ rest"

section \<open>Content (content.rs)\<close>

datatype 'v Content = Active 'v | Deleted

fun is_deleted :: "'v Content \<Rightarrow> bool" where
  "is_deleted Deleted = True"
| "is_deleted (Active _) = False"

fun content_data :: "'v Content \<Rightarrow> 'v option" where
  "content_data (Active v) = Some v"
| "content_data Deleted = None"

section \<open>Revisions (revision.rs)\<close>

type_synonym DateTime = int

record 'v Revision =
  rev_id :: RevisionId
  rev_object_id :: ObjectId
  rev_object_type :: string
  rev_lineage :: Lineage
  rev_created_at :: DateTime
  rev_created_by :: ClientId
  rev_content :: "'v Content"

text \<open>\<^verbatim>\<open>Revision::new_root\<close>; the fresh id and the current time are arguments.\<close>

definition new_root ::
  "RevisionId \<Rightarrow> DateTime \<Rightarrow> ObjectId \<Rightarrow> string \<Rightarrow> ClientId \<Rightarrow> 'v \<Rightarrow> 'v Revision" where
  "new_root fresh now object_id object_type created_by data =
     \<lparr> rev_id = fresh, rev_object_id = object_id, rev_object_type = object_type,
       rev_lineage = Root, rev_created_at = now, rev_created_by = created_by,
       rev_content = Active data \<rparr>"

abbreviation rev_parents :: "'v Revision \<Rightarrow> RevisionId list" where
  "rev_parents r \<equiv> parents (rev_lineage r)"

section \<open>Filters (filter.rs)\<close>

text \<open>
  The operands of a content filter are JSON values, the type parameter \<open>'v\<close>. Constructors of
  the two enums share names in the code and are told apart here by a prefix.
\<close>

datatype CreatedAtFilter =
    CreatedAt_Gt DateTime
  | CreatedAt_Gte DateTime
  | CreatedAt_Lt DateTime
  | CreatedAt_Lte DateTime

datatype 'v FilterOperator =
    Exists
  | IsNull
  | Op_Eq 'v
  | Op_Ne 'v
  | Op_Gt 'v
  | Op_Gte 'v
  | Op_Lt 'v
  | Op_Lte 'v
  | Contains 'v
  | StartsWith string

record 'v FilterCondition =
  cond_path :: string
  cond_operator :: "'v FilterOperator"

section \<open>Protocol messages (protocol.rs)\<close>

record 'v PushRequest =
  push_req_revisions :: "'v Revision list"

datatype RejectionReason = DuplicateRevisionId | UnknownParent | MalformedData

record RejectedRevision =
  rejected_revision_id :: RevisionId
  rejected_reason :: RejectionReason

record PushResponse =
  resp_transaction_id :: TransactionId
  resp_accepted :: "RevisionId list"
  resp_rejected :: "RejectedRevision list"

record 'v PullRequest =
  pull_since :: "TransactionId option"
  pull_object_types :: "string list option"
  pull_created_at :: "CreatedAtFilter list option"
  pull_filter :: "'v FilterCondition list list option"

datatype HeadAction = Replace | Conflict

record 'v ObjectUpdate =
  upd_object_id :: ObjectId
  upd_action :: HeadAction
  upd_heads :: "'v Revision list"

record 'v PullResponse =
  up_to_transaction :: TransactionId
  object_updates :: "'v ObjectUpdate list"

record WhoAmIResponse =
  who_client_id :: ClientId
  who_user_id :: UserId
  who_roles :: "string list"

section \<open>Facts about lineage\<close>

lemma length_parents_Merge: "2 \<le> length (parents (Merge a b rest))"
  by simp

lemma parents_eq_Nil_iff [simp]: "parents l = [] \<longleftrightarrow> l = Root"
  by (cases l) auto

lemma inj_parents: "parents l = parents l' \<Longrightarrow> l = l'"
  by (cases l; cases l') auto

end
