(* ===== verification/Str.thy ===== *)
theory Str
  imports Prelude
begin

text \<open>
  The operations on \<^verbatim>\<open>str\<close> that the code uses. A string is the list of its UTF-8 bytes, so
  that the comparison of two strings is the comparison of their bytes, as in Rust, and a
  search for an ASCII separator finds the same places.
\<close>

section \<open>Operations\<close>

text \<open>\<^verbatim>\<open>s.strip_prefix(p)\<close>: the rest of \<open>s\<close> after \<open>p\<close>, \<open>None\<close> where \<open>s\<close> does not start with \<open>p\<close>.\<close>

fun strip_prefix :: "string \<Rightarrow> string \<Rightarrow> string option" where
  "strip_prefix [] s = Some s"
| "strip_prefix (p # ps) [] = None"
| "strip_prefix (p # ps) (c # cs) = (if p = c then strip_prefix ps cs else None)"

definition starts_with :: "string \<Rightarrow> string \<Rightarrow> bool" where
  "starts_with s p \<longleftrightarrow> strip_prefix p s \<noteq> None"

text \<open>\<^verbatim>\<open>s.contains(n)\<close> for a string \<open>n\<close>\<close>

fun str_contains :: "string \<Rightarrow> string \<Rightarrow> bool" where
  "str_contains [] n = (n = [])"
| "str_contains (c # cs) n = (starts_with (c # cs) n \<or> str_contains cs n)"

text \<open>\<^verbatim>\<open>s.split(d)\<close> for a character \<open>d\<close>: the parts between the separators, never none.\<close>

fun split_on :: "char \<Rightarrow> string \<Rightarrow> string list" where
  "split_on d [] = [[]]"
| "split_on d (c # cs) =
     (if c = d then [] # split_on d cs
      else (case split_on d cs of [] \<Rightarrow> [[c]] | w # ws \<Rightarrow> (c # w) # ws))"

definition is_ascii_space :: "char \<Rightarrow> bool" where
  "is_ascii_space c \<longleftrightarrow> (of_char c :: nat) \<in> {9, 10, 11, 12, 13, 32}"

text \<open>\<^verbatim>\<open>s.trim()\<close> on ASCII text\<close>

definition trim :: "string \<Rightarrow> string" where
  "trim s = rev (dropWhile is_ascii_space (rev (dropWhile is_ascii_space s)))"

text \<open>\<^verbatim>\<open>s.trim_end_matches(c)\<close>\<close>

definition trim_end_matches :: "char \<Rightarrow> string \<Rightarrow> string" where
  "trim_end_matches c s = rev (dropWhile (\<lambda>x. x = c) (rev s))"

text \<open>A number in decimal, as \<^verbatim>\<open>format!\<close> writes it\<close>

fun show_nat :: "nat \<Rightarrow> string" where
  "show_nat n = (if n < 10 then [char_of (48 + n)] else show_nat (n div 10) @ [char_of (48 + n mod 10)])"

declare show_nat.simps [simp del]

text \<open>\<^verbatim>\<open>std::cmp::Ordering\<close>, its cast to \<^verbatim>\<open>i32\<close>, and \<^verbatim>\<open>str::cmp\<close>\<close>

datatype Ordering = Less | Equal | Greater

fun ordering_i32 :: "Ordering \<Rightarrow> int" where
  "ordering_i32 Less = - 1"
| "ordering_i32 Equal = 0"
| "ordering_i32 Greater = 1"

fun str_cmp :: "string \<Rightarrow> string \<Rightarrow> Ordering" where
  "str_cmp [] [] = Equal"
| "str_cmp [] (y # ys) = Less"
| "str_cmp (x # xs) [] = Greater"
| "str_cmp (x # xs) (y # ys) =
     (if (of_char x :: nat) < of_char y then Less
      else if (of_char y :: nat) < of_char x then Greater
      else str_cmp xs ys)"

text \<open>The parts joined with the separator, the inverse of \<open>split_on\<close>.\<close>

fun join_on :: "char \<Rightarrow> string list \<Rightarrow> string" where
  "join_on d [] = []"
| "join_on d [w] = w"
| "join_on d (w # ws) = w @ d # join_on d ws"

section \<open>Facts\<close>

lemma strip_prefix_Some_iff: "strip_prefix p s = Some r \<longleftrightarrow> s = p @ r"
  by (induction p s rule: strip_prefix.induct) auto

lemma strip_prefix_append [simp]: "strip_prefix p (p @ r) = Some r"
  by (simp add: strip_prefix_Some_iff)

lemma starts_with_iff: "starts_with s p \<longleftrightarrow> (\<exists>r. s = p @ r)"
  by (auto simp: starts_with_def strip_prefix_Some_iff)

lemma str_contains_iff: "str_contains s n \<longleftrightarrow> (\<exists>a b. s = a @ n @ b)"
proof (induction s)
  case Nil
  then show ?case by auto
next
  case (Cons c cs)
  have "(\<exists>a b. c # cs = a @ n @ b) \<longleftrightarrow> (\<exists>b. c # cs = n @ b) \<or> (\<exists>a b. cs = a @ n @ b)"
    by (metis append_Cons append_Nil list.exhaust list.inject)
  with Cons show ?case by (simp add: starts_with_iff)
qed

lemma split_on_neq_Nil [simp]: "split_on d s \<noteq> []"
  by (induction s) (auto split: list.split)

lemma split_on_no_sep: "d \<notin> set s \<Longrightarrow> split_on d s = [s]"
  by (induction s) auto

lemma split_on_append_sep: "d \<notin> set w \<Longrightarrow> split_on d (w @ d # s) = w # split_on d s"
  by (induction w) auto

lemma split_on_join:
  "ws \<noteq> [] \<Longrightarrow> (\<And>w. w \<in> set ws \<Longrightarrow> d \<notin> set w) \<Longrightarrow> split_on d (join_on d ws) = ws"
proof (induction d ws rule: join_on.induct)
  case (2 d w)
  then show ?case by (simp add: split_on_no_sep)
next
  case (3 d w v vs)
  then show ?case by (simp add: split_on_append_sep)
qed simp

lemma join_split_on: "join_on d (split_on d s) = s"
proof (induction s)
  case (Cons c cs)
  obtain w ws where *: "split_on d cs = w # ws" by (cases "split_on d cs") auto
  from Cons * show ?case by (cases ws) auto
qed simp

lemma split_on_parts: "w \<in> set (split_on d s) \<Longrightarrow> d \<notin> set w"
  by (induction s arbitrary: w) (auto split: list.splits if_splits)

lemma str_cmp_refl [simp]: "str_cmp x x = Equal"
  by (induction x) auto

lemma str_cmp_Equal_iff [simp]: "str_cmp x y = Equal \<longleftrightarrow> x = y"
  by (induction x y rule: str_cmp.induct) (auto simp: not_less order_antisym_conv)

lemma str_cmp_flip: "str_cmp x y = Less \<longleftrightarrow> str_cmp y x = Greater"
  by (induction x y rule: str_cmp.induct) auto

lemma str_cmp_trans: "str_cmp x y = Less \<Longrightarrow> str_cmp y z = Less \<Longrightarrow> str_cmp x z = Less"
proof (induction x y arbitrary: z rule: str_cmp.induct)
  case (2 y ys)
  then show ?case by (cases z) auto
next
  case (4 x xs y ys)
  from "4.prems"(2) obtain c cs where z: "z = c # cs" by (cases z) auto
  let ?x = "of_char x :: nat" and ?y = "of_char y :: nat" and ?c = "of_char c :: nat"
  have xy: "?x < ?y \<or> (?x = ?y \<and> str_cmp xs ys = Less)"
    using "4.prems"(1) by (metis Ordering.distinct(3) linorder_neqE_nat str_cmp.simps(4))
  have yc: "?y < ?c \<or> (?y = ?c \<and> str_cmp ys cs = Less)"
    using "4.prems"(2) z by (metis Ordering.distinct(3) linorder_neqE_nat str_cmp.simps(4))
  have "?x < ?c \<or> (?x = ?c \<and> str_cmp xs cs = Less)"
    using xy yc "4.IH" by fastforce
  then show ?case by (auto simp: z)
qed simp_all

lemma ordering_i32_cases [simp]:
  "ordering_i32 c < 0 \<longleftrightarrow> c = Less"
  "0 < ordering_i32 c \<longleftrightarrow> c = Greater"
  "ordering_i32 c = 0 \<longleftrightarrow> c = Equal"
  "ordering_i32 c \<le> 0 \<longleftrightarrow> c \<noteq> Greater"
  "0 \<le> ordering_i32 c \<longleftrightarrow> c \<noteq> Less"
  by (cases c; simp)+

end
