(* ===== verification/Filters.thy ===== *)
theory Filters
  imports Core Str
begin

text \<open>
  The evaluation of pull filters (\<^verbatim>\<open>rustend-server/src/db/pull.rs\<close>, the functions below
  \<^verbatim>\<open>fetch_object_updates\<close>). JSON values have the variants of \<^verbatim>\<open>serde_json::Value\<close>; an object
  lists its entries in key order, without repeated keys, as the map behind it iterates. The
  representation of numbers is a type parameter \<open>'n\<close>, and the two operations the code
  applies to numbers, \<^verbatim>\<open>Number::as_f64\<close> and \<^verbatim>\<open>f64::partial_cmp\<close>, are arguments.
\<close>

section \<open>JSON values\<close>

datatype 'n Value =
    Null
  | Bool bool
  | Number 'n
  | String string
  | Array "'n Value list"
  | Object "(string \<times> 'n Value) list"

record ('n, 'f) numbers =
  as_f64 :: "'n \<Rightarrow> 'f option"
  partial_cmp :: "'f \<Rightarrow> 'f \<Rightarrow> Ordering option"

fun is_null :: "'n Value \<Rightarrow> bool" where
  "is_null Null = True"
| "is_null _ = False"

fun as_str :: "'n Value \<Rightarrow> string option" where
  "as_str (String s) = Some s"
| "as_str _ = None"

text \<open>\<^verbatim>\<open>Value::get(key)\<close> for a string key: the entry of an object, nothing for other values.\<close>

fun value_get :: "'n Value \<Rightarrow> string \<Rightarrow> 'n Value option" where
  "value_get (Object entries) key = map_of entries key"
| "value_get _ key = None"

section \<open>Evaluation (pull.rs)\<close>

definition apply_created_at_filters :: "DateTime \<Rightarrow> CreatedAtFilter list \<Rightarrow> bool" where
  "apply_created_at_filters created_at filters =
     list_all (\<lambda>f. case f of
         CreatedAt_Gt t \<Rightarrow> created_at > t
       | CreatedAt_Gte t \<Rightarrow> created_at \<ge> t
       | CreatedAt_Lt t \<Rightarrow> created_at < t
       | CreatedAt_Lte t \<Rightarrow> created_at \<le> t) filters"

text \<open>The loop of \<^verbatim>\<open>resolve_path\<close> over the keys of the path\<close>

fun resolve_keys :: "'n Value \<Rightarrow> string list \<Rightarrow> 'n Value option" where
  "resolve_keys current [] = Some current"
| "resolve_keys current (key # keys) =
     (case value_get current key of None \<Rightarrow> None | Some v \<Rightarrow> resolve_keys v keys)"

definition resolve_path :: "'n Value \<Rightarrow> string \<Rightarrow> 'n Value option" where
  "resolve_path data path =
     (let path = (case strip_prefix ''$.'' path of Some p \<Rightarrow> p | None \<Rightarrow> path)
      in resolve_keys data (split_on CHR ''.'' path))"

fun compare :: "('n, 'f) numbers \<Rightarrow> 'n Value \<Rightarrow> 'n Value \<Rightarrow> int option" where
  "compare N (Number x) (Number y) =
     (case as_f64 N x of None \<Rightarrow> None
      | Some fx \<Rightarrow> (case as_f64 N y of None \<Rightarrow> None
         | Some fy \<Rightarrow> Some (case partial_cmp N fx fy of
               Some Less \<Rightarrow> - 1
             | Some Equal \<Rightarrow> 0
             | Some Greater \<Rightarrow> 1
             | None \<Rightarrow> 0)))"
| "compare N (String x) (String y) = Some (ordering_i32 (str_cmp x y))"
| "compare N _ _ = None"

fun json_contains :: "'n Value \<Rightarrow> 'n Value \<Rightarrow> bool" where
  "json_contains (Array arr) needle = (needle \<in> set arr)"
| "json_contains (String s) needle =
     (case as_str needle of Some n \<Rightarrow> str_contains s n | None \<Rightarrow> False)"
| "json_contains _ needle = False"

definition evaluate_condition ::
  "('n, 'f) numbers \<Rightarrow> 'n Value \<Rightarrow> 'n Value FilterCondition \<Rightarrow> bool" where
  "evaluate_condition N data cond =
     (let value = resolve_path data (cond_path cond) in
      case cond_operator cond of
        Exists \<Rightarrow> value \<noteq> None
      | IsNull \<Rightarrow> (case value of Some v \<Rightarrow> is_null v | None \<Rightarrow> False)
      | Op_Eq v \<Rightarrow> (case value of Some d \<Rightarrow> d = v | None \<Rightarrow> False)
      | Op_Ne v \<Rightarrow> (case value of Some d \<Rightarrow> d \<noteq> v | None \<Rightarrow> True)
      | Op_Gt v \<Rightarrow> (case Option.bind value (\<lambda>d. compare N d v) of Some c \<Rightarrow> c > 0 | None \<Rightarrow> False)
      | Op_Gte v \<Rightarrow> (case Option.bind value (\<lambda>d. compare N d v) of Some c \<Rightarrow> c \<ge> 0 | None \<Rightarrow> False)
      | Op_Lt v \<Rightarrow> (case Option.bind value (\<lambda>d. compare N d v) of Some c \<Rightarrow> c < 0 | None \<Rightarrow> False)
      | Op_Lte v \<Rightarrow> (case Option.bind value (\<lambda>d. compare N d v) of Some c \<Rightarrow> c \<le> 0 | None \<Rightarrow> False)
      | Contains v \<Rightarrow> (case value of Some d \<Rightarrow> json_contains d v | None \<Rightarrow> False)
      | StartsWith s \<Rightarrow> (case Option.bind value as_str of Some s2 \<Rightarrow> starts_with s2 s | None \<Rightarrow> False))"

definition apply_content_filter ::
  "('n, 'f) numbers \<Rightarrow> 'n Value \<Rightarrow> 'n Value FilterCondition list list \<Rightarrow> bool" where
  "apply_content_filter N data dnf =
     list_ex (\<lambda>and_group. list_all (\<lambda>cond. evaluate_condition N data cond) and_group) dnf"

end
