(* ===== verification/Tables.thy ===== *)
theory Tables
  imports Core
begin

text \<open>
  The PostgreSQL schema (\<^verbatim>\<open>migrations/*.sql\<close>) and the statements the server runs on it
  (\<^verbatim>\<open>db/clients.rs\<close>, \<^verbatim>\<open>db/revisions.rs\<close>, \<^verbatim>\<open>db/object_heads.rs\<close>, \<^verbatim>\<open>db/transactions.rs\<close>,
  \<^verbatim>\<open>db/files.rs\<close>). A table is the list of its rows. An \<^verbatim>\<open>INSERT\<close> checks the constraints of the
  schema; a \<^verbatim>\<open>SELECT\<close> without \<^verbatim>\<open>ORDER BY\<close> returns its rows in an order the caller does not
  choose.

  What the database server and the driver decide is an argument of every operation, the
  record \<open>env\<close>: which calls fail (\<open>pg_fault\<close>, by the number of the call), whether a \<^verbatim>\<open>COMMIT\<close>
  whose answer was lost took effect (\<open>pg_commit_lost\<close>), what the columns store for a bound
  value (\<open>pg_jsonb\<close>, \<open>pg_text\<close>, \<open>pg_timestamptz\<close>), the clock, and the row orders (the
  \<open>plan\<close> fields).
\<close>

section \<open>Rows and tables\<close>

record ClientRow =
  cl_id :: uuid
  cl_user_id :: uuid
  cl_registered_at :: DateTime

record 'v RevisionRow =
  row_id :: uuid
  row_object_id :: uuid
  row_object_type :: string
  row_deleted :: bool
  row_data :: "'v option"
  row_created_at :: DateTime
  row_created_by :: uuid

record ParentRow =
  pr_revision_id :: uuid
  pr_parent_id :: uuid
  pr_position :: "16 word"

record TransactionRow =
  tx_id :: int
  tx_client_id :: uuid
  tx_created_at :: DateTime

text \<open>
  \<open>txn_sequence\<close> is the next value of the sequence behind \<^verbatim>\<open>BIGSERIAL\<close>; transaction ids are
  the signed 64-bit values of the column.
\<close>

record 'v tables =
  clients :: "ClientRow list"
  revisions :: "'v RevisionRow list"
  revision_parents :: "ParentRow list"
  transactions :: "TransactionRow list"
  transaction_revisions :: "(int \<times> uuid) list"
  object_heads :: "(uuid \<times> uuid) list"
  files :: "(uuid \<times> 8 word list) list"
  txn_sequence :: int

definition empty_tables :: "'v tables" where
  "empty_tables =
     \<lparr> clients = [], revisions = [], revision_parents = [], transactions = [],
       transaction_revisions = [], object_heads = [], files = [], txn_sequence = 1 \<rparr>"

datatype sqlx_error =
    Io
  | UniqueViolation
  | ForeignKeyViolation
  | CheckViolation
  | DataException
  | SequenceLimit
  | Protocol string

section \<open>The database server\<close>

record 'v env =
  pg_fault :: "nat \<Rightarrow> bool"
  pg_commit_lost :: "nat \<Rightarrow> bool"
  pg_jsonb :: "'v \<Rightarrow> 'v option"
  pg_text :: "string \<Rightarrow> bool"
  pg_timestamptz :: "DateTime \<Rightarrow> DateTime option"
  utc_now :: "nat \<Rightarrow> DateTime"
  plan_head_ids :: "uuid list \<Rightarrow> uuid list"
  plan_rows :: "'v RevisionRow list \<Rightarrow> 'v RevisionRow list"
  plan_parents :: "ParentRow list \<Rightarrow> ParentRow list"
  plan_changed :: "uuid list \<Rightarrow> uuid list"
  plan_head_rows :: "(uuid \<times> uuid) list \<Rightarrow> (uuid \<times> uuid) list"

text \<open>
  What the code relies on: a query returns the rows it selects, each as often as it occurs,
  in some order.
\<close>

definition plans_permute :: "'v env \<Rightarrow> bool" where
  "plans_permute E \<longleftrightarrow>
     (\<forall>xs. mset (plan_head_ids E xs) = mset xs) \<and>
     (\<forall>xs. mset (plan_rows E xs) = mset xs) \<and>
     (\<forall>xs. mset (plan_parents E xs) = mset xs) \<and>
     (\<forall>xs. mset (plan_changed E xs) = mset xs) \<and>
     (\<forall>xs. mset (plan_head_rows E xs) = mset xs)"

definition fault_free :: "'v env \<Rightarrow> bool" where
  "fault_free E \<longleftrightarrow> (\<forall>n. \<not> pg_fault E n)"

record 'v pool =
  tables :: "'v tables"
  calls :: nat

text \<open>
  One statement: a call that may fail before it reaches the tables, else the effect \<open>stmt\<close>
  of the statement, which may refuse.
\<close>

definition sql ::
  "'v env \<Rightarrow> ('v tables, sqlx_error, 'a) fallible \<Rightarrow> ('v pool, sqlx_error, 'a) fallible" where
  "sql E stmt = (\<lambda>p.
     let p' = p\<lparr>calls := Suc (calls p)\<rparr> in
     if pg_fault E (calls p) then (Inl Io, p')
     else (case stmt (tables p) of (r, t) \<Rightarrow> (r, p'\<lparr>tables := t\<rparr>)))"

definition query :: "'v env \<Rightarrow> ('v tables \<Rightarrow> 'a) \<Rightarrow> ('v pool, sqlx_error, 'a) fallible" where
  "query E f = sql E (\<lambda>t. (Inr (f t), t))"

text \<open>
  A statement outside a transaction commits by itself: where the call fails, the statement may
  have taken effect and only the answer is lost.
\<close>

definition autocommit ::
  "'v env \<Rightarrow> ('v tables, sqlx_error, 'a) fallible \<Rightarrow> ('v pool, sqlx_error, 'a) fallible" where
  "autocommit E stmt = (\<lambda>p.
     case sql E stmt p of
       (r, p') \<Rightarrow>
         (r, if pg_fault E (calls p) \<and> pg_commit_lost E (calls p)
             then p'\<lparr>tables := snd (stmt (tables p))\<rparr> else p'))"

text \<open>
  \<^verbatim>\<open>let mut tx = pool.begin().await?; body; tx.commit().await?\<close>. An error in the body drops the
  transaction, which rolls back every table; values taken from the sequence stay taken. A
  \<^verbatim>\<open>COMMIT\<close> whose call fails has happened or not.
\<close>

definition rollback :: "'v pool \<Rightarrow> 'v pool \<Rightarrow> 'v pool" where
  "rollback before after =
     after\<lparr>tables := (tables before)\<lparr>txn_sequence := txn_sequence (tables after)\<rparr>\<rparr>"

definition in_tx ::
  "'v env \<Rightarrow> ('v pool, sqlx_error, 'a) fallible \<Rightarrow> ('v pool, sqlx_error, 'a) fallible" where
  "in_tx E body = (\<lambda>p.
     case sql E (ok ()) p of
       (Inl e, p1) \<Rightarrow> (Inl e, p1)
     | (Inr _, p1) \<Rightarrow>
         (case body p1 of
            (Inl e, p2) \<Rightarrow> (Inl e, rollback p1 p2)
          | (Inr a, p2) \<Rightarrow>
              (case sql E (ok ()) p2 of
                 (Inl e, p3) \<Rightarrow> (Inl e, if pg_commit_lost E (calls p2) then p3 else rollback p1 p3)
               | (Inr _, p3) \<Rightarrow> (Inr a, p3))))"

section \<open>Clients (db/clients.rs)\<close>

definition upsert_client_row ::
  "uuid \<Rightarrow> uuid \<Rightarrow> DateTime option \<Rightarrow> ('v tables, sqlx_error, unit) fallible" where
  "upsert_client_row i u registered = (\<lambda>t.
     case registered of
       None \<Rightarrow> (Inl DataException, t)
     | Some r \<Rightarrow>
         (if i \<in> set (map cl_id (clients t))
          then (Inr (), t\<lparr>clients := map (\<lambda>c. if cl_id c = i \<and> cl_user_id c \<noteq> u
                                             then c\<lparr>cl_user_id := u\<rparr> else c) (clients t)\<rparr>)
          else (Inr (), t\<lparr>clients := clients t @
                           [\<lparr>cl_id = i, cl_user_id = u, cl_registered_at = r\<rparr>]\<rparr>)))"

definition upsert_client ::
  "'v env \<Rightarrow> ClientId \<Rightarrow> UserId \<Rightarrow> ('v pool, sqlx_error, unit) fallible" where
  "upsert_client E i u = (\<lambda>p.
     autocommit E (upsert_client_row (client_uuid i) (user_uuid u)
              (pg_timestamptz E (utc_now E (calls p)))) p)"

section \<open>Revisions (db/revisions.rs)\<close>

definition revision_exists :: "'v env \<Rightarrow> RevisionId \<Rightarrow> ('v pool, sqlx_error, bool) fallible" where
  "revision_exists E i = query E (\<lambda>t. revision_uuid i \<in> set (map row_id (revisions t)))"

text \<open>What the columns of \<^verbatim>\<open>revisions\<close> store for the bound values, if they take them\<close>

definition encode_row :: "'v env \<Rightarrow> 'v RevisionRow \<Rightarrow> 'v RevisionRow option" where
  "encode_row E row =
     (if \<not> pg_text E (row_object_type row) then None
      else case pg_timestamptz E (row_created_at row) of
        None \<Rightarrow> None
      | Some ts \<Rightarrow>
          (case row_data row of
             None \<Rightarrow> Some (row\<lparr>row_created_at := ts\<rparr>)
           | Some v \<Rightarrow> (case pg_jsonb E v of
                None \<Rightarrow> None
              | Some w \<Rightarrow> Some (row\<lparr>row_created_at := ts, row_data := Some w\<rparr>))))"

text \<open>The constraint \<^verbatim>\<open>active_has_data\<close>\<close>

definition active_has_data :: "'v RevisionRow \<Rightarrow> bool" where
  "active_has_data row \<longleftrightarrow>
     (\<not> row_deleted row \<and> row_data row \<noteq> None) \<or> (row_deleted row \<and> row_data row = None)"

definition insert_revision_row ::
  "'v env \<Rightarrow> 'v RevisionRow \<Rightarrow> ('v tables, sqlx_error, unit) fallible" where
  "insert_revision_row E bound = (\<lambda>t.
     case encode_row E bound of
       None \<Rightarrow> (Inl DataException, t)
     | Some row \<Rightarrow>
         (if \<not> active_has_data row then (Inl CheckViolation, t)
          else if row_id row \<in> set (map row_id (revisions t)) then (Inl UniqueViolation, t)
          else if row_created_by row \<notin> set (map cl_id (clients t)) then (Inl ForeignKeyViolation, t)
          else (Inr (), t\<lparr>revisions := revisions t @ [row]\<rparr>)))"

definition insert_parent_row :: "ParentRow \<Rightarrow> ('v tables, sqlx_error, unit) fallible" where
  "insert_parent_row row = (\<lambda>t.
     if (pr_revision_id row, pr_parent_id row)
          \<in> set (map (\<lambda>r. (pr_revision_id r, pr_parent_id r)) (revision_parents t))
     then (Inl UniqueViolation, t)
     else if pr_revision_id row \<notin> set (map row_id (revisions t))
           \<or> pr_parent_id row \<notin> set (map row_id (revisions t))
     then (Inl ForeignKeyViolation, t)
     else (Inr (), t\<lparr>revision_parents := revision_parents t @ [row]\<rparr>))"

definition row_of_revision :: "'v Revision \<Rightarrow> 'v RevisionRow" where
  "row_of_revision r =
     (case (case rev_content r of Active v \<Rightarrow> (False, Some v) | Deleted \<Rightarrow> (True, None)) of
        (deleted, data) \<Rightarrow>
          \<lparr> row_id = revision_uuid (rev_id r),
            row_object_id = object_uuid (rev_object_id r),
            row_object_type = rev_object_type r,
            row_deleted = deleted,
            row_data = data,
            row_created_at = rev_created_at r,
            row_created_by = client_uuid (rev_created_by r) \<rparr>)"

text \<open>The position is the index cast with \<^verbatim>\<open>as i16\<close>.\<close>

definition parent_rows :: "'v Revision \<Rightarrow> ParentRow list" where
  "parent_rows r =
     map (\<lambda>(pos, parent_id).
           \<lparr> pr_revision_id = revision_uuid (rev_id r),
             pr_parent_id = revision_uuid parent_id,
             pr_position = word_of_nat pos \<rparr>)
         (enumerate 0 (rev_parents r))"

definition insert_revision :: "'v env \<Rightarrow> 'v Revision \<Rightarrow> ('v pool, sqlx_error, unit) fallible" where
  "insert_revision E r =
     and_then (sql E (insert_revision_row E (row_of_revision r)))
       (\<lambda>_. for_each (\<lambda>row. sql E (insert_parent_row row)) (parent_rows r))"

definition get_revision_rows_by_ids ::
  "'v env \<Rightarrow> uuid list \<Rightarrow> ('v pool, sqlx_error, 'v RevisionRow list) fallible" where
  "get_revision_rows_by_ids E ids =
     query E (\<lambda>t. plan_rows E (filter (\<lambda>r. row_id r \<in> set ids) (revisions t)))"

definition get_revision_object_id ::
  "'v env \<Rightarrow> uuid \<Rightarrow> ('v pool, sqlx_error, uuid option) fallible" where
  "get_revision_object_id E i =
     query E (\<lambda>t. map_of (map (\<lambda>r. (row_id r, row_object_id r)) (revisions t)) i)"

definition get_parents :: "'v env \<Rightarrow> uuid \<Rightarrow> ('v pool, sqlx_error, uuid list) fallible" where
  "get_parents E i =
     query E (\<lambda>t. map pr_parent_id (sort_key (\<lambda>r. sint (pr_position r))
                (plan_parents E (filter (\<lambda>r. pr_revision_id r = i) (revision_parents t)))))"

definition get_parents_batch ::
  "'v env \<Rightarrow> uuid list \<Rightarrow> ('v pool, sqlx_error, uuid \<rightharpoonup> uuid list) fallible" where
  "get_parents_batch E ids =
     (if ids = [] then ok Map.empty
      else and_then
        (query E (\<lambda>t. map (\<lambda>r. (pr_revision_id r, pr_parent_id r))
           (sort_key (\<lambda>r. (pr_revision_id r, sint (pr_position r)))
             (plan_parents E (filter (\<lambda>r. pr_revision_id r \<in> set ids) (revision_parents t))))))
        (\<lambda>rows. ok (group_rows rows Map.empty)))"

text \<open>\<open>null\<close> is \<^verbatim>\<open>serde_json::Value::Null\<close>.\<close>

definition row_to_revision_sync :: "'v \<Rightarrow> 'v RevisionRow \<Rightarrow> uuid list \<Rightarrow> 'v Revision" where
  "row_to_revision_sync null row ps =
     \<lparr> rev_id = RevisionId (row_id row),
       rev_object_id = ObjectId (row_object_id row),
       rev_object_type = row_object_type row,
       rev_lineage =
         (case ps of
            [] \<Rightarrow> Root
          | [p] \<Rightarrow> Update (RevisionId p)
          | a # b # rest \<Rightarrow> Merge (RevisionId a) (RevisionId b) (map RevisionId rest)),
       rev_created_at = row_created_at row,
       rev_created_by = ClientId (row_created_by row),
       rev_content =
         (if row_deleted row then Deleted
          else Active (case row_data row of Some v \<Rightarrow> v | None \<Rightarrow> null)) \<rparr>"

section \<open>Heads (db/object_heads.rs)\<close>

definition delete_heads :: "uuid \<Rightarrow> uuid list \<Rightarrow> ('v tables, sqlx_error, unit) fallible" where
  "delete_heads object_id ids = (\<lambda>t.
     (Inr (), t\<lparr>object_heads :=
        filter (\<lambda>(o', i). \<not> (o' = object_id \<and> i \<in> set ids)) (object_heads t)\<rparr>))"

text \<open>\<^verbatim>\<open>INSERT ... ON CONFLICT DO NOTHING\<close>, with the foreign key to \<^verbatim>\<open>revisions\<close>\<close>

definition insert_head :: "uuid \<Rightarrow> uuid \<Rightarrow> ('v tables, sqlx_error, unit) fallible" where
  "insert_head object_id i = (\<lambda>t.
     if (object_id, i) \<in> set (object_heads t) then (Inr (), t)
     else if i \<notin> set (map row_id (revisions t)) then (Inl ForeignKeyViolation, t)
     else (Inr (), t\<lparr>object_heads := object_heads t @ [(object_id, i)]\<rparr>))"

definition update_heads ::
  "'v env \<Rightarrow> uuid \<Rightarrow> uuid list \<Rightarrow> uuid \<Rightarrow> ('v pool, sqlx_error, unit) fallible" where
  "update_heads E object_id parent_ids new_revision_id =
     and_then (if parent_ids \<noteq> [] then sql E (delete_heads object_id parent_ids) else ok ())
       (\<lambda>_. sql E (insert_head object_id new_revision_id))"

definition get_heads :: "'v env \<Rightarrow> uuid \<Rightarrow> ('v pool, sqlx_error, uuid list) fallible" where
  "get_heads E object_id =
     query E (\<lambda>t. plan_head_ids E (map snd (filter (\<lambda>(o', i). o' = object_id) (object_heads t))))"

section \<open>Transactions (db/transactions.rs)\<close>

abbreviation i64_max :: int where
  "i64_max \<equiv> 2 ^ 63 - 1"

text \<open>
  \<^verbatim>\<open>INSERT INTO transactions ... RETURNING id\<close>: the id is the next value of the sequence, which
  is taken before the row is checked.
\<close>

definition insert_transaction_row ::
  "uuid \<Rightarrow> DateTime option \<Rightarrow> ('v tables, sqlx_error, int) fallible" where
  "insert_transaction_row client created = (\<lambda>t.
     case created of
       None \<Rightarrow> (Inl DataException, t)
     | Some c \<Rightarrow>
         (if txn_sequence t > i64_max then (Inl SequenceLimit, t)
          else let i = txn_sequence t; t' = t\<lparr>txn_sequence := i + 1\<rparr> in
            if client \<notin> set (map cl_id (clients t')) then (Inl ForeignKeyViolation, t')
            else (Inr i, t'\<lparr>transactions := transactions t' @
                    [\<lparr>tx_id = i, tx_client_id = client, tx_created_at = c\<rparr>]\<rparr>)))"

definition insert_transaction_revision ::
  "int \<Rightarrow> uuid \<Rightarrow> ('v tables, sqlx_error, unit) fallible" where
  "insert_transaction_revision txn i = (\<lambda>t.
     if (txn, i) \<in> set (transaction_revisions t) then (Inl UniqueViolation, t)
     else if txn \<notin> set (map tx_id (transactions t)) \<or> i \<notin> set (map row_id (revisions t))
     then (Inl ForeignKeyViolation, t)
     else (Inr (), t\<lparr>transaction_revisions := transaction_revisions t @ [(txn, i)]\<rparr>))"

definition create_transaction ::
  "'v env \<Rightarrow> ClientId \<Rightarrow> RevisionId list \<Rightarrow> ('v pool, sqlx_error, TransactionId) fallible" where
  "create_transaction E client_id revision_ids = (\<lambda>p.
     and_then
       (sql E (insert_transaction_row (client_uuid client_id)
                 (pg_timestamptz E (utc_now E (calls p)))))
       (\<lambda>txn_id. and_then
          (for_each (\<lambda>i. sql E (insert_transaction_revision txn_id (revision_uuid i))) revision_ids)
          (\<lambda>_. ok (TransactionId (word_of_int txn_id)))) p)"

text \<open>\<^verbatim>\<open>COALESCE(MAX(id), 0)\<close>, cast with \<^verbatim>\<open>as u64\<close>\<close>

definition max_transaction_id :: "'v tables \<Rightarrow> int" where
  "max_transaction_id t =
     (case map tx_id (transactions t) of [] \<Rightarrow> 0 | i # is \<Rightarrow> fold max is i)"

definition latest_transaction_id :: "'v env \<Rightarrow> ('v pool, sqlx_error, 64 word) fallible" where
  "latest_transaction_id E = query E (\<lambda>t. word_of_int (max_transaction_id t))"

section \<open>Files (db/files.rs)\<close>

definition upsert_file ::
  "'v env \<Rightarrow> uuid \<Rightarrow> 8 word list \<Rightarrow> ('v pool, sqlx_error, unit) fallible" where
  "upsert_file E object_id data =
     autocommit E (\<lambda>t. (Inr (), t\<lparr>files :=
       (if object_id \<in> set (map fst (files t))
        then map (\<lambda>(i, d). if i = object_id then (i, data) else (i, d)) (files t)
        else files t @ [(object_id, data)])\<rparr>))"

definition get_file :: "'v env \<Rightarrow> uuid \<Rightarrow> ('v pool, sqlx_error, 8 word list option) fallible" where
  "get_file E object_id = query E (\<lambda>t. map_of (files t) object_id)"

definition delete_file :: "'v env \<Rightarrow> uuid \<Rightarrow> ('v pool, sqlx_error, unit) fallible" where
  "delete_file E object_id =
     autocommit E (\<lambda>t. (Inr (), t\<lparr>files := filter (\<lambda>(i, d). i \<noteq> object_id) (files t)\<rparr>))"

section \<open>Running a statement\<close>

lemma sql_Inr_iff:
  "sql E stmt p = (Inr a, p') \<longleftrightarrow>
     \<not> pg_fault E (calls p) \<and>
     (\<exists>t. stmt (tables p) = (Inr a, t) \<and> p' = p\<lparr>calls := Suc (calls p), tables := t\<rparr>)"
  by (auto simp: sql_def Let_def split: prod.splits)

lemma sql_Inl_iff:
  "sql E stmt p = (Inl e, p') \<longleftrightarrow>
     (pg_fault E (calls p) \<and> e = Io \<and> p' = p\<lparr>calls := Suc (calls p)\<rparr>) \<or>
     (\<not> pg_fault E (calls p) \<and>
      (\<exists>t. stmt (tables p) = (Inl e, t) \<and> p' = p\<lparr>calls := Suc (calls p), tables := t\<rparr>))"
  by (auto simp: sql_def Let_def split: prod.splits)

lemma sql_run: "sql E stmt p = (Inr a, p') \<Longrightarrow> stmt (tables p) = (Inr a, tables p')"
  by (auto simp: sql_Inr_iff)

lemma autocommit_tables:
  "tables (snd (autocommit E stmt p)) = tables p \<or> tables (snd (autocommit E stmt p)) = snd (stmt (tables p))"
  by (auto simp: autocommit_def sql_def Let_def split: prod.split)

lemma autocommit_Inr: "autocommit E stmt p = (Inr a, p') \<longleftrightarrow> sql E stmt p = (Inr a, p')"
  by (auto simp: autocommit_def sql_def Let_def split: prod.splits)

lemma always_autocommit:
  assumes "\<And>p p'. tables p' = tables p \<Longrightarrow> R p p'" "\<And>p p'. tables p' = snd (stmt (tables p)) \<Longrightarrow> R p p'"
  shows "always R (autocommit E stmt)"
  unfolding always_def using autocommit_tables assms by blast

lemma query_Inr_iff:
  "query E f p = (Inr a, p') \<longleftrightarrow>
     \<not> pg_fault E (calls p) \<and> a = f (tables p) \<and> p' = p\<lparr>calls := Suc (calls p)\<rparr>"
  by (auto simp: query_def sql_Inr_iff)

lemma sql_fault_free:
  "fault_free E \<Longrightarrow> stmt (tables p) = (r, t) \<Longrightarrow>
     sql E stmt p = (r, p\<lparr>calls := Suc (calls p), tables := t\<rparr>)"
  by (simp add: sql_def fault_free_def Let_def)

lemma query_fault_free:
  "fault_free E \<Longrightarrow> query E f p = (Inr (f (tables p)), p\<lparr>calls := Suc (calls p)\<rparr>)"
  by (simp add: query_def sql_def fault_free_def Let_def)

subsection \<open>Reads do not change the tables\<close>

abbreviation same_tables :: "'v pool \<Rightarrow> 'v pool \<Rightarrow> bool" where
  "same_tables p p' \<equiv> tables p' = tables p"

lemma reflp_same_tables [simp, intro]: "reflp same_tables"
  by (simp add: reflp_def)

lemma transp_same_tables [simp, intro]: "transp same_tables"
  by (simp add: transp_def)

lemma query_same_tables [always_intros]: "always same_tables (query E f)"
  by (auto simp: always_def query_def sql_def Let_def)

lemmas read_defs = revision_exists_def get_revision_object_id_def get_revision_rows_by_ids_def
  get_parents_def get_parents_batch_def get_heads_def latest_transaction_id_def get_file_def

lemma reads_same_tables [always_intros]:
  "always same_tables (revision_exists E i)"
  "always same_tables (get_revision_object_id E u)"
  "always same_tables (get_revision_rows_by_ids E us)"
  "always same_tables (get_parents E u)"
  "always same_tables (get_parents_batch E us)"
  "always same_tables (get_heads E u)"
  "always same_tables (latest_transaction_id E)"
  "always same_tables (get_file E u)"
  unfolding read_defs by (auto intro!: always_intros)

subsection \<open>What a read returns\<close>

text \<open>
  \<open>reads m f\<close>: a successful run of \<open>m\<close> returns \<open>f\<close> of the tables and leaves them as they
  are. Together with \<open>never_fails m\<close> this determines \<open>m\<close> up to the number of calls.
\<close>

named_theorems reads_intros \<open>rules that build \<open>reads m f\<close> from the parts of \<open>m\<close>\<close>

definition reads :: "('v pool, 'e, 'a) fallible \<Rightarrow> ('v tables \<Rightarrow> 'a) \<Rightarrow> bool" where
  "reads m f \<longleftrightarrow> (\<forall>p a p'. m p = (Inr a, p') \<longrightarrow> a = f (tables p) \<and> tables p' = tables p)"

lemma readsD: "reads m f \<Longrightarrow> m p = (Inr a, p') \<Longrightarrow> a = f (tables p) \<and> tables p' = tables p"
  by (simp add: reads_def)

lemma reads_cong: "reads m f \<Longrightarrow> (\<And>t. f t = g t) \<Longrightarrow> reads m g"
  by (simp add: reads_def)

lemma reads_ok [reads_intros]: "reads (ok a) (\<lambda>_. a)"
  by (simp add: reads_def)

lemma reads_query [reads_intros]: "reads (query E f) f"
  by (simp add: reads_def query_Inr_iff)

lemma reads_and_then [reads_intros]:
  assumes "reads m f" "\<And>a. reads (g a) (h a)"
  shows "reads (and_then m g) (\<lambda>t. h (f t) t)"
  unfolding reads_def
proof (intro allI impI)
  fix p b p'
  assume "and_then m g p = (Inr b, p')"
  then obtain a p1 where "m p = (Inr a, p1)" and g: "g a p1 = (Inr b, p')"
    by (auto simp: and_then_Inr_iff)
  with readsD[OF assms(1)] have "a = f (tables p)" "tables p1 = tables p" by auto
  with readsD[OF assms(2) g] show "b = h (f (tables p)) (tables p) \<and> tables p' = tables p" by simp
qed

lemma reads_map_err [reads_intros]: "reads m f \<Longrightarrow> reads (map_err g m) f"
  by (simp add: reads_def)

lemma reads_fold_each [reads_intros]:
  assumes "\<And>x acc. reads (f x acc) (\<lambda>t. g t x acc)"
  shows "reads (fold_each f xs acc) (\<lambda>t. fold (g t) xs acc)"
proof (induction xs arbitrary: acc)
  case Nil
  show ?case by (simp add: reads_ok)
next
  case (Cons x xs)
  have "reads (and_then (f x acc) (fold_each f xs)) (\<lambda>t. fold (g t) xs (g t x acc))"
    by (rule reads_and_then[OF assms Cons.IH])
  then show ?case by simp
qed

lemma never_fails_query [never_fails_intros]: "fault_free E \<Longrightarrow> never_fails (query E f)"
  by (simp add: never_fails_def query_fault_free)

lemma reads_run:
  "reads m f \<Longrightarrow> never_fails m \<Longrightarrow> \<exists>p'. m p = (Inr (f (tables p)), p') \<and> tables p' = tables p"
  unfolding reads_def never_fails_def by metis

end
