(* ===== verification/Push.thy ===== *)
theory Push
  imports Tables "HOL-Library.Sublist"
begin

text \<open>
  \<^verbatim>\<open>db/push.rs\<close>: the validation of a batch of revisions and the transaction that stores the
  accepted ones, with the error type of \<^verbatim>\<open>error.rs\<close>. The validation reads the database outside
  the transaction, one query after the other, and keeps the verdicts in four local variables.
\<close>

section \<open>Errors (error.rs)\<close>

datatype ServerError =
    Err_Database sqlx_error
  | Err_DuplicateRevision
  | Err_UnknownParent string
  | Err_MalformedData string
  | Err_NotFound

section \<open>Validation\<close>

record verdicts =
  accepted :: "RevisionId list"
  rejected :: "RejectedRevision list"
  accepted_ids :: "RevisionId set"
  accepted_objects :: "RevisionId \<rightharpoonup> ObjectId"

definition no_verdicts :: verdicts where
  "no_verdicts = \<lparr> accepted = [], rejected = [], accepted_ids = {}, accepted_objects = Map.empty \<rparr>"

definition reject :: "RevisionId \<Rightarrow> RejectionReason \<Rightarrow> verdicts \<Rightarrow> verdicts" where
  "reject i reason acc =
     acc\<lparr>rejected := rejected acc @ [\<lparr>rejected_revision_id = i, rejected_reason = reason\<rparr>]\<rparr>"

definition accept :: "'v Revision \<Rightarrow> verdicts \<Rightarrow> verdicts" where
  "accept r acc =
     acc\<lparr> accepted_ids := insert (rev_id r) (accepted_ids acc),
          accepted_objects := (accepted_objects acc)(rev_id r \<mapsto> rev_object_id r),
          accepted := accepted acc @ [rev_id r] \<rparr>"

text \<open>
  The loop over the parents: the reason it stops with, \<open>None\<close> where \<^verbatim>\<open>all_parents_valid\<close>
  stays true.
\<close>

fun check_parents ::
  "'v env \<Rightarrow> (RevisionId \<rightharpoonup> ObjectId) \<Rightarrow> ObjectId \<Rightarrow> RevisionId list \<Rightarrow>
     ('v pool, sqlx_error, RejectionReason option) fallible" where
  "check_parents E objs object_id [] = ok None"
| "check_parents E objs object_id (parent_id # ps) =
     and_then
       (case objs parent_id of
          Some oid \<Rightarrow> ok (Some oid)
        | None \<Rightarrow> and_then (get_revision_object_id E (revision_uuid parent_id))
                    (\<lambda>oid. ok (map_option ObjectId oid)))
       (\<lambda>parent_object_id.
          case parent_object_id of
            None \<Rightarrow> ok (Some UnknownParent)
          | Some oid \<Rightarrow> if oid \<noteq> object_id then ok (Some MalformedData)
                        else check_parents E objs object_id ps)"

definition validate_revision ::
  "'v env \<Rightarrow> ClientId \<Rightarrow> 'v Revision \<Rightarrow> verdicts \<Rightarrow> ('v pool, sqlx_error, verdicts) fallible" where
  "validate_revision E client_id r acc =
     (if rev_created_by r \<noteq> client_id then ok (reject (rev_id r) MalformedData acc)
      else and_then (revision_exists E (rev_id r))
        (\<lambda>exists.
           if exists then ok (reject (rev_id r) DuplicateRevisionId acc)
           else if card (set (rev_parents r)) \<noteq> length (rev_parents r)
           then ok (reject (rev_id r) MalformedData acc)
           else and_then
               (check_parents E (accepted_objects acc) (rev_object_id r) (rev_parents r))
               (\<lambda>reason. case reason of
                   Some why \<Rightarrow> ok (reject (rev_id r) why acc)
                 | None \<Rightarrow> ok (accept r acc))))"

definition validate_batch ::
  "'v env \<Rightarrow> ClientId \<Rightarrow> 'v Revision list \<Rightarrow> ('v pool, sqlx_error, verdicts) fallible" where
  "validate_batch E client_id revs = fold_each (validate_revision E client_id) revs no_verdicts"

section \<open>Storing\<close>

definition store_revision :: "'v env \<Rightarrow> 'v Revision \<Rightarrow> ('v pool, sqlx_error, unit) fallible" where
  "store_revision E r =
     and_then (insert_revision E r)
       (\<lambda>_. update_heads E (object_uuid (rev_object_id r)) (map revision_uuid (rev_parents r))
              (revision_uuid (rev_id r)))"

text \<open>The body of the transaction\<close>

definition store_batch ::
  "'v env \<Rightarrow> ClientId \<Rightarrow> 'v Revision list \<Rightarrow> RevisionId list \<Rightarrow>
     ('v pool, sqlx_error, TransactionId) fallible" where
  "store_batch E client_id accepted_revisions ids =
     and_then (for_each (store_revision E) accepted_revisions)
       (\<lambda>_. create_transaction E client_id ids)"

definition store_accepted ::
  "'v env \<Rightarrow> ClientId \<Rightarrow> 'v Revision list \<Rightarrow> verdicts \<Rightarrow> ('v pool, sqlx_error, PushResponse) fallible" where
  "store_accepted E client_id revs acc =
     (let accepted_revisions = filter (\<lambda>r. rev_id r \<in> accepted_ids acc) revs in
      if accepted_revisions = []
      then ok \<lparr> resp_transaction_id = TransactionId 0,
                resp_accepted = accepted acc, resp_rejected = rejected acc \<rparr>
      else and_then (in_tx E (store_batch E client_id accepted_revisions (accepted acc)))
             (\<lambda>transaction_id. ok \<lparr> resp_transaction_id = transaction_id,
                resp_accepted = accepted acc, resp_rejected = rejected acc \<rparr>))"

definition push_revisions ::
  "'v env \<Rightarrow> ClientId \<Rightarrow> 'v Revision list \<Rightarrow> ('v pool, ServerError, PushResponse) fallible" where
  "push_revisions E client_id revs =
     map_err Err_Database
       (and_then (validate_batch E client_id revs) (store_accepted E client_id revs))"

section \<open>Validation as a function of the tables\<close>

text \<open>
  The queries of the validation see one state of the tables when nothing else writes. The
  verdict on a revision is then a function of the tables and of what was accepted before it
  in the batch.
\<close>

definition object_of :: "'v tables \<Rightarrow> uuid \<rightharpoonup> uuid" where
  "object_of t = map_of (map (\<lambda>r. (row_id r, row_object_id r)) (revisions t))"

definition parent_object ::
  "'v tables \<Rightarrow> (RevisionId \<rightharpoonup> ObjectId) \<Rightarrow> RevisionId \<Rightarrow> ObjectId option" where
  "parent_object t objs p =
     (case objs p of Some oid \<Rightarrow> Some oid
      | None \<Rightarrow> map_option ObjectId (object_of t (revision_uuid p)))"

fun parents_verdict ::
  "'v tables \<Rightarrow> (RevisionId \<rightharpoonup> ObjectId) \<Rightarrow> ObjectId \<Rightarrow> RevisionId list \<Rightarrow> RejectionReason option" where
  "parents_verdict t objs oid [] = None"
| "parents_verdict t objs oid (p # ps) =
     (case parent_object t objs p of
        None \<Rightarrow> Some UnknownParent
      | Some oid' \<Rightarrow> if oid' \<noteq> oid then Some MalformedData else parents_verdict t objs oid ps)"

definition verdict ::
  "'v tables \<Rightarrow> ClientId \<Rightarrow> (RevisionId \<rightharpoonup> ObjectId) \<Rightarrow> 'v Revision \<Rightarrow> RejectionReason option" where
  "verdict t client_id objs r =
     (if rev_created_by r \<noteq> client_id then Some MalformedData
      else if object_of t (revision_uuid (rev_id r)) \<noteq> None then Some DuplicateRevisionId
      else if \<not> distinct (rev_parents r) then Some MalformedData
      else parents_verdict t objs (rev_object_id r) (rev_parents r))"

definition judge :: "'v tables \<Rightarrow> ClientId \<Rightarrow> 'v Revision \<Rightarrow> verdicts \<Rightarrow> verdicts" where
  "judge t client_id r acc =
     (case verdict t client_id (accepted_objects acc) r of
        Some why \<Rightarrow> reject (rev_id r) why acc
      | None \<Rightarrow> accept r acc)"

definition judge_batch :: "'v tables \<Rightarrow> ClientId \<Rightarrow> 'v Revision list \<Rightarrow> verdicts" where
  "judge_batch t client_id revs = fold (judge t client_id) revs no_verdicts"

lemma object_of_eq_None_iff: "object_of t i = None \<longleftrightarrow> i \<notin> row_id ` set (revisions t)"
  by (simp add: object_of_def map_of_eq_None_iff image_image)

lemma object_of_SomeD:
  "object_of t i = Some oid \<Longrightarrow> \<exists>r\<in>set (revisions t). row_id r = i \<and> row_object_id r = oid"
  by (auto simp: object_of_def dest!: map_of_SomeD)

lemma check_parents_reads:
  "reads (check_parents E objs oid ps) (\<lambda>t. parents_verdict t objs oid ps)"
proof (induction ps)
  case Nil
  show ?case by (simp add: reads_ok)
next
  case (Cons q qs)
  let ?look = "case objs q of Some oid \<Rightarrow> ok (Some oid)
      | None \<Rightarrow> and_then (get_revision_object_id E (revision_uuid q)) (\<lambda>oid. ok (map_option ObjectId oid))"
  have look: "reads ?look (\<lambda>t. parent_object t objs q)"
    by (cases "objs q") (auto simp: parent_object_def get_revision_object_id_def object_of_def
          intro!: reads_intros reads_cong[OF reads_and_then[OF reads_query reads_ok]])
  let ?next = "\<lambda>found. case found of None \<Rightarrow> ok (Some UnknownParent)
      | Some oid' \<Rightarrow> if oid' \<noteq> oid then ok (Some MalformedData) else check_parents E objs oid qs"
  have "reads (?next found) (\<lambda>t. case found of None \<Rightarrow> Some UnknownParent
      | Some oid' \<Rightarrow> if oid' \<noteq> oid then Some MalformedData else parents_verdict t objs oid qs)" for found
    using Cons.IH by (cases found) (auto intro: reads_intros)
  from reads_and_then[OF look this] show ?case by simp
qed

lemma card_set_eq_length_iff: "card (set xs) = length xs \<longleftrightarrow> distinct xs"
  using card_distinct distinct_card by blast

lemma validate_revision_reads:
  "reads (validate_revision E client r acc) (\<lambda>t. judge t client r acc)"
proof -
  let ?ps = "rev_parents r"
  let ?after_parents = "\<lambda>reason. case reason of Some why \<Rightarrow> ok (reject (rev_id r) why acc)
      | None \<Rightarrow> ok (accept r acc)"
  let ?after_exists = "\<lambda>exists. if exists then ok (reject (rev_id r) DuplicateRevisionId acc)
      else if card (set ?ps) \<noteq> length ?ps then ok (reject (rev_id r) MalformedData acc)
      else and_then (check_parents E (accepted_objects acc) (rev_object_id r) ?ps) ?after_parents"
  have "reads (?after_parents reason)
      (\<lambda>t. case reason of Some why \<Rightarrow> reject (rev_id r) why acc | None \<Rightarrow> accept r acc)" for reason
    by (cases reason) (auto intro: reads_intros)
  note parents = reads_and_then[OF check_parents_reads this]
  have after: "reads (?after_exists exists) (\<lambda>t. if exists then reject (rev_id r) DuplicateRevisionId acc
      else if \<not> distinct ?ps then reject (rev_id r) MalformedData acc
      else case parents_verdict t (accepted_objects acc) (rev_object_id r) ?ps of
        Some why \<Rightarrow> reject (rev_id r) why acc | None \<Rightarrow> accept r acc)" for "exists"
    using parents by (auto simp: card_set_eq_length_iff intro: reads_intros)
  show ?thesis
  proof (cases "rev_created_by r = client")
    case True
    then have eq: "validate_revision E client r acc = and_then (revision_exists E (rev_id r)) ?after_exists"
      by (simp add: validate_revision_def)
    show ?thesis
      unfolding eq revision_exists_def
      by (rule reads_cong[OF reads_and_then[OF reads_query after]])
        (auto simp: True judge_def verdict_def object_of_eq_None_iff)
  next
    case False
    then show ?thesis
      by (simp add: validate_revision_def judge_def verdict_def reads_ok)
  qed
qed

lemma validate_batch_reads: "reads (validate_batch E client revs) (\<lambda>t. judge_batch t client revs)"
  unfolding validate_batch_def judge_batch_def
  by (rule reads_fold_each[OF validate_revision_reads])

lemma check_parents_same_tables [always_intros]: "always same_tables (check_parents E objs oid ps)"
  by (induction ps) (auto intro!: always_intros split: option.split)

lemma validate_batch_same_tables: "always same_tables (validate_batch E client revs)"
  unfolding validate_batch_def validate_revision_def
  by (auto intro!: always_intros split: option.split)

lemma check_parents_never_fails: "fault_free E \<Longrightarrow> never_fails (check_parents E objs oid ps)"
  by (induction ps)
    (auto simp: get_revision_object_id_def intro!: never_fails_intros split: option.split)

lemma validate_batch_never_fails:
  assumes "fault_free E"
  shows "never_fails (validate_batch E client revs)"
  unfolding validate_batch_def validate_revision_def revision_exists_def Let_def
  using assms check_parents_never_fails[OF assms]
  by (auto intro!: never_fails_intros split: option.split)

section \<open>Storing as a change of the tables\<close>

abbreviation known_ids :: "'v tables \<Rightarrow> uuid set" where
  "known_ids t \<equiv> row_id ` set (revisions t)"

abbreviation parent_ids :: "'v Revision \<Rightarrow> uuid set" where
  "parent_ids r \<equiv> revision_uuid ` set (rev_parents r)"

definition heads_after :: "'v Revision \<Rightarrow> (uuid \<times> uuid) list \<Rightarrow> (uuid \<times> uuid) list" where
  "heads_after r hs =
     (let new = (object_uuid (rev_object_id r), revision_uuid (rev_id r));
          rest = filter (\<lambda>(ob, i). \<not> (ob = fst new \<and> i \<in> parent_ids r)) hs
      in if new \<in> set rest then rest else rest @ [new])"

text \<open>
  \<open>stored E r t t'\<close>: the statements for the revision \<open>r\<close> succeeded and took the tables from
  \<open>t\<close> to \<open>t'\<close>.
\<close>

definition stored :: "'v env \<Rightarrow> 'v Revision \<Rightarrow> 'v tables \<Rightarrow> 'v tables \<Rightarrow> bool" where
  "stored E r t t' \<longleftrightarrow>
     (\<exists>row. encode_row E (row_of_revision r) = Some row \<and>
        revision_uuid (rev_id r) \<notin> known_ids t \<and>
        client_uuid (rev_created_by r) \<in> cl_id ` set (clients t) \<and>
        distinct (rev_parents r) \<and>
        parent_ids r \<subseteq> insert (revision_uuid (rev_id r)) (known_ids t) \<and>
        t' = t\<lparr> revisions := revisions t @ [row],
                revision_parents := revision_parents t @ parent_rows r,
                object_heads := heads_after r (object_heads t) \<rparr>)"

lemma encode_row_fields:
  assumes "encode_row E row = Some row'"
  shows "row_id row' = row_id row \<and> row_object_id row' = row_object_id row \<and>
    row_object_type row' = row_object_type row \<and> row_deleted row' = row_deleted row \<and>
    row_created_by row' = row_created_by row \<and>
    (row_data row' = None \<longleftrightarrow> row_data row = None)"
  using assms by (auto simp: encode_row_def split: if_splits option.splits)

lemma row_of_revision_fields [simp]:
  "row_id (row_of_revision r) = revision_uuid (rev_id r)"
  "row_object_id (row_of_revision r) = object_uuid (rev_object_id r)"
  "row_object_type (row_of_revision r) = rev_object_type r"
  "row_created_at (row_of_revision r) = rev_created_at r"
  "row_created_by (row_of_revision r) = client_uuid (rev_created_by r)"
  "row_deleted (row_of_revision r) = is_deleted (rev_content r)"
  "row_data (row_of_revision r) = content_data (rev_content r)"
  by (auto simp: row_of_revision_def split: Content.split)

lemma active_has_data_row_of_revision: "active_has_data (row_of_revision r)"
  by (cases "rev_content r") (auto simp: active_has_data_def)

lemma active_has_data_encode:
  "encode_row E row = Some row' \<Longrightarrow> active_has_data row' \<longleftrightarrow> active_has_data row"
  by (drule encode_row_fields) (auto simp: active_has_data_def)

lemma storedE:
  assumes "stored E r t t'"
  obtains row where "encode_row E (row_of_revision r) = Some row"
    and "row_id row = revision_uuid (rev_id r)" "row_object_id row = object_uuid (rev_object_id r)"
    and "row_created_by row = client_uuid (rev_created_by r)" "active_has_data row"
    and "revision_uuid (rev_id r) \<notin> known_ids t"
    and "client_uuid (rev_created_by r) \<in> cl_id ` set (clients t)"
    and "distinct (rev_parents r)"
    and "parent_ids r \<subseteq> insert (revision_uuid (rev_id r)) (known_ids t)"
    and "revisions t' = revisions t @ [row]"
    and "revision_parents t' = revision_parents t @ parent_rows r"
    and "object_heads t' = heads_after r (object_heads t)"
    and "clients t' = clients t" "transactions t' = transactions t"
    and "transaction_revisions t' = transaction_revisions t" "files t' = files t"
    and "txn_sequence t' = txn_sequence t"
proof -
  from assms obtain row where row: "encode_row E (row_of_revision r) = Some row"
    and rest: "revision_uuid (rev_id r) \<notin> known_ids t"
      "client_uuid (rev_created_by r) \<in> cl_id ` set (clients t)" "distinct (rev_parents r)"
      "parent_ids r \<subseteq> insert (revision_uuid (rev_id r)) (known_ids t)"
      "t' = t\<lparr> revisions := revisions t @ [row],
                revision_parents := revision_parents t @ parent_rows r,
                object_heads := heads_after r (object_heads t) \<rparr>"
    unfolding stored_def by blast
  from encode_row_fields[OF row] active_has_data_encode[OF row] show ?thesis
    by (intro that[OF row]) (use rest in \<open>simp_all add: active_has_data_row_of_revision\<close>)
qed

lemma insert_revision_row_run:
  assumes "insert_revision_row E row t = (Inr (), t')"
  shows "\<exists>row'. encode_row E row = Some row' \<and> row_id row \<notin> known_ids t \<and>
           row_created_by row \<in> cl_id ` set (clients t) \<and>
           t' = t\<lparr>revisions := revisions t @ [row']\<rparr>"
  using assms
  by (auto simp: insert_revision_row_def dest!: encode_row_fields split: option.splits if_splits)

abbreviation parent_key :: "ParentRow \<Rightarrow> uuid \<times> uuid" where
  "parent_key r \<equiv> (pr_revision_id r, pr_parent_id r)"

lemma insert_parent_rows_run:
  assumes "for_each (\<lambda>row. sql E (insert_parent_row row)) rows p = (Inr (), p')"
  shows "tables p' = (tables p)\<lparr>revision_parents := revision_parents (tables p) @ rows\<rparr> \<and>
    distinct (map parent_key rows) \<and>
    parent_key ` set rows \<inter> parent_key ` set (revision_parents (tables p)) = {} \<and>
    pr_parent_id ` set rows \<subseteq> known_ids (tables p)"
  using assms
proof (induction rows arbitrary: p)
  case (Cons row rows)
  from Cons.prems obtain p1 where
    ins: "insert_parent_row row (tables p) = (Inr (), tables p1)" and
    rest: "for_each (\<lambda>row. sql E (insert_parent_row row)) rows p1 = (Inr (), p')"
    by (auto simp: and_then_Inr_iff dest!: sql_run)
  from ins have p1: "tables p1 = (tables p)\<lparr>revision_parents := revision_parents (tables p) @ [row]\<rparr>"
      and "pr_parent_id row \<in> known_ids (tables p)"
      and "parent_key row \<notin> parent_key ` set (revision_parents (tables p))"
    by (auto simp: insert_parent_row_def split: if_splits)
  with Cons.IH[OF rest] show ?case by auto
qed simp

lemma parent_rows_facts [simp]:
  "map pr_parent_id (parent_rows r) = map revision_uuid (rev_parents r)"
  "x \<in> set (parent_rows r) \<Longrightarrow> pr_revision_id x = revision_uuid (rev_id r)"
proof -
  have "map pr_parent_id (parent_rows r) = map (revision_uuid \<circ> snd) (enumerate 0 (rev_parents r))"
    by (simp add: parent_rows_def case_prod_unfold comp_def)
  then show "map pr_parent_id (parent_rows r) = map revision_uuid (rev_parents r)"
    by (simp only: map_map[symmetric] map_snd_enumerate)
qed (auto simp: parent_rows_def)

lemma parent_rows_parents: "pr_parent_id ` set (parent_rows r) = parent_ids r"
  by (metis list.set_map parent_rows_facts(1))

lemma parent_rows_keys: "map parent_key (parent_rows r) = map (\<lambda>p. (revision_uuid (rev_id r), revision_uuid p)) (rev_parents r)"
proof -
  have "map parent_key (parent_rows r) = map (Pair (revision_uuid (rev_id r))) (map pr_parent_id (parent_rows r))"
    unfolding map_map by (rule map_cong) auto
  then show ?thesis by (simp add: comp_def)
qed

lemma insert_revision_run:
  assumes "insert_revision E r p = (Inr (), p')"
  shows "\<exists>row. encode_row E (row_of_revision r) = Some row \<and>
    revision_uuid (rev_id r) \<notin> known_ids (tables p) \<and>
    client_uuid (rev_created_by r) \<in> cl_id ` set (clients (tables p)) \<and>
    distinct (rev_parents r) \<and>
    parent_ids r \<subseteq> insert (revision_uuid (rev_id r)) (known_ids (tables p)) \<and>
    tables p' = (tables p)\<lparr> revisions := revisions (tables p) @ [row],
                             revision_parents := revision_parents (tables p) @ parent_rows r \<rparr>"
proof -
  from assms obtain p1 where
    ins: "insert_revision_row E (row_of_revision r) (tables p) = (Inr (), tables p1)" and
    rest: "for_each (\<lambda>row. sql E (insert_parent_row row)) (parent_rows r) p1 = (Inr (), p')"
    by (auto simp: insert_revision_def and_then_Inr_iff dest!: sql_run)
  from insert_revision_row_run[OF ins] obtain row where
    row: "encode_row E (row_of_revision r) = Some row" and p1: "tables p1 = (tables p)\<lparr>revisions := revisions (tables p) @ [row]\<rparr>"
    and new: "revision_uuid (rev_id r) \<notin> known_ids (tables p)"
      "client_uuid (rev_created_by r) \<in> cl_id ` set (clients (tables p))"
    by auto
  note run = insert_parent_rows_run[OF rest, unfolded parent_rows_keys parent_rows_parents]
  have "distinct (rev_parents r)" using run by (simp add: distinct_map)
  moreover have "parent_ids r \<subseteq> insert (revision_uuid (rev_id r)) (known_ids (tables p))"
    using run p1 encode_row_fields[OF row] by auto
  ultimately show ?thesis using row new run p1 by auto
qed

lemma update_heads_run:
  assumes "update_heads E (object_uuid (rev_object_id r)) (map revision_uuid (rev_parents r))
      (revision_uuid (rev_id r)) p = (Inr (), p')"
  shows "tables p' = (tables p)\<lparr>object_heads := heads_after r (object_heads (tables p))\<rparr>"
  using assms
  by (auto simp: update_heads_def heads_after_def delete_heads_def insert_head_def Let_def
      and_then_Inr_iff sql_Inr_iff split: if_splits)

lemma store_revision_run:
  assumes "store_revision E r p = (Inr (), p')"
  shows "stored E r (tables p) (tables p')"
proof -
  from assms obtain p1 where ins: "insert_revision E r p = (Inr (), p1)"
    and upd: "update_heads E (object_uuid (rev_object_id r)) (map revision_uuid (rev_parents r))
      (revision_uuid (rev_id r)) p1 = (Inr (), p')"
    by (auto simp: store_revision_def and_then_Inr_iff)
  from insert_revision_run[OF ins] update_heads_run[OF upd] show ?thesis
    unfolding stored_def by auto
qed

text \<open>A batch: the revisions one after the other.\<close>

fun stored_all :: "'v env \<Rightarrow> 'v Revision list \<Rightarrow> 'v tables \<Rightarrow> 'v tables \<Rightarrow> bool" where
  "stored_all E [] t t' = (t' = t)"
| "stored_all E (r # rs) t t' = (\<exists>t1. stored E r t t1 \<and> stored_all E rs t1 t')"

lemma store_revisions_run:
  assumes "for_each (store_revision E) rs p = (Inr (), p')"
  shows "stored_all E rs (tables p) (tables p')"
  using assms
proof (induction rs arbitrary: p)
  case (Cons r rs)
  then show ?case by (auto simp: and_then_Inr_iff dest!: store_revision_run Cons.IH)
qed simp

lemma insert_transaction_revisions_run:
  assumes "for_each (\<lambda>i. sql E (insert_transaction_revision txn (revision_uuid i))) ids p = (Inr (), p')"
  shows "tables p' = (tables p)\<lparr>transaction_revisions :=
           transaction_revisions (tables p) @ map (\<lambda>i. (txn, revision_uuid i)) ids\<rparr> \<and>
    distinct ids \<and> (\<forall>i \<in> set ids. (txn, revision_uuid i) \<notin> set (transaction_revisions (tables p))) \<and>
    (\<forall>i \<in> set ids. revision_uuid i \<in> known_ids (tables p))"
  using assms
proof (induction ids arbitrary: p)
  case (Cons i ids)
  from Cons.prems obtain p1 where
    ins: "insert_transaction_revision txn (revision_uuid i) (tables p) = (Inr (), tables p1)" and
    rest: "for_each (\<lambda>i. sql E (insert_transaction_revision txn (revision_uuid i))) ids p1 = (Inr (), p')"
    by (auto simp: and_then_Inr_iff dest!: sql_run)
  from ins have "tables p1 = (tables p)\<lparr>transaction_revisions :=
        transaction_revisions (tables p) @ [(txn, revision_uuid i)]\<rparr>"
      and "revision_uuid i \<in> known_ids (tables p)"
      and "(txn, revision_uuid i) \<notin> set (transaction_revisions (tables p))"
    by (auto simp: insert_transaction_revision_def split: if_splits)
  with Cons.IH[OF rest] show ?case by auto
qed simp

text \<open>The effect of recording a transaction on the tables\<close>

definition recorded :: "ClientId \<Rightarrow> RevisionId list \<Rightarrow> 'v tables \<Rightarrow> 'v tables \<Rightarrow> bool" where
  "recorded client ids t t' \<longleftrightarrow>
     (\<exists>at. txn_sequence t \<le> i64_max \<and> client_uuid client \<in> cl_id ` set (clients t) \<and>
        distinct ids \<and> (\<forall>i \<in> set ids. revision_uuid i \<in> known_ids t) \<and>
        (\<forall>i \<in> set ids. (txn_sequence t, revision_uuid i) \<notin> set (transaction_revisions t)) \<and>
        t' = t\<lparr> txn_sequence := txn_sequence t + 1,
                transactions := transactions t @
                  [\<lparr>tx_id = txn_sequence t, tx_client_id = client_uuid client, tx_created_at = at\<rparr>],
                transaction_revisions := transaction_revisions t @
                  map (\<lambda>i. (txn_sequence t, revision_uuid i)) ids \<rparr>)"

lemma create_transaction_run:
  assumes "create_transaction E client ids p = (Inr tid, p')"
  shows "recorded client ids (tables p) (tables p') \<and>
    tid = TransactionId (word_of_int (txn_sequence (tables p)))"
proof -
  from assms obtain txn p1 where
    ins: "insert_transaction_row (client_uuid client) (pg_timestamptz E (utc_now E (calls p))) (tables p)
            = (Inr txn, tables p1)" and
    rest: "for_each (\<lambda>i. sql E (insert_transaction_revision txn (revision_uuid i))) ids p1 = (Inr (), p')" and
    tid: "tid = TransactionId (word_of_int txn)"
    by (auto simp: create_transaction_def and_then_Inr_iff dest!: sql_run)
  from ins obtain at where "txn = txn_sequence (tables p)" "txn_sequence (tables p) \<le> i64_max"
    "client_uuid client \<in> cl_id ` set (clients (tables p))"
    "tables p1 = (tables p)\<lparr> txn_sequence := txn_sequence (tables p) + 1,
        transactions := transactions (tables p) @
          [\<lparr>tx_id = txn, tx_client_id = client_uuid client, tx_created_at = at\<rparr>]\<rparr>"
    by (auto simp: insert_transaction_row_def Let_def eq_commute[of _ "tables p1"]
        split: option.splits if_splits)
  with insert_transaction_revisions_run[OF rest] tid show ?thesis
    unfolding recorded_def by auto
qed

lemma in_tx_Inr:
  assumes "in_tx E body p = (Inr a, p')"
  shows "\<exists>p1 p2. tables p1 = tables p \<and> body p1 = (Inr a, p2) \<and> tables p' = tables p2"
proof -
  obtain r p2 where body: "body (p\<lparr>calls := Suc (calls p)\<rparr>) = (r, p2)" by fastforce
  with assms have "r = Inr a" "tables p' = tables p2"
    by (auto simp: in_tx_def sql_def Let_def ok_def split: sum.splits if_splits)
  with body show ?thesis by (intro exI[of _ "p\<lparr>calls := Suc (calls p)\<rparr>"] exI[of _ p2]) simp
qed

text \<open>
  A transaction that fails leaves the tables as they were but for the sequence, unless the
  answer to its \<^verbatim>\<open>COMMIT\<close> was lost after the body had succeeded.
\<close>

lemma in_tx_Inl:
  assumes "in_tx E body p = (Inl e, p')"
  shows "(\<exists>n. tables p' = (tables p)\<lparr>txn_sequence := n\<rparr>) \<or>
    (e = Io \<and> (\<exists>p1 p2 a. tables p1 = tables p \<and> body p1 = (Inr a, p2) \<and> tables p' = tables p2 \<and>
       pg_commit_lost E (calls p2)))"
proof -
  let ?p1 = "p\<lparr>calls := Suc (calls p)\<rparr>"
  obtain r p2 where body: "body ?p1 = (r, p2)" by fastforce
  have same: "\<exists>n. tables p = (tables p)\<lparr>txn_sequence := n\<rparr>"
    by (rule exI[of _ "txn_sequence (tables p)"]) simp
  from assms body same have "(\<exists>n. tables p' = (tables p)\<lparr>txn_sequence := n\<rparr>) \<or>
      (e = Io \<and> (\<exists>a. r = Inr a) \<and> tables p' = tables p2 \<and> pg_commit_lost E (calls p2))"
    by (auto simp: in_tx_def sql_def Let_def ok_def rollback_def split: sum.splits if_splits)
  moreover have "tables ?p1 = tables p" by simp
  ultimately show ?thesis using body by metis
qed

section \<open>The verdicts on a batch\<close>

text \<open>
  The revisions a batch has accepted, in order, and the rejections, as functions of the tables;
  \<open>objs\<close> holds the objects of the revisions accepted before.
\<close>

fun accepted_revs ::
  "'v tables \<Rightarrow> ClientId \<Rightarrow> (RevisionId \<rightharpoonup> ObjectId) \<Rightarrow> 'v Revision list \<Rightarrow> 'v Revision list" where
  "accepted_revs t client objs [] = []"
| "accepted_revs t client objs (r # rs) =
     (case verdict t client objs r of
        None \<Rightarrow> r # accepted_revs t client (objs(rev_id r \<mapsto> rev_object_id r)) rs
      | Some _ \<Rightarrow> accepted_revs t client objs rs)"

fun rejections ::
  "'v tables \<Rightarrow> ClientId \<Rightarrow> (RevisionId \<rightharpoonup> ObjectId) \<Rightarrow> 'v Revision list \<Rightarrow> RejectedRevision list" where
  "rejections t client objs [] = []"
| "rejections t client objs (r # rs) =
     (case verdict t client objs r of
        None \<Rightarrow> rejections t client (objs(rev_id r \<mapsto> rev_object_id r)) rs
      | Some why \<Rightarrow> \<lparr>rejected_revision_id = rev_id r, rejected_reason = why\<rparr> # rejections t client objs rs)"

lemma fold_judge:
  "accepted (fold (judge t client) revs acc) =
     accepted acc @ map rev_id (accepted_revs t client (accepted_objects acc) revs)"
  "rejected (fold (judge t client) revs acc) =
     rejected acc @ rejections t client (accepted_objects acc) revs"
  "accepted_ids (fold (judge t client) revs acc) =
     accepted_ids acc \<union> rev_id ` set (accepted_revs t client (accepted_objects acc) revs)"
  by (induction revs arbitrary: acc)
    (auto simp: judge_def reject_def accept_def split: option.split)

lemma judge_batch_simps [simp]:
  "accepted (judge_batch t client revs) = map rev_id (accepted_revs t client Map.empty revs)"
  "rejected (judge_batch t client revs) = rejections t client Map.empty revs"
  "accepted_ids (judge_batch t client revs) = rev_id ` set (accepted_revs t client Map.empty revs)"
  by (simp_all add: judge_batch_def fold_judge no_verdicts_def)

lemma verdicts_partition:
  "mset (map rev_id (accepted_revs t client objs revs)) +
   mset (map rejected_revision_id (rejections t client objs revs)) = mset (map rev_id revs)"
  by (induction revs arbitrary: objs) (auto split: option.split)

lemma accepted_revs_subseq: "subseq (accepted_revs t client objs revs) revs"
  by (induction revs arbitrary: objs) (auto split: option.split)

text \<open>Each revision of the list passes the validation after the ones before it.\<close>

fun admissible :: "'v tables \<Rightarrow> ClientId \<Rightarrow> (RevisionId \<rightharpoonup> ObjectId) \<Rightarrow> 'v Revision list \<Rightarrow> bool" where
  "admissible t client objs [] = True"
| "admissible t client objs (r # rs) =
     (verdict t client objs r = None \<and>
      admissible t client (objs(rev_id r \<mapsto> rev_object_id r)) rs)"

lemma accepted_revs_admissible: "admissible t client objs (accepted_revs t client objs revs)"
  by (induction revs arbitrary: objs) (auto split: option.split)

lemma parents_verdict_None_iff:
  "parents_verdict t objs oid ps = None \<longleftrightarrow> (\<forall>p \<in> set ps. parent_object t objs p = Some oid)"
  by (induction ps) (auto split: option.split)

lemma verdict_None_iff:
  "verdict t client objs r = None \<longleftrightarrow>
     rev_created_by r = client \<and> revision_uuid (rev_id r) \<notin> known_ids t \<and>
     distinct (rev_parents r) \<and>
     (\<forall>p \<in> set (rev_parents r). parent_object t objs p = Some (rev_object_id r))"
  by (auto simp: verdict_def parents_verdict_None_iff object_of_eq_None_iff)

text \<open>
  The code selects the revisions to store by their id. Where the selected ids are distinct,
  which the primary key enforces, these are exactly the accepted revisions.
\<close>

definition selected_revs :: "'v tables \<Rightarrow> ClientId \<Rightarrow> 'v Revision list \<Rightarrow> 'v Revision list" where
  "selected_revs t client revs =
     filter (\<lambda>r. rev_id r \<in> rev_id ` set (accepted_revs t client Map.empty revs)) revs"

lemma selected_subseq_eq:
  assumes "subseq A revs" "distinct (map rev_id (filter (\<lambda>r. rev_id r \<in> rev_id ` set A) revs))"
  shows "filter (\<lambda>r. rev_id r \<in> rev_id ` set A) revs = A"
proof -
  let ?F = "filter (\<lambda>r. rev_id r \<in> rev_id ` set A) revs"
  have "subseq (filter (\<lambda>r. rev_id r \<in> rev_id ` set A) A) ?F" by (rule subseq_filter[OF assms(1)])
  then have sub: "subseq A ?F" by (simp add: filter_id_conv)
  have "set (map rev_id ?F) \<subseteq> set (map rev_id A)" by auto
  then have "card (set (map rev_id ?F)) \<le> length (map rev_id A)"
    by (meson List.finite_set card_length card_mono le_trans)
  then have "length ?F \<le> length A" using distinct_card[OF assms(2)] by simp
  with sub show ?thesis by (metis le_antisym list_emb_length subseq_same_length)
qed

lemma selected_revs_eq:
  assumes "distinct (map rev_id (selected_revs t client revs))"
  shows "selected_revs t client revs = accepted_revs t client Map.empty revs"
  using assms selected_subseq_eq[OF accepted_revs_subseq] unfolding selected_revs_def by blast

lemma selected_revs_eq_Nil_iff:
  "selected_revs t client revs = [] \<longleftrightarrow> accepted_revs t client Map.empty revs = []"
proof -
  have "set (accepted_revs t client Map.empty revs) \<subseteq> set revs"
    using list_emb_set[OF accepted_revs_subseq] by blast
  then show ?thesis
    by (cases "accepted_revs t client Map.empty revs") (auto simp: selected_revs_def filter_empty_conv)
qed

lemma stored_known: "stored E r t t' \<Longrightarrow> known_ids t' = insert (revision_uuid (rev_id r)) (known_ids t)"
  by (auto simp: stored_def dest!: encode_row_fields)

lemma stored_all_fresh:
  "stored_all E rs t t' \<Longrightarrow>
     distinct (map rev_id rs) \<and> revision_uuid ` rev_id ` set rs \<inter> known_ids t = {} \<and>
     known_ids t' = known_ids t \<union> revision_uuid ` rev_id ` set rs"
proof (induction rs arbitrary: t)
  case (Cons r rs)
  then obtain t1 where t1: "stored E r t t1" "stored_all E rs t1 t'" by auto
  from Cons.IH[OF t1(2)] t1(1) stored_known[OF t1(1)] show ?case
    by (auto simp: stored_def)
qed simp

text \<open>
  What \<^verbatim>\<open>push_revisions\<close> does, by outcome. An answer describes the accepted revisions, which
  are stored and recorded as one transaction; nothing is written when none is accepted.
\<close>

definition pushed :: "'v env \<Rightarrow> ClientId \<Rightarrow> 'v Revision list \<Rightarrow> 'v tables \<Rightarrow> 'v tables \<Rightarrow> bool" where
  "pushed E client revs t t' \<longleftrightarrow>
     (let A = accepted_revs t client Map.empty revs in
      if A = [] then t' = t
      else \<exists>t1. stored_all E A t t1 \<and> recorded client (map rev_id A) t1 t')"

definition push_answer :: "ClientId \<Rightarrow> 'v Revision list \<Rightarrow> 'v tables \<Rightarrow> PushResponse" where
  "push_answer client revs t =
     (let A = accepted_revs t client Map.empty revs in
      \<lparr> resp_transaction_id = TransactionId (if A = [] then 0 else word_of_int (txn_sequence t)),
        resp_accepted = map rev_id A,
        resp_rejected = rejections t client Map.empty revs \<rparr>)"

lemma push_answer_simps [simp]:
  "resp_accepted (push_answer client revs t) = map rev_id (accepted_revs t client Map.empty revs)"
  "resp_rejected (push_answer client revs t) = rejections t client Map.empty revs"
  "resp_transaction_id (push_answer client revs t) =
     TransactionId (if accepted_revs t client Map.empty revs = [] then 0 else word_of_int (txn_sequence t))"
  by (simp_all add: push_answer_def Let_def)

lemma stored_all_sequence: "stored_all E rs t t' \<Longrightarrow> txn_sequence t' = txn_sequence t"
  by (induction rs arbitrary: t) (auto simp: stored_def)

lemma store_batch_run:
  assumes "store_batch E client rs ids p = (Inr tid, p')"
  shows "\<exists>t1. stored_all E rs (tables p) t1 \<and> recorded client ids t1 (tables p') \<and>
    tid = TransactionId (word_of_int (txn_sequence (tables p)))"
proof -
  from assms obtain p1 where
    all: "for_each (store_revision E) rs p = (Inr (), p1)" and
    txn: "create_transaction E client ids p1 = (Inr tid, p')"
    by (auto simp: store_batch_def and_then_Inr_iff)
  note all = store_revisions_run[OF all]
  from all create_transaction_run[OF txn] stored_all_sequence[OF all] show ?thesis by auto
qed

lemma store_selected_run:
  assumes "store_batch E client (selected_revs t client revs)
      (map rev_id (accepted_revs t client Map.empty revs)) p = (Inr tid, p')"
    and "tables p = t" and "accepted_revs t client Map.empty revs \<noteq> []"
  shows "pushed E client revs t (tables p') \<and> tid = TransactionId (word_of_int (txn_sequence t))"
proof -
  from store_batch_run[OF assms(1)] assms(2) obtain t1 where
    t1: "stored_all E (selected_revs t client revs) t t1"
      "recorded client (map rev_id (accepted_revs t client Map.empty revs)) t1 (tables p')"
      "tid = TransactionId (word_of_int (txn_sequence t))" by auto
  with stored_all_fresh[OF t1(1)] selected_revs_eq[of t client revs] assms(3) show ?thesis
    by (auto simp: pushed_def Let_def)
qed

lemma store_accepted_judged:
  "store_accepted E client revs (judge_batch t client revs) =
     (let A = accepted_revs t client Map.empty revs;
          answer = (\<lambda>tid. \<lparr> resp_transaction_id = tid, resp_accepted = map rev_id A,
                             resp_rejected = rejections t client Map.empty revs \<rparr>)
      in if A = [] then ok (answer (TransactionId 0))
         else and_then (in_tx E (store_batch E client (selected_revs t client revs) (map rev_id A)))
                (\<lambda>tid. ok (answer tid)))"
  unfolding store_accepted_def Let_def judge_batch_simps selected_revs_def[symmetric]
    selected_revs_eq_Nil_iff ..

lemma push_revisions_Inr:
  assumes "push_revisions E client revs p = (Inr resp, p')"
  shows "resp = push_answer client revs (tables p) \<and> pushed E client revs (tables p) (tables p')"
proof -
  from assms obtain acc p1 where val: "validate_batch E client revs p = (Inr acc, p1)"
    and rest: "store_accepted E client revs acc p1 = (Inr resp, p')"
    by (auto simp: push_revisions_def and_then_Inr_iff)
  from readsD[OF validate_batch_reads val] have acc: "acc = judge_batch (tables p) client revs"
    and p1: "tables p1 = tables p" by auto
  let ?A = "accepted_revs (tables p) client Map.empty revs"
  show ?thesis
  proof (cases "?A = []")
    case True
    with rest show ?thesis
      by (simp add: acc store_accepted_judged pushed_def push_answer_def p1)
  next
    case False
    with rest obtain tid where
      tx: "in_tx E (store_batch E client (selected_revs (tables p) client revs) (map rev_id ?A)) p1 = (Inr tid, p')"
      and resp: "resp = \<lparr>resp_transaction_id = tid, resp_accepted = map rev_id ?A,
        resp_rejected = rejections (tables p) client Map.empty revs\<rparr>"
      by (auto simp: acc store_accepted_judged and_then_Inr_iff Let_def)
    from in_tx_Inr[OF tx] p1 obtain p2 p3 where p2: "tables p2 = tables p"
      and run: "store_batch E client (selected_revs (tables p) client revs) (map rev_id ?A) p2 = (Inr tid, p3)"
      and p3: "tables p' = tables p3" by auto
    from store_selected_run[OF run p2 False] False p3 resp show ?thesis
      by (simp add: push_answer_def)
  qed
qed

text \<open>
  A push that answers with an error is a database error. It has written nothing but a value of
  the sequence, unless the answer to the final \<^verbatim>\<open>COMMIT\<close> was lost: then it has written
  everything.
\<close>

lemma push_revisions_Inl:
  assumes "push_revisions E client revs p = (Inl e, p')"
  shows "(\<exists>d. e = Err_Database d) \<and>
    ((\<exists>n. tables p' = (tables p)\<lparr>txn_sequence := n\<rparr>) \<or>
     (e = Err_Database Io \<and> pushed E client revs (tables p) (tables p') \<and> (\<exists>n. pg_commit_lost E n)))"
proof -
  have same: "\<exists>n. t = t\<lparr>txn_sequence := n\<rparr>" for t :: "'a tables"
    by (rule exI[of _ "txn_sequence t"]) simp
  from assms obtain d where e: "e = Err_Database d" and
    "validate_batch E client revs p = (Inl d, p') \<or>
     (\<exists>acc p1. validate_batch E client revs p = (Inr acc, p1) \<and> store_accepted E client revs acc p1 = (Inl d, p'))"
    unfolding push_revisions_def map_err_Inl_iff and_then_Inl_iff by blast
  then consider (val) "validate_batch E client revs p = (Inl d, p')"
    | (tx) acc p1 where "validate_batch E client revs p = (Inr acc, p1)"
        "store_accepted E client revs acc p1 = (Inl d, p')" by blast
  then show ?thesis
  proof cases
    case val
    from alwaysD[OF validate_batch_same_tables val] same show ?thesis by (simp add: e)
  next
    case tx
    from readsD[OF validate_batch_reads tx(1)] have acc: "acc = judge_batch (tables p) client revs"
      and p1: "tables p1 = tables p" by auto
    let ?A = "accepted_revs (tables p) client Map.empty revs"
    from tx(2) have A: "?A \<noteq> []"
      and fail: "in_tx E (store_batch E client (selected_revs (tables p) client revs) (map rev_id ?A)) p1 = (Inl d, p')"
      by (auto simp: acc store_accepted_judged and_then_Inl_iff Let_def split: if_splits)
    from in_tx_Inl[OF fail] show ?thesis
    proof
      assume "d = Io \<and> (\<exists>q1 q2 a. tables q1 = tables p1 \<and>
        store_batch E client (selected_revs (tables p) client revs) (map rev_id ?A) q1 = (Inr a, q2) \<and>
        tables p' = tables q2 \<and> pg_commit_lost E (calls q2))"
      then obtain q1 q2 a where d: "d = Io" and q: "tables q1 = tables p"
        "store_batch E client (selected_revs (tables p) client revs) (map rev_id ?A) q1 = (Inr a, q2)"
        "tables p' = tables q2" "pg_commit_lost E (calls q2)"
        by (auto simp: p1)
      from store_selected_run[OF q(2,1) A] d q(3,4) show ?thesis by (auto simp: e)
    qed (simp add: e p1)
  qed
qed

end
