(* ===== verification/Graph.thy ===== *)
theory Graph
  imports Prelude
begin

text \<open>
  The revision graph as an interface. A store of revisions knows for every revision the object
  it belongs to and its parents, keeps a set of heads per object, and grows by one revision at
  a time. The locale states what such a step does; the lemmas show that the heads are then
  always the frontier of the graph, that the graph has no cycles, and that every revision is
  below some head. The server's tables are an instance (theory \<open>Invariant\<close>).
\<close>

section \<open>Frontier and well-formed graphs\<close>

text \<open>\<open>node i\<close> is the object of revision \<open>i\<close>; an edge goes from a parent to its child.\<close>

definition frontier :: "('i \<Rightarrow> 'o option) \<Rightarrow> ('i \<times> 'i) set \<Rightarrow> 'o \<Rightarrow> 'i set" where
  "frontier node edges ob = {i. node i = Some ob \<and> (\<forall>c. (i, c) \<notin> edges)}"

definition ranked :: "('i \<times> 'i) set \<Rightarrow> bool" where
  "ranked edges \<longleftrightarrow> (\<exists>rank :: 'i \<Rightarrow> nat. \<forall>(p, c) \<in> edges. rank p < rank c)"

definition graph_ok :: "('i \<Rightarrow> 'o option) \<Rightarrow> ('i \<times> 'i) set \<Rightarrow> ('o \<Rightarrow> 'i set) \<Rightarrow> bool" where
  "graph_ok node edges heads \<longleftrightarrow>
     (\<forall>ob. heads ob = frontier node edges ob) \<and>
     (\<forall>(p, c) \<in> edges. node p \<noteq> None \<and> node c = node p) \<and>
     ranked edges"

lemma graph_okI:
  "(\<And>ob. heads ob = frontier node edges ob) \<Longrightarrow>
   (\<And>p c. (p, c) \<in> edges \<Longrightarrow> node p \<noteq> None \<and> node c = node p) \<Longrightarrow>
   ranked edges \<Longrightarrow> graph_ok node edges heads"
  by (auto simp: graph_ok_def)

lemma graph_ok_heads: "graph_ok node edges heads \<Longrightarrow> heads ob = frontier node edges ob"
  by (simp add: graph_ok_def)

lemma graph_ok_edge:
  "graph_ok node edges heads \<Longrightarrow> (p, c) \<in> edges \<Longrightarrow> node p \<noteq> None \<and> node c = node p"
  by (auto simp: graph_ok_def)

lemma graph_ok_empty: "graph_ok (\<lambda>_. None) {} (\<lambda>_. {})"
  by (auto simp: graph_ok_def frontier_def ranked_def)

subsection \<open>No cycles\<close>

lemma ranked_less: "(p, c) \<in> edges\<^sup>+ \<Longrightarrow> \<forall>(p, c) \<in> edges. rank p < rank c \<Longrightarrow> rank p < (rank c :: nat)"
  by (induction rule: trancl_induct) fastforce+

lemma ranked_acyclic: "ranked edges \<Longrightarrow> acyclic edges"
  unfolding ranked_def acyclic_def by (metis less_irrefl_nat ranked_less)

lemma ranked_wf: "ranked edges \<Longrightarrow> wf edges"
  unfolding ranked_def
proof (elim exE)
  fix rank :: "'a \<Rightarrow> nat"
  assume "\<forall>(p, c) \<in> edges. rank p < rank c"
  then have "edges \<subseteq> measure rank" by auto
  then show "wf edges" by (rule wf_subset[OF wf_measure])
qed

lemma ranked_insert:
  assumes "ranked edges" and "\<And>c. (i, c) \<notin> edges" and "i \<notin> P" and "finite P"
  shows "ranked (edges \<union> P \<times> {i})"
proof -
  from assms(1) obtain rank :: "'a \<Rightarrow> nat" where rank: "\<forall>(p, c) \<in> edges. rank p < rank c"
    unfolding ranked_def by blast
  let ?bound = "Suc (sum rank P + rank i)"
  have below: "rank p < ?bound" if "p \<in> P" for p
    using member_le_sum[OF that, of rank] assms(4) by simp
  have "\<forall>(p, c) \<in> edges \<union> P \<times> {i}. (rank(i := ?bound)) p < (rank(i := ?bound)) c"
  proof clarify
    fix p c
    assume "(p, c) \<in> edges \<union> P \<times> {i}"
    then show "(rank(i := ?bound)) p < (rank(i := ?bound)) c"
    proof
      assume e: "(p, c) \<in> edges"
      with assms(2) have "p \<noteq> i" by blast
      from e rank have "rank p < rank c" by auto
      with \<open>p \<noteq> i\<close> show ?thesis by (cases "c = i") auto
    next
      assume "(p, c) \<in> P \<times> {i}"
      with assms(3) below[of p] show ?thesis by auto
    qed
  qed
  then show ?thesis unfolding ranked_def by blast
qed

subsection \<open>Heads\<close>

text \<open>Two heads are never in the relation of ancestor and descendant.\<close>

lemma frontier_maximal: "h \<in> frontier node edges ob \<Longrightarrow> (h, c) \<notin> edges\<^sup>+"
  by (auto simp: frontier_def dest: tranclD)

text \<open>Every revision is an ancestor of some head of its object, or is one itself.\<close>

lemma below_some_head:
  assumes ok: "graph_ok node edges heads" and "finite edges" and "node i = Some ob"
  shows "\<exists>h \<in> heads ob. (i, h) \<in> edges\<^sup>*"
proof -
  have "wf (edges\<inverse>)"
    using ok assms(2) ranked_acyclic by (auto simp: graph_ok_def intro: finite_acyclic_wf_converse)
  then show ?thesis using assms(3)
  proof (induction i)
    case (less i)
    show ?case
    proof (cases "\<exists>c. (i, c) \<in> edges")
      case True
      then obtain c where c: "(i, c) \<in> edges" by blast
      with graph_ok_edge[OF ok c] less.prems have "node c = Some ob" by simp
      with less.IH c obtain h where "h \<in> heads ob" "(c, h) \<in> edges\<^sup>*" by auto
      with c show ?thesis by (meson converse_rtrancl_into_rtrancl)
    next
      case False
      with less.prems ok have "i \<in> heads ob" by (auto simp: graph_ok_def frontier_def)
      then show ?thesis by blast
    qed
  qed
qed

section \<open>The interface\<close>

locale revision_graph =
  fixes node :: "'s \<Rightarrow> 'i \<Rightarrow> 'o option"
    and edges :: "'s \<Rightarrow> ('i \<times> 'i) set"
    and heads :: "'s \<Rightarrow> 'o \<Rightarrow> 'i set"
    and add :: "'i \<Rightarrow> 'o \<Rightarrow> 'i set \<Rightarrow> 's \<Rightarrow> 's \<Rightarrow> bool"
  assumes add_fresh: "add i ob P s s' \<Longrightarrow> node s i = None"
    and add_parents: "add i ob P s s' \<Longrightarrow> finite P \<and> (\<forall>p \<in> P. node s p = Some ob)"
    and add_node: "add i ob P s s' \<Longrightarrow> node s' = (node s)(i \<mapsto> ob)"
    and add_edges: "add i ob P s s' \<Longrightarrow> edges s' = edges s \<union> P \<times> {i}"
    and add_heads: "add i ob P s s' \<Longrightarrow> heads s' = (heads s)(ob := insert i (heads s ob - P))"
begin

lemma add_graph_ok:
  assumes ok: "graph_ok (node s) (edges s) (heads s)" and add: "add i ob P s s'"
  shows "graph_ok (node s') (edges s') (heads s')"
proof (rule graph_okI)
  note facts = add_node[OF add] add_edges[OF add] add_heads[OF add]
  have fresh: "node s i = None" using add by (rule add_fresh)
  have P: "finite P" "\<And>p. p \<in> P \<Longrightarrow> node s p = Some ob" using add_parents[OF add] by auto
  have edge: "\<And>p c. (p, c) \<in> edges s \<Longrightarrow> node s p \<noteq> None \<and> node s c = node s p"
    by (rule graph_ok_edge[OF ok])
  have new: "i \<notin> P" "\<And>c. (i, c) \<notin> edges s" "\<And>p. (p, i) \<notin> edges s"
    using fresh P edge by fastforce+
  have "ranked (edges s)" using ok by (simp add: graph_ok_def)
  then show "ranked (edges s')"
    unfolding facts using new(2,1) P(1) by (rule ranked_insert)
  show "node s' p \<noteq> None \<and> node s' c = node s' p" if "(p, c) \<in> edges s'" for p c
  proof (cases "(p, c) \<in> edges s")
    case True
    then have "p \<noteq> i" "c \<noteq> i" using new by auto
    with edge[OF True] show ?thesis by (simp add: facts)
  next
    case False
    with that have "p \<in> P" "c = i" by (auto simp: facts)
    with P(2) new(1) show ?thesis by (auto simp: facts)
  qed
  show "heads s' ob' = frontier (node s') (edges s') ob'" for ob'
  proof (cases "ob' = ob")
    case True
    have "heads s' ob = insert i (frontier (node s) (edges s) ob - P)"
      using graph_ok_heads[OF ok] by (simp add: facts)
    also have "\<dots> = frontier (node s') (edges s') ob"
      using new fresh by (auto simp: facts frontier_def)
    finally show ?thesis using True by simp
  next
    case False
    have "heads s' ob' = frontier (node s) (edges s) ob'"
      using False graph_ok_heads[OF ok] by (simp add: facts)
    also have "\<dots> = frontier (node s') (edges s') ob'"
      using False fresh P(2) by (auto simp: facts frontier_def)
    finally show ?thesis .
  qed
qed

lemma add_keeps_nodes: "add i ob P s s' \<Longrightarrow> node s \<subseteq>\<^sub>m node s'"
  by (auto simp: map_le_def add_node dest: add_fresh)

end

end
