(* ===== verification/Invariant.thy ===== *)
theory Invariant
  imports Push Graph
begin

text \<open>
  The invariant of the server's tables: the constraints of the schema (keys, references,
  checks), the shape of the revision graph (the heads are the frontier, parents belong to the
  same object, no cycles), the positions of parents, and the transaction log (ids grow, every
  revision is recorded by exactly one transaction of its author). Every operation of the
  server keeps it, whichever calls to the database fail.
\<close>

section \<open>The revision graph of the tables\<close>

definition parent_edges :: "'v tables \<Rightarrow> (uuid \<times> uuid) set" where
  "parent_edges t = (\<lambda>r. (pr_parent_id r, pr_revision_id r)) ` set (revision_parents t)"

definition head_set :: "'v tables \<Rightarrow> uuid \<Rightarrow> uuid set" where
  "head_set t ob = {i. (ob, i) \<in> set (object_heads t)}"

text \<open>One accepted revision is stored: a step of the graph.\<close>

definition graph_step :: "uuid \<Rightarrow> uuid \<Rightarrow> uuid set \<Rightarrow> 'v tables \<Rightarrow> 'v tables \<Rightarrow> bool" where
  "graph_step i ob P t t' \<longleftrightarrow>
     (\<exists>E r. stored E r t t' \<and> i = revision_uuid (rev_id r) \<and> ob = object_uuid (rev_object_id r) \<and>
        P = parent_ids r \<and> (\<forall>p \<in> P. object_of t p = Some ob))"

lemma stored_object_of:
  assumes "stored E r t t'"
  shows "object_of t' = (object_of t)(revision_uuid (rev_id r) \<mapsto> object_uuid (rev_object_id r))"
proof
  fix i
  from assms obtain row where new: "revision_uuid (rev_id r) \<notin> known_ids t"
    and row: "row_id row = revision_uuid (rev_id r)" "row_object_id row = object_uuid (rev_object_id r)"
    and t': "revisions t' = revisions t @ [row]"
    by (auto simp: stored_def dest!: encode_row_fields)
  have "object_of t (revision_uuid (rev_id r)) = None"
    using new by (simp add: object_of_eq_None_iff)
  then show "object_of t' i = ((object_of t)(revision_uuid (rev_id r) \<mapsto> object_uuid (rev_object_id r))) i"
    by (auto simp: object_of_def t' row map_add_def split: option.split)
qed

lemma stored_edges:
  assumes "stored E r t t'"
  shows "parent_edges t' = parent_edges t \<union> parent_ids r \<times> {revision_uuid (rev_id r)}"
proof -
  have "(\<lambda>x. (pr_parent_id x, pr_revision_id x)) ` set (parent_rows r) =
      (\<lambda>i. (i, revision_uuid (rev_id r))) ` pr_parent_id ` set (parent_rows r)"
    unfolding image_image by (rule image_cong) auto
  also have "\<dots> = parent_ids r \<times> {revision_uuid (rev_id r)}"
    unfolding parent_rows_parents by auto
  finally have new: "(\<lambda>x. (pr_parent_id x, pr_revision_id x)) ` set (parent_rows r) =
      parent_ids r \<times> {revision_uuid (rev_id r)}" .
  from assms have "revision_parents t' = revision_parents t @ parent_rows r"
    by (auto simp: stored_def)
  then show ?thesis by (simp only: parent_edges_def set_append image_Un new)
qed

lemma set_heads_after:
  "set (heads_after r hs) =
     insert (object_uuid (rev_object_id r), revision_uuid (rev_id r))
       {(ob, i) \<in> set hs. \<not> (ob = object_uuid (rev_object_id r) \<and> i \<in> parent_ids r)}"
  by (auto simp: heads_after_def Let_def)

lemma stored_heads:
  assumes "stored E r t t'"
  shows "head_set t' = (head_set t)(object_uuid (rev_object_id r) :=
           insert (revision_uuid (rev_id r)) (head_set t (object_uuid (rev_object_id r)) - parent_ids r))"
proof -
  from assms have "object_heads t' = heads_after r (object_heads t)" by (auto simp: stored_def)
  then show ?thesis by (auto simp: head_set_def fun_eq_iff set_heads_after)
qed

interpretation server_graph: revision_graph object_of parent_edges head_set graph_step
proof
  fix i ob P and t t' :: "'v tables"
  assume "graph_step i ob P t t'"
  then obtain E r where st: "stored E r t t'" and eqs: "i = revision_uuid (rev_id r)"
    "ob = object_uuid (rev_object_id r)" "P = parent_ids r" and same: "\<forall>p \<in> P. object_of t p = Some ob"
    by (auto simp: graph_step_def)
  show "object_of t i = None" using st by (auto simp: stored_def eqs object_of_eq_None_iff)
  show "finite P \<and> (\<forall>p \<in> P. object_of t p = Some ob)" using same by (simp add: eqs(3))
  show "object_of t' = (object_of t)(i \<mapsto> ob)" using stored_object_of[OF st] by (simp add: eqs)
  show "parent_edges t' = parent_edges t \<union> P \<times> {i}" using stored_edges[OF st] by (simp add: eqs)
  show "head_set t' = (head_set t)(ob := insert i (head_set t ob - P))"
    using stored_heads[OF st] by (simp add: eqs)
qed

section \<open>The invariant\<close>

definition keys_ok :: "'v tables \<Rightarrow> bool" where
  "keys_ok t \<longleftrightarrow> distinct (map cl_id (clients t)) \<and> distinct (map row_id (revisions t)) \<and>
     distinct (map parent_key (revision_parents t)) \<and> distinct (transaction_revisions t) \<and>
     distinct (object_heads t) \<and> distinct (map fst (files t))"

definition refs_ok :: "'v tables \<Rightarrow> bool" where
  "refs_ok t \<longleftrightarrow>
     (\<forall>r \<in> set (revisions t). row_created_by r \<in> cl_id ` set (clients t)) \<and>
     (\<forall>x \<in> set (revision_parents t). pr_revision_id x \<in> known_ids t \<and> pr_parent_id x \<in> known_ids t) \<and>
     (\<forall>h \<in> set (object_heads t). snd h \<in> known_ids t) \<and>
     (\<forall>x \<in> set (transactions t). tx_client_id x \<in> cl_id ` set (clients t)) \<and>
     (\<forall>x \<in> set (transaction_revisions t). fst x \<in> tx_id ` set (transactions t) \<and> snd x \<in> known_ids t)"

definition checks_ok :: "'v tables \<Rightarrow> bool" where
  "checks_ok t \<longleftrightarrow> (\<forall>r \<in> set (revisions t). active_has_data r)"

definition positions_ok :: "'v tables \<Rightarrow> bool" where
  "positions_ok t \<longleftrightarrow>
     (\<forall>i. let xs = filter (\<lambda>x. pr_revision_id x = i) (revision_parents t)
          in map pr_position xs = map word_of_nat [0..<length xs])"

definition txns_ok :: "'v tables \<Rightarrow> bool" where
  "txns_ok t \<longleftrightarrow> 1 \<le> txn_sequence t \<and> txn_sequence t \<le> 2 ^ 63 \<and>
     sorted_wrt (<) (map tx_id (transactions t)) \<and>
     (\<forall>x \<in> set (transactions t). 1 \<le> tx_id x \<and> tx_id x < txn_sequence t)"

definition logged_ok :: "'v tables \<Rightarrow> bool" where
  "logged_ok t \<longleftrightarrow>
     (\<forall>r \<in> set (revisions t). \<exists>!n. (n, row_id r) \<in> set (transaction_revisions t)) \<and>
     (\<forall>r \<in> set (revisions t). \<forall>x \<in> set (transactions t).
        (tx_id x, row_id r) \<in> set (transaction_revisions t) \<longrightarrow> tx_client_id x = row_created_by r)"

definition db_inv :: "'v tables \<Rightarrow> bool" where
  "db_inv t \<longleftrightarrow> keys_ok t \<and> refs_ok t \<and> checks_ok t \<and> positions_ok t \<and> txns_ok t \<and> logged_ok t \<and>
     graph_ok (object_of t) (parent_edges t) (head_set t)"

lemmas db_inv_parts = keys_ok_def refs_ok_def checks_ok_def txns_ok_def logged_ok_def

lemma db_inv_empty: "db_inv (empty_tables :: 'v tables)"
proof -
  have "object_of (empty_tables :: 'v tables) = (\<lambda>_. None)"
    "parent_edges (empty_tables :: 'v tables) = {}" "head_set (empty_tables :: 'v tables) = (\<lambda>_. {})"
    by (auto simp: empty_tables_def object_of_def parent_edges_def head_set_def)
  then have "graph_ok (object_of (empty_tables :: 'v tables)) (parent_edges (empty_tables :: 'v tables))
      (head_set (empty_tables :: 'v tables))"
    by (simp add: graph_ok_empty)
  then show ?thesis
    by (simp add: db_inv_def db_inv_parts positions_ok_def empty_tables_def)
qed

section \<open>Pushing keeps the invariant\<close>

text \<open>The objects the validation sees are those of the tables as the batch is stored.\<close>

definition objects_agree :: "'v tables \<Rightarrow> (RevisionId \<rightharpoonup> ObjectId) \<Rightarrow> 'v tables \<Rightarrow> bool" where
  "objects_agree t objs t1 \<longleftrightarrow>
     (\<forall>p. parent_object t objs p = map_option ObjectId (object_of t1 (revision_uuid p)))"

lemma objects_agree_refl: "objects_agree t Map.empty t"
  by (simp add: objects_agree_def parent_object_def)

lemma objects_agree_step:
  assumes "objects_agree t objs t1" "stored E r t1 t2"
  shows "objects_agree t (objs(rev_id r \<mapsto> rev_object_id r)) t2"
  using assms(1) stored_object_of[OF assms(2)]
  by (auto simp: objects_agree_def parent_object_def)

lemma stored_graph_step:
  assumes "objects_agree t objs t1" "stored E r t1 t2" "verdict t client objs r = None"
  shows "graph_step (revision_uuid (rev_id r)) (object_uuid (rev_object_id r)) (parent_ids r) t1 t2"
proof -
  have "object_of t1 (revision_uuid p) = Some (object_uuid (rev_object_id r))" if "p \<in> set (rev_parents r)" for p
  proof -
    from assms(1,3) that have "map_option ObjectId (object_of t1 (revision_uuid p)) = Some (rev_object_id r)"
      by (simp add: objects_agree_def verdict_None_iff)
    then show ?thesis by (cases "rev_object_id r") auto
  qed
  with assms(2) show ?thesis unfolding graph_step_def by blast
qed

text \<open>The part of the invariant that holds also between the statements of a push\<close>

definition store_inv :: "'v tables \<Rightarrow> bool" where
  "store_inv t \<longleftrightarrow> keys_ok t \<and> refs_ok t \<and> checks_ok t \<and> positions_ok t \<and>
     graph_ok (object_of t) (parent_edges t) (head_set t)"

lemma distinct_heads_after: "distinct hs \<Longrightarrow> distinct (heads_after r hs)"
  by (auto simp: heads_after_def Let_def)

lemma stored_keys_ok:
  assumes "stored E r t t'" "keys_ok t" "refs_ok t"
  shows "keys_ok t'"
  using assms(1)
proof (rule storedE)
  fix row
  assume st: "row_id row = revision_uuid (rev_id r)" "revision_uuid (rev_id r) \<notin> known_ids t"
    "distinct (rev_parents r)" "revisions t' = revisions t @ [row]"
    "revision_parents t' = revision_parents t @ parent_rows r"
    "object_heads t' = heads_after r (object_heads t)" "clients t' = clients t"
    "transaction_revisions t' = transaction_revisions t" "files t' = files t"
  have new: "distinct (map parent_key (parent_rows r))"
    using st(3) by (auto simp: parent_rows_keys distinct_map inj_on_def)
  have "pr_revision_id x \<noteq> revision_uuid (rev_id r)" if "x \<in> set (revision_parents t)" for x
    using st(2) assms(3) that by (metis refs_ok_def)
  then have "set (map parent_key (revision_parents t)) \<inter> set (map parent_key (parent_rows r)) = {}"
    by (auto dest!: parent_rows_facts(2))
  with new st assms(2) show ?thesis
    by (simp add: keys_ok_def distinct_heads_after)
qed

lemma stored_refs_ok:
  assumes "stored E r t t'" "refs_ok t"
  shows "refs_ok t'"
  using assms(1)
proof (rule storedE)
  fix row
  assume st: "row_id row = revision_uuid (rev_id r)"
    "row_created_by row = client_uuid (rev_created_by r)"
    "client_uuid (rev_created_by r) \<in> cl_id ` set (clients t)"
    "parent_ids r \<subseteq> insert (revision_uuid (rev_id r)) (known_ids t)"
    "revisions t' = revisions t @ [row]" "revision_parents t' = revision_parents t @ parent_rows r"
    "object_heads t' = heads_after r (object_heads t)" "clients t' = clients t"
    "transactions t' = transactions t" "transaction_revisions t' = transaction_revisions t"
  have known: "known_ids t' = insert (revision_uuid (rev_id r)) (known_ids t)" by (simp add: st)
  have "pr_revision_id x \<in> known_ids t' \<and> pr_parent_id x \<in> known_ids t'" if "x \<in> set (parent_rows r)" for x
  proof -
    from that have "pr_parent_id x \<in> parent_ids r"
      unfolding parent_rows_parents[symmetric] by (rule imageI)
    with that st(4) show ?thesis unfolding known by auto
  qed
  moreover have "snd h \<in> known_ids t'" if "h \<in> set (object_heads t')" for h
    using that assms(2) unfolding known st(7) set_heads_after refs_ok_def by auto
  ultimately show ?thesis
    using assms(2) st unfolding refs_ok_def known by (auto simp: known)
qed

lemma stored_checks_ok: "stored E r t t' \<Longrightarrow> checks_ok t \<Longrightarrow> checks_ok t'"
  by (erule storedE) (auto simp: checks_ok_def)

lemma parent_rows_positions: "map pr_position (parent_rows r) = map word_of_nat [0..<length (parent_rows r)]"
proof -
  have "map pr_position (parent_rows r) = map (word_of_nat \<circ> fst) (enumerate 0 (rev_parents r))"
    by (simp add: parent_rows_def case_prod_unfold comp_def)
  also have "\<dots> = map word_of_nat [0..<length (rev_parents r)]"
    by (simp only: map_map[symmetric] map_fst_enumerate) simp
  finally show ?thesis by (simp add: parent_rows_def)
qed

lemma stored_positions_ok:
  assumes "stored E r t t'" "positions_ok t" "refs_ok t"
  shows "positions_ok t'"
proof -
  let ?new = "revision_uuid (rev_id r)"
  from assms(1) have t': "revision_parents t' = revision_parents t @ parent_rows r"
    and fresh: "?new \<notin> known_ids t" by (auto elim: storedE)
  have none: "filter (\<lambda>x. pr_revision_id x = ?new) (revision_parents t) = []"
    using fresh assms(3) unfolding filter_empty_conv refs_ok_def by metis
  have all: "filter (\<lambda>x. pr_revision_id x = ?new) (parent_rows r) = parent_rows r"
    by (simp add: filter_id_conv)
  have other: "filter (\<lambda>x. pr_revision_id x = i) (parent_rows r) = []" if "i \<noteq> ?new" for i
    using that by (auto simp: filter_empty_conv)
  show ?thesis
    unfolding positions_ok_def Let_def
  proof
    fix i
    show "map pr_position (filter (\<lambda>x. pr_revision_id x = i) (revision_parents t')) =
        map word_of_nat [0..<length (filter (\<lambda>x. pr_revision_id x = i) (revision_parents t'))]"
    proof (cases "i = ?new")
      case True
      then show ?thesis using parent_rows_positions[of r] by (simp add: t' none all)
    next
      case False
      then show ?thesis using assms(2) by (simp add: t' other positions_ok_def Let_def)
    qed
  qed
qed

lemma stored_store_inv:
  assumes "objects_agree t objs t1" "stored E r t1 t2" "verdict t client objs r = None" "store_inv t1"
  shows "store_inv t2"
  using assms server_graph.add_graph_ok[OF _ stored_graph_step[OF assms(1-3)]]
  by (auto simp: store_inv_def intro: stored_keys_ok stored_refs_ok stored_checks_ok stored_positions_ok)

lemma stored_all_store_inv:
  assumes "admissible t client objs rs" "stored_all E rs t1 t2" "objects_agree t objs t1" "store_inv t1"
  shows "store_inv t2"
  using assms
proof (induction rs arbitrary: objs t1)
  case (Cons r rs)
  then obtain t' where "stored E r t1 t'" "stored_all E rs t' t2" by auto
  with Cons show ?case
    using objects_agree_step stored_store_inv by fastforce
qed simp

text \<open>What storing a list of revisions appends, and what it leaves alone\<close>

lemma stored_all_rows:
  assumes "stored_all E rs t t'"
  shows "\<exists>rows. revisions t' = revisions t @ rows \<and>
    map row_id rows = map (\<lambda>r. revision_uuid (rev_id r)) rs \<and>
    map row_created_by rows = map (\<lambda>r. client_uuid (rev_created_by r)) rs \<and>
    clients t' = clients t \<and> transactions t' = transactions t \<and>
    transaction_revisions t' = transaction_revisions t \<and> files t' = files t \<and>
    txn_sequence t' = txn_sequence t"
  using assms
proof (induction rs arbitrary: t)
  case (Cons r rs)
  then obtain t1 where st: "stored E r t t1" and all: "stored_all E rs t1 t'" by auto
  from st obtain row where "revisions t1 = revisions t @ [row]" "row_id row = revision_uuid (rev_id r)"
    "row_created_by row = client_uuid (rev_created_by r)" "clients t1 = clients t"
    "transactions t1 = transactions t" "transaction_revisions t1 = transaction_revisions t"
    "files t1 = files t" "txn_sequence t1 = txn_sequence t" by (rule storedE)
  moreover from Cons.IH[OF all] obtain rows where "revisions t' = revisions t1 @ rows"
    "map row_id rows = map (\<lambda>r. revision_uuid (rev_id r)) rs"
    "map row_created_by rows = map (\<lambda>r. client_uuid (rev_created_by r)) rs"
    "clients t' = clients t1" "transactions t' = transactions t1"
    "transaction_revisions t' = transaction_revisions t1" "files t' = files t1"
    "txn_sequence t' = txn_sequence t1" by auto
  ultimately show ?case by (intro exI[of _ "row # rows"]) simp
qed simp

lemma admissible_author: "admissible t client objs rs \<Longrightarrow> r \<in> set rs \<Longrightarrow> rev_created_by r = client"
  by (induction rs arbitrary: objs) (auto simp: verdict_None_iff)

lemma store_inv_recorded:
  assumes "recorded client ids t t'" "store_inv t"
  shows "store_inv t'"
proof -
  from assms(1) obtain at where ids: "distinct ids" "client_uuid client \<in> cl_id ` set (clients t)"
      "\<forall>i \<in> set ids. revision_uuid i \<in> known_ids t"
      "\<forall>i \<in> set ids. (txn_sequence t, revision_uuid i) \<notin> set (transaction_revisions t)"
    and t': "t' = t\<lparr> txn_sequence := txn_sequence t + 1,
                transactions := transactions t @
                  [\<lparr>tx_id = txn_sequence t, tx_client_id = client_uuid client, tx_created_at = at\<rparr>],
                transaction_revisions := transaction_revisions t @
                  map (\<lambda>i. (txn_sequence t, revision_uuid i)) ids \<rparr>"
    unfolding recorded_def by blast
  have same: "object_of t' = object_of t" "parent_edges t' = parent_edges t" "head_set t' = head_set t"
    by (simp_all add: t' object_of_def parent_edges_def head_set_def fun_eq_iff)
  have "keys_ok t'"
    using assms(2) ids by (auto simp: store_inv_def keys_ok_def t' distinct_map inj_on_def)
  moreover have "refs_ok t'"
    using assms(2) ids by (auto simp: store_inv_def refs_ok_def t')
  moreover have "checks_ok t'" "positions_ok t'"
    using assms(2) by (simp_all add: store_inv_def checks_ok_def positions_ok_def t')
  ultimately show ?thesis
    using assms(2) unfolding store_inv_def same by blast
qed

lemma txns_ok_recorded:
  assumes "recorded client ids t t'" "txns_ok t"
  shows "txns_ok t'"
  using assms by (fastforce simp: recorded_def txns_ok_def sorted_wrt_append)

lemma logged_ok_pushed:
  assumes A: "stored_all E rs t t1" "\<And>r. r \<in> set rs \<Longrightarrow> rev_created_by r = client"
    and rec: "recorded client (map rev_id rs) t1 t'"
    and t: "logged_ok t" "refs_ok t" "txn_sequence t \<notin> tx_id ` set (transactions t)"
  shows "logged_ok t'"
proof -
  let ?new = "revision_uuid ` rev_id ` set rs" and ?n = "txn_sequence t"
  from stored_all_rows[OF A(1)] obtain rows where rows: "revisions t1 = revisions t @ rows"
    "map row_id rows = map (\<lambda>r. revision_uuid (rev_id r)) rs"
    "map row_created_by rows = map (\<lambda>r. client_uuid (rev_created_by r)) rs"
    "transactions t1 = transactions t" "transaction_revisions t1 = transaction_revisions t"
    "txn_sequence t1 = ?n" by blast
  from rec obtain at where
    txs: "transactions t' = transactions t @ [\<lparr>tx_id = ?n, tx_client_id = client_uuid client, tx_created_at = at\<rparr>]"
    and trs: "set (transaction_revisions t') = set (transaction_revisions t) \<union> {?n} \<times> ?new"
    and revs: "revisions t' = revisions t @ rows"
  proof -
    have "(\<lambda>x. (?n, revision_uuid (rev_id x))) ` set rs = {?n} \<times> ?new" by auto
    with rec that show thesis by (auto simp: recorded_def rows)
  qed
  have fresh: "?new \<inter> known_ids t = {}" using stored_all_fresh[OF A(1)] by blast
  have "set (map row_id rows) = ?new" unfolding rows(2) by auto
  then have new: "row_id ` set rows = ?new" by simp
  have "set (map row_created_by rows) \<subseteq> {client_uuid client}" unfolding rows(3) using A(2) by auto
  then have author: "row_created_by r = client_uuid client" if "r \<in> set rows" for r
    using that by auto
  have old_pair: "i \<in> known_ids t \<and> n \<noteq> ?n" if "(n, i) \<in> set (transaction_revisions t)" for n i
    using that t(2,3) by (fastforce simp: refs_ok_def)
  have old_tx: "tx_id x \<noteq> ?n" if "x \<in> set (transactions t)" for x
    using that t(3) by (metis imageI)
  have "\<exists>!n. (n, row_id r) \<in> set (transaction_revisions t')" if "r \<in> set (revisions t')" for r
  proof (cases "r \<in> set (revisions t)")
    case True
    with fresh have "row_id r \<notin> ?new" by auto
    with True t(1) show ?thesis by (simp add: trs logged_ok_def)
  next
    case False
    with that revs have "row_id r \<in> ?new" using new by auto
    moreover from this fresh old_pair have "(n, row_id r) \<notin> set (transaction_revisions t)" for n by blast
    ultimately show ?thesis by (simp add: trs)
  qed
  moreover have "tx_client_id x = row_created_by r"
    if "r \<in> set (revisions t')" "x \<in> set (transactions t')"
      "(tx_id x, row_id r) \<in> set (transaction_revisions t')" for r x
  proof (cases "(tx_id x, row_id r) \<in> set (transaction_revisions t)")
    case True
    from old_pair[OF this] have "row_id r \<in> known_ids t" "tx_id x \<noteq> ?n" by auto
    with that fresh new revs txs have "r \<in> set (revisions t)" "x \<in> set (transactions t)" by fastforce+
    with True t(1) show ?thesis by (auto simp: logged_ok_def)
  next
    case False
    with that(3) have "tx_id x = ?n" "row_id r \<in> ?new" by (auto simp: trs)
    with that fresh revs txs old_tx have "r \<in> set rows" "tx_client_id x = client_uuid client" by fastforce+
    with author show ?thesis by simp
  qed
  ultimately show ?thesis by (simp add: logged_ok_def)
qed

lemma db_inv_store_inv: "db_inv t \<longleftrightarrow> store_inv t \<and> txns_ok t \<and> logged_ok t"
  by (auto simp: db_inv_def store_inv_def)

lemma pushed_db_inv:
  assumes "pushed E client revs t t'" "db_inv t"
  shows "db_inv t'"
proof (cases "accepted_revs t client Map.empty revs = []")
  case True
  with assms show ?thesis by (simp add: pushed_def)
next
  case False
  let ?A = "accepted_revs t client Map.empty revs"
  from False assms(1) obtain t1 where all: "stored_all E ?A t t1"
    and rec: "recorded client (map rev_id ?A) t1 t'"
    by (auto simp: pushed_def Let_def)
  have adm: "admissible t client Map.empty ?A" by (rule accepted_revs_admissible)
  from assms(2) have t: "store_inv t" "txns_ok t" "logged_ok t" "refs_ok t"
    by (auto simp: db_inv_store_inv store_inv_def)
  have "store_inv t1" by (rule stored_all_store_inv[OF adm all objects_agree_refl t(1)])
  moreover have "txns_ok t1" using stored_all_rows[OF all] t(2) by (auto simp: txns_ok_def)
  ultimately have "store_inv t'" "txns_ok t'"
    by (auto intro: store_inv_recorded[OF rec] txns_ok_recorded[OF rec])
  moreover have "txn_sequence t \<notin> tx_id ` set (transactions t)" using t(2) by (auto simp: txns_ok_def)
  then have "logged_ok t'"
    using admissible_author[OF adm] by (intro logged_ok_pushed[OF all _ rec t(3,4)])
  ultimately show ?thesis by (simp add: db_inv_store_inv)
qed

section \<open>The sequence\<close>

text \<open>Values are taken from the sequence one after the other, up to its limit.\<close>

definition seq_grows :: "'v pool \<Rightarrow> 'v pool \<Rightarrow> bool" where
  "seq_grows p p' \<longleftrightarrow> txn_sequence (tables p) \<le> txn_sequence (tables p') \<and>
     (txn_sequence (tables p) \<le> 2 ^ 63 \<longrightarrow> txn_sequence (tables p') \<le> 2 ^ 63)"

lemma reflp_seq_grows [simp, intro]: "reflp seq_grows"
  by (simp add: reflp_def seq_grows_def)

lemma transp_seq_grows [simp, intro]: "transp seq_grows"
  by (auto simp: transp_def seq_grows_def)

lemma same_tables_seq_grows: "always same_tables m \<Longrightarrow> always seq_grows m"
  by (simp add: always_def seq_grows_def)

lemma sql_seq_grows:
  assumes "\<And>t. txn_sequence t \<le> txn_sequence (snd (stmt t)) \<and>
    (txn_sequence t \<le> 2 ^ 63 \<longrightarrow> txn_sequence (snd (stmt t)) \<le> 2 ^ 63)"
  shows "always seq_grows (sql E stmt)"
  using assms by (auto simp: always_def seq_grows_def sql_def Let_def split: prod.split) (metis snd_conv)+

lemma always_in_tx_seq_grows [always_intros]:
  fixes body :: "('v pool, sqlx_error, 'a) fallible"
  shows "always seq_grows body \<Longrightarrow> always seq_grows (in_tx E body)"
  unfolding always_def
proof
  fix p :: "'v pool"
  assume body: "\<forall>p. seq_grows p (snd (body p))"
  let ?p1 = "p\<lparr>calls := Suc (calls p)\<rparr>"
  have "seq_grows p (snd (body ?p1))"
    using body[rule_format, of ?p1] by (simp add: seq_grows_def)
  then show "seq_grows p (snd (in_tx E body p))"
    by (cases "body ?p1") (auto simp: in_tx_def sql_def ok_def Let_def rollback_def seq_grows_def split: sum.split)
qed

lemma store_batch_seq_grows:
  fixes E :: "'v env"
  shows "always seq_grows (store_batch E client rs ids)"
proof -
  have ins: "always seq_grows (create_transaction E client ids)"
    unfolding always_def create_transaction_def
  proof
    fix p :: "'v pool"
    let ?m = "and_then (sql E (insert_transaction_row (client_uuid client)
                 (pg_timestamptz E (utc_now E (calls p)))))
       (\<lambda>txn_id. and_then
          (for_each (\<lambda>i. sql E (insert_transaction_revision txn_id (revision_uuid i))) ids)
          (\<lambda>_. ok (TransactionId (word_of_int txn_id))))"
    have "always seq_grows ?m"
      by (intro always_intros sql_seq_grows)
        (auto simp: insert_transaction_row_def insert_transaction_revision_def Let_def split: option.split)
    then show "seq_grows p (snd (?m p))" by (simp add: always_def)
  qed
  show ?thesis
    unfolding store_batch_def store_revision_def insert_revision_def update_heads_def
    by (auto intro!: always_intros ins sql_seq_grows
        simp: insert_revision_row_def insert_parent_row_def delete_heads_def insert_head_def split: option.split)
qed

lemma store_accepted_seq_grows: "always seq_grows (store_accepted E client revs acc)"
  unfolding store_accepted_def Let_def by (auto intro!: always_intros store_batch_seq_grows)

lemma push_seq_grows: "always seq_grows (push_revisions E client revs)"
  unfolding push_revisions_def
  by (intro always_intros same_tables_seq_grows[OF validate_batch_same_tables] store_accepted_seq_grows) auto

section \<open>Every operation keeps the invariant\<close>

definition keeps_inv :: "'v pool \<Rightarrow> 'v pool \<Rightarrow> bool" where
  "keeps_inv p p' \<longleftrightarrow> (db_inv (tables p) \<longrightarrow> db_inv (tables p'))"

lemma reflp_keeps_inv [simp, intro]: "reflp keeps_inv"
  by (simp add: reflp_def keeps_inv_def)

lemma transp_keeps_inv [simp, intro]: "transp keeps_inv"
  by (simp add: transp_def keeps_inv_def)

lemma same_tables_keeps_inv: "always same_tables m \<Longrightarrow> always keeps_inv m"
  by (simp add: always_def keeps_inv_def)

lemma db_inv_sequence:
  assumes "db_inv t" "txn_sequence t \<le> n" "n \<le> 2 ^ 63"
  shows "db_inv (t\<lparr>txn_sequence := n\<rparr>)"
proof -
  have "object_of (t\<lparr>txn_sequence := n\<rparr>) = object_of t" "parent_edges (t\<lparr>txn_sequence := n\<rparr>) = parent_edges t"
    "head_set (t\<lparr>txn_sequence := n\<rparr>) = head_set t"
    by (simp_all add: object_of_def parent_edges_def head_set_def fun_eq_iff)
  with assms show ?thesis
    by (auto simp: db_inv_def db_inv_parts positions_ok_def)
qed

lemma db_inv_seq_grows:
  assumes "db_inv (tables p)" "seq_grows p p'" "tables p' = (tables p)\<lparr>txn_sequence := n\<rparr>"
  shows "db_inv (tables p')"
proof -
  from assms have "txn_sequence (tables p) \<le> n \<and> n \<le> 2 ^ 63"
    by (simp add: seq_grows_def db_inv_def txns_ok_def)
  then show ?thesis unfolding assms(3) using db_inv_sequence[OF assms(1)] by blast
qed

lemma push_keeps_inv [always_intros]: "always keeps_inv (push_revisions E client revs)"
proof (rule alwaysI)
  fix p r p'
  assume run: "push_revisions E client revs p = (r, p')"
  show "keeps_inv p p'"
    unfolding keeps_inv_def
  proof
    assume inv: "db_inv (tables p)"
    show "db_inv (tables p')"
    proof (cases r)
      case (Inr resp)
      with run push_revisions_Inr pushed_db_inv[OF _ inv] show ?thesis by blast
    next
      case (Inl e)
      with run have "push_revisions E client revs p = (Inl e, p')" by simp
      from push_revisions_Inl[OF this] consider n where "tables p' = (tables p)\<lparr>txn_sequence := n\<rparr>"
        | "pushed E client revs (tables p) (tables p')" by blast
      then show ?thesis
      proof cases
        case 1
        then show ?thesis by (rule db_inv_seq_grows[OF inv alwaysD[OF push_seq_grows run]])
      next
        case 2
        then show ?thesis using inv by (rule pushed_db_inv)
      qed
    qed
  qed
qed

lemma push_db_inv: "db_inv (tables p) \<Longrightarrow> db_inv (tables (snd (push_revisions E client revs p)))"
  using push_keeps_inv[of E client revs] by (simp add: always_def keeps_inv_def)

lemma sql_keeps_inv:
  assumes "\<And>t. db_inv t \<Longrightarrow> db_inv (snd (stmt t))"
  shows "always keeps_inv (sql E stmt)"
  using assms by (auto simp: always_def keeps_inv_def sql_def Let_def split: prod.split) (metis snd_conv)+

lemma autocommit_keeps_inv:
  assumes "\<And>t. db_inv t \<Longrightarrow> db_inv (snd (stmt t))"
  shows "always keeps_inv (autocommit E stmt)"
  using assms by (intro always_autocommit) (simp_all add: keeps_inv_def)

lemma graph_of_clients_files [simp]:
  "object_of (t\<lparr>clients := cs\<rparr>) = object_of t" "parent_edges (t\<lparr>clients := cs\<rparr>) = parent_edges t"
  "head_set (t\<lparr>clients := cs\<rparr>) = head_set t"
  "object_of (t\<lparr>files := fs\<rparr>) = object_of t" "parent_edges (t\<lparr>files := fs\<rparr>) = parent_edges t"
  "head_set (t\<lparr>files := fs\<rparr>) = head_set t"
  by (simp_all add: object_of_def parent_edges_def head_set_def fun_eq_iff)

lemma db_inv_files:
  assumes "db_inv t" "distinct (map fst fs)"
  shows "db_inv (t\<lparr>files := fs\<rparr>)"
  using assms by (auto simp: db_inv_def db_inv_parts positions_ok_def)

lemma db_inv_clients:
  assumes "db_inv t" "distinct (map cl_id cs)" "cl_id ` set (clients t) \<subseteq> cl_id ` set cs"
  shows "db_inv (t\<lparr>clients := cs\<rparr>)"
  using assms by (auto simp: db_inv_def db_inv_parts positions_ok_def)

lemma upsert_client_row_db_inv:
  assumes "db_inv t"
  shows "db_inv (snd (upsert_client_row c v at t))"
proof -
  let ?f = "\<lambda>x. if cl_id x = c \<and> cl_user_id x \<noteq> v then x\<lparr>cl_user_id := v\<rparr> else x"
  have id: "map cl_id (map ?f (clients t)) = map cl_id (clients t)" by simp
  have same: "cl_id ` set (map ?f (clients t)) = cl_id ` set (clients t)"
    unfolding list.set_map[symmetric] id ..
  have keys: "distinct (map cl_id (clients t))" using assms by (simp add: db_inv_def keys_ok_def)
  have "db_inv (t\<lparr>clients := map ?f (clients t)\<rparr>)"
    using assms keys unfolding id[symmetric] by (rule db_inv_clients) (simp only: same order_refl)
  moreover have "db_inv (t\<lparr>clients := clients t @ [x]\<rparr>)" if "cl_id x \<notin> cl_id ` set (clients t)" for x
    using assms keys that by (intro db_inv_clients) auto
  ultimately show ?thesis
    using assms by (auto simp: upsert_client_row_def split: option.split)
qed

lemma upsert_client_keeps_inv [always_intros]: "always keeps_inv (upsert_client E i u)"
  using autocommit_keeps_inv[of "upsert_client_row c v at" for c v at, OF upsert_client_row_db_inv]
  unfolding always_def upsert_client_def by blast

lemma file_ops_keep_inv [always_intros]:
  "always keeps_inv (upsert_file E i d)" "always keeps_inv (delete_file E i)"
proof -
  have keys: "db_inv t \<Longrightarrow> distinct (map fst (files t))" for t :: "'a tables"
    by (simp add: db_inv_def keys_ok_def)
  have same: "map fst (map (\<lambda>(j, x). if j = i then (j, d) else (j, x)) fs) = map fst fs" for fs
    by (induction fs) auto
  have "db_inv (t\<lparr>files := if i \<in> set (map fst (files t))
        then map (\<lambda>(j, x). if j = i then (j, d) else (j, x)) (files t)
        else files t @ [(i, d)]\<rparr>)" if "db_inv t" for t :: "'a tables"
    using that by (rule db_inv_files) (use keys[OF that] same[of "files t"] in \<open>simp del: map_map\<close>)
  then show "always keeps_inv (upsert_file E i d)"
    unfolding upsert_file_def by (intro autocommit_keeps_inv) simp
  have "db_inv (t\<lparr>files := filter (\<lambda>(j, x). j \<noteq> i) (files t)\<rparr>)" if "db_inv t" for t :: "'a tables"
    using that by (rule db_inv_files) (rule distinct_map_filter[OF keys[OF that]])
  then show "always keeps_inv (delete_file E i)"
    unfolding delete_file_def by (intro autocommit_keeps_inv) simp
qed

end
