(* ===== verification/Pull.thy ===== *)
theory Pull
  imports Filters Invariant
begin

text \<open>
  \<^verbatim>\<open>db/pull.rs\<close>: the objects that changed in a window of transactions, with all their heads,
  restricted by the filters of the request. The maps the code builds with \<^verbatim>\<open>HashMap\<close> are maps;
  the map of rows shrinks as the heads are taken out of it. The payload is JSON, since the
  filters look inside it.
\<close>

section \<open>Queries\<close>

text \<open>
  \<^verbatim>\<open>SELECT DISTINCT r.object_id\<close> over the join of revisions, transaction entries and
  transactions
\<close>

definition changed_objects ::
  "'v tables \<Rightarrow> int \<Rightarrow> int \<Rightarrow> uuid \<Rightarrow> uuid list" where
  "changed_objects t since_id up_to_id client =
     remdups [row_object_id r. r \<leftarrow> revisions t, tr \<leftarrow> transaction_revisions t, x \<leftarrow> transactions t,
              snd tr = row_id r \<and> tx_id x = fst tr \<and>
              tx_id x > since_id \<and> tx_id x \<le> up_to_id \<and> row_created_by r \<noteq> client]"

definition select_changed_objects ::
  "'v env \<Rightarrow> int \<Rightarrow> int \<Rightarrow> uuid \<Rightarrow> ('v pool, sqlx_error, uuid list) fallible" where
  "select_changed_objects E since_id up_to_id client =
     query E (\<lambda>t. plan_changed E (changed_objects t since_id up_to_id client))"

definition select_heads ::
  "'v env \<Rightarrow> uuid list \<Rightarrow> ('v pool, sqlx_error, (uuid \<times> uuid) list) fallible" where
  "select_heads E objects =
     query E (\<lambda>t. plan_head_rows E (filter (\<lambda>(ob, i). ob \<in> set objects) (object_heads t)))"

section \<open>The loops over objects and heads\<close>

text \<open>The criteria of a request on one head\<close>

definition head_passes ::
  "('n, 'f) numbers \<Rightarrow> string list option \<Rightarrow> CreatedAtFilter list option \<Rightarrow>
     'n Value FilterCondition list list option \<Rightarrow> 'n Value RevisionRow \<Rightarrow> bool" where
  "head_passes N types created content row \<longleftrightarrow>
     (case types of Some ts \<Rightarrow> row_object_type row \<in> set ts | None \<Rightarrow> True) \<and>
     (case created of Some filters \<Rightarrow> apply_created_at_filters (row_created_at row) filters | None \<Rightarrow> True) \<and>
     (case (row_data row, content) of
        (Some data, Some f) \<Rightarrow> apply_content_filter N data f
      | (None, Some _) \<Rightarrow> True
      | _ \<Rightarrow> True)"

text \<open>
  The inner loop: the rows still in the map, the revisions collected, and whether some head
  passed.
\<close>

fun collect_heads ::
  "(uuid \<rightharpoonup> uuid list) \<Rightarrow> ('n Value RevisionRow \<Rightarrow> bool) \<Rightarrow> uuid list \<Rightarrow>
     (uuid \<rightharpoonup> 'n Value RevisionRow) \<times> 'n Value Revision list \<times> bool \<Rightarrow>
     (uuid \<rightharpoonup> 'n Value RevisionRow) \<times> 'n Value Revision list \<times> bool" where
  "collect_heads parents_map passes [] st = st"
| "collect_heads parents_map passes (head_id # ids) (rows_by_id, head_revisions, passes_filter) =
     (case rows_by_id head_id of
        None \<Rightarrow> collect_heads parents_map passes ids (rows_by_id, head_revisions, passes_filter)
      | Some row \<Rightarrow>
          collect_heads parents_map passes ids
            (rows_by_id(head_id := None),
             head_revisions @ [row_to_revision_sync Null row (get_or_default parents_map (row_id row))],
             passes_filter \<or> passes row))"

definition object_update :: "uuid \<Rightarrow> 'v Revision list \<Rightarrow> 'v ObjectUpdate" where
  "object_update object_id head_revisions =
     \<lparr> upd_object_id = ObjectId object_id,
       upd_action = (if length head_revisions = 1 then Replace else Conflict),
       upd_heads = head_revisions \<rparr>"

fun build_updates ::
  "(uuid \<rightharpoonup> uuid list) \<Rightarrow> (uuid \<rightharpoonup> uuid list) \<Rightarrow> ('n Value RevisionRow \<Rightarrow> bool) \<Rightarrow>
     uuid list \<Rightarrow> (uuid \<rightharpoonup> 'n Value RevisionRow) \<Rightarrow> 'n Value ObjectUpdate list \<Rightarrow>
     'n Value ObjectUpdate list" where
  "build_updates heads_by_object parents_map passes [] rows_by_id updates = updates"
| "build_updates heads_by_object parents_map passes (object_id # objects) rows_by_id updates =
     (case heads_by_object object_id of
        None \<Rightarrow> build_updates heads_by_object parents_map passes objects rows_by_id updates
      | Some head_ids \<Rightarrow>
          (case collect_heads parents_map passes head_ids (rows_by_id, [], False) of
             (rows_by_id', head_revisions, passes_filter) \<Rightarrow>
               if \<not> passes_filter \<or> head_revisions = []
               then build_updates heads_by_object parents_map passes objects rows_by_id' updates
               else build_updates heads_by_object parents_map passes objects rows_by_id'
                      (updates @ [object_update object_id head_revisions])))"

text \<open>The heads of the changed objects, their rows and parents, and the updates built from them\<close>

definition assemble_updates ::
  "'n Value env \<Rightarrow> ('n Value RevisionRow \<Rightarrow> bool) \<Rightarrow> uuid list \<Rightarrow>
     ('n Value pool, sqlx_error, 'n Value ObjectUpdate list) fallible" where
  "assemble_updates E passes changed =
     and_then (select_heads E changed)
       (\<lambda>head_rows. and_then (get_revision_rows_by_ids E (map snd head_rows))
          (\<lambda>revision_rows. and_then (get_parents_batch E (map snd head_rows))
             (\<lambda>parents_map.
                ok (build_updates (group_rows head_rows Map.empty) parents_map passes changed
                      (map_of (map (\<lambda>r. (row_id r, r)) (rev revision_rows))) []))))"

definition fetch_object_updates ::
  "'n Value env \<Rightarrow> ('n, 'f) numbers \<Rightarrow> ClientId \<Rightarrow> TransactionId option \<Rightarrow> TransactionId \<Rightarrow>
     string list option \<Rightarrow> CreatedAtFilter list option \<Rightarrow> 'n Value FilterCondition list list option \<Rightarrow>
     ('n Value pool, sqlx_error, 'n Value ObjectUpdate list) fallible" where
  "fetch_object_updates E N client_id since up_to types created content =
     (if uint (transaction_u64 up_to) > i64_max
      then err (Protocol ''up_to transaction ID out of range'')
      else and_then
        (select_changed_objects E (case since of Some t \<Rightarrow> sint (transaction_u64 t) | None \<Rightarrow> 0)
           (uint (transaction_u64 up_to)) (client_uuid client_id))
        (\<lambda>changed. if changed = [] then ok []
                   else assemble_updates E (head_passes N types created content) changed))"

section \<open>Pull as a function of the tables\<close>

text \<open>The parents of a revision in the order they were given, and a stored revision decoded.\<close>

definition parents_of :: "'v tables \<Rightarrow> uuid \<Rightarrow> uuid list" where
  "parents_of t i = map pr_parent_id (filter (\<lambda>x. pr_revision_id x = i) (revision_parents t))"

definition decoded :: "'n Value tables \<Rightarrow> 'n Value RevisionRow \<Rightarrow> 'n Value Revision" where
  "decoded t row = row_to_revision_sync Null row (parents_of t (row_id row))"

text \<open>No revision has more parents than a non-negative \<^verbatim>\<open>i16\<close> can count.\<close>

definition parents_fit :: "'v tables \<Rightarrow> bool" where
  "parents_fit t \<longleftrightarrow> (\<forall>i. length (parents_of t i) \<le> 2 ^ 15)"

lemma sort_key_eqI:
  fixes k :: "'a \<Rightarrow> 'b :: linorder"
  assumes "mset ys = mset xs" "sorted (map k xs)" "distinct (map k xs)"
  shows "sort_key k ys = xs"
proof (rule properties_for_sort_key)
  show "mset xs = mset ys" using assms(1) by simp
  show "sorted (map k xs)" by (rule assms(2))
  fix a
  assume a: "a \<in> set xs"
  have "mset (map k ys) = mset (map k xs)" using assms(1) by simp
  with assms(3) have "distinct (map k ys)" using mset_eq_imp_distinct_iff by blast
  moreover have "a \<in> set ys" using a mset_eq_setD[OF assms(1)] by simp
  ultimately have "filter (\<lambda>x. k x = k a) ys = [a]" by (rule filter_unique_key)
  moreover have "filter (\<lambda>x. k x = k a) xs = [a]" using assms(3) a by (rule filter_unique_key)
  ultimately have "filter (\<lambda>x. k x = k a) xs = filter (\<lambda>x. k x = k a) ys" by (simp only:)
  then show "filter (\<lambda>x. k a = k x) xs = filter (\<lambda>x. k a = k x) ys" by (simp only: eq_commute[of "k a"])
qed

lemma sint_word_of_nat_16: "n < 2 ^ 15 \<Longrightarrow> sint (word_of_nat n :: 16 word) = int n"
  by transfer (simp add: signed_take_bit_int_eq_self)

subsection \<open>Parents come back in order\<close>

lemma parents_of_length: "length (parents_of t i) = length (filter (\<lambda>x. pr_revision_id x = i) (revision_parents t))"
  by (simp add: parents_of_def)

lemma positions_increase:
  assumes "positions_ok t" "parents_fit t"
  shows "map (\<lambda>x. sint (pr_position x)) (filter (\<lambda>x. pr_revision_id x = i) (revision_parents t)) =
    map int [0..<length (parents_of t i)]"
proof -
  let ?xs = "filter (\<lambda>x. pr_revision_id x = i) (revision_parents t)"
  have "map (\<lambda>x. sint (pr_position x)) ?xs = map sint (map pr_position ?xs)" by simp
  also have "\<dots> = map sint (map (word_of_nat :: nat \<Rightarrow> 16 word) [0..<length ?xs])"
    using assms(1) by (simp only: positions_ok_def Let_def)
  also have "\<dots> = map int [0..<length ?xs]"
    using assms(2) unfolding map_map
    by (intro map_cong refl)
      (auto simp: parents_fit_def parents_of_length intro!: sint_word_of_nat_16 intro: less_le_trans)
  finally show ?thesis by (simp add: parents_of_length)
qed

lemma sorted_distinct_ints: "sorted (map int [0..<n])" "distinct (map int [0..<n])"
  by (simp_all add: sorted_map distinct_map sorted_wrt_iff_nth_less)

lemma sort_parents:
  assumes "positions_ok t" "parents_fit t"
    and "mset ys = mset (filter (\<lambda>x. pr_revision_id x = i) (revision_parents t))"
  shows "sort_key (\<lambda>x. sint (pr_position x)) ys = filter (\<lambda>x. pr_revision_id x = i) (revision_parents t)"
  by (rule sort_key_eqI[OF assms(3)])
    (simp_all only: positions_increase[OF assms(1,2)] sorted_distinct_ints)

lemma sort_parents_batch:
  assumes "positions_ok t" "parents_fit t"
    and "mset ys = mset (filter (\<lambda>x. pr_revision_id x = i) (revision_parents t))"
  shows "sort_key (\<lambda>x. (pr_revision_id x, sint (pr_position x))) ys =
    filter (\<lambda>x. pr_revision_id x = i) (revision_parents t)"
proof (rule sort_key_eqI[OF assms(3)])
  let ?xs = "filter (\<lambda>x. pr_revision_id x = i) (revision_parents t)"
  have "map (\<lambda>x. (pr_revision_id x, sint (pr_position x))) ?xs =
      map (Pair i) (map (\<lambda>x. sint (pr_position x)) ?xs)"
    by simp
  also have "\<dots> = map (Pair i) (map int [0..<length (parents_of t i)])"
    by (simp only: positions_increase[OF assms(1,2)])
  finally have eq: "map (\<lambda>x. (pr_revision_id x, sint (pr_position x))) ?xs =
      map (Pair i) (map int [0..<length (parents_of t i)])" .
  show "sorted (map (\<lambda>x. (pr_revision_id x, sint (pr_position x))) ?xs)"
    unfolding eq by (simp add: sorted_map sorted_wrt_iff_nth_less)
  show "distinct (map (\<lambda>x. (pr_revision_id x, sint (pr_position x))) ?xs)"
    unfolding eq by (simp add: distinct_map inj_on_def)
qed

lemma get_parents_reads:
  assumes "plans_permute E"
  shows "get_parents E i p = (Inr ps, p') \<Longrightarrow> positions_ok (tables p) \<Longrightarrow> parents_fit (tables p) \<Longrightarrow>
    ps = parents_of (tables p) i"
  using assms by (auto simp: get_parents_def query_Inr_iff plans_permute_def parents_of_def sort_parents)

definition parents_found :: "'v env \<Rightarrow> uuid list \<Rightarrow> 'v tables \<Rightarrow> uuid \<rightharpoonup> uuid list" where
  "parents_found E ids t =
     (if ids = [] then Map.empty
      else group_rows (map (\<lambda>r. (pr_revision_id r, pr_parent_id r))
           (sort_key (\<lambda>r. (pr_revision_id r, sint (pr_position r)))
             (plan_parents E (filter (\<lambda>r. pr_revision_id r \<in> set ids) (revision_parents t))))) Map.empty)"

lemma get_parents_batch_reads: "reads (get_parents_batch E ids) (parents_found E ids)"
proof (cases "ids = []")
  case True
  then show ?thesis by (simp add: get_parents_batch_def reads_def parents_found_def)
next
  case False
  let ?rows = "\<lambda>t. map (\<lambda>r. (pr_revision_id r, pr_parent_id r))
           (sort_key (\<lambda>r. (pr_revision_id r, sint (pr_position r)))
             (plan_parents E (filter (\<lambda>r. pr_revision_id r \<in> set ids) (revision_parents t))))"
  have "reads (and_then (query E ?rows) (\<lambda>rows. ok (group_rows rows Map.empty)))
      (\<lambda>t. group_rows (?rows t) Map.empty)"
    by (rule reads_and_then[OF reads_query reads_ok])
  then show ?thesis
    unfolding get_parents_batch_def using False by (auto simp: parents_found_def intro: reads_cong)
qed

lemma get_parents_batch_never_fails: "fault_free E \<Longrightarrow> never_fails (get_parents_batch E ids)"
  by (auto simp: get_parents_batch_def intro!: never_fails_intros)

lemma parents_found_eq:
  assumes "plans_permute E" "positions_ok t" "parents_fit t" "i \<in> set ids"
  shows "get_or_default (parents_found E ids t) i = parents_of t i"
proof -
  let ?sel = "filter (\<lambda>r. pr_revision_id r \<in> set ids) (revision_parents t)"
  let ?k = "\<lambda>r. (pr_revision_id r, sint (pr_position r))"
  have "mset (filter (\<lambda>x. pr_revision_id x = i) (plan_parents E ?sel)) =
      filter_mset (\<lambda>x. pr_revision_id x = i) (mset (plan_parents E ?sel))" by simp
  also have "mset (plan_parents E ?sel) = mset ?sel" using assms(1) by (simp add: plans_permute_def)
  also have "filter_mset (\<lambda>x. pr_revision_id x = i) (mset ?sel) = mset (filter (\<lambda>x. pr_revision_id x = i) ?sel)"
    by (simp only: mset_filter)
  also have "filter (\<lambda>x. pr_revision_id x = i) ?sel = filter (\<lambda>x. pr_revision_id x = i) (revision_parents t)"
    using assms(4) by (auto intro!: filter_cong)
  finally have same: "mset (filter (\<lambda>x. pr_revision_id x = i) (plan_parents E ?sel)) =
      mset (filter (\<lambda>x. pr_revision_id x = i) (revision_parents t))" .
  have "get_or_default (parents_found E ids t) i =
      map pr_parent_id (filter (\<lambda>x. pr_revision_id x = i) (sort_key ?k (plan_parents E ?sel)))"
    using assms(4) by (auto simp: parents_found_def filter_map comp_def)
  also have "filter (\<lambda>x. pr_revision_id x = i) (sort_key ?k (plan_parents E ?sel)) =
      sort_key ?k (filter (\<lambda>x. pr_revision_id x = i) (plan_parents E ?sel))"
    by (rule filter_sort)
  also have "\<dots> = filter (\<lambda>x. pr_revision_id x = i) (revision_parents t)"
    by (rule sort_parents_batch[OF assms(2,3) same])
  finally show ?thesis by (simp add: parents_of_def)
qed

subsection \<open>The loops\<close>

lemma collect_heads_eq:
  assumes "distinct ids" "\<And>h. h \<in> set ids \<Longrightarrow> rows h = Some (row h)"
  shows "collect_heads pm passes ids (rows, revs, b) =
    (rows |` (- set ids),
     revs @ map (\<lambda>h. row_to_revision_sync Null (row h) (get_or_default pm (row_id (row h)))) ids,
     b \<or> (\<exists>h \<in> set ids. passes (row h)))"
  using assms
proof (induction ids arbitrary: rows revs b)
  case Nil
  then show ?case by (simp add: restrict_map_def)
next
  case (Cons i ids)
  have "rows i = Some (row i)" using Cons.prems by simp
  moreover have "collect_heads pm passes ids (rows(i := None), revs', b') =
    ((rows(i := None)) |` (- set ids),
     revs' @ map (\<lambda>h. row_to_revision_sync Null (row h) (get_or_default pm (row_id (row h)))) ids,
     b' \<or> (\<exists>h \<in> set ids. passes (row h)))" for revs' b'
    using Cons.prems by (intro Cons.IH) auto
  moreover have "(rows(i := None)) |` (- set ids) = rows |` (- set (i # ids))"
    by (auto simp: restrict_map_def)
  ultimately show ?case by simp
qed

lemma build_updates_eq:
  assumes "distinct objects"
    and "\<And>ob. ob \<in> set objects \<Longrightarrow> heads_by_object ob = Some (hs ob) \<and> hs ob \<noteq> [] \<and> distinct (hs ob)"
    and "\<And>ob h. ob \<in> set objects \<Longrightarrow> h \<in> set (hs ob) \<Longrightarrow> rows h = Some (row h)"
    and "\<And>ob ob' h. h \<in> set (hs ob) \<Longrightarrow> h \<in> set (hs ob') \<Longrightarrow> ob = ob'"
  shows "build_updates heads_by_object pm passes objects rows updates =
    updates @ map (\<lambda>ob. object_update ob
        (map (\<lambda>h. row_to_revision_sync Null (row h) (get_or_default pm (row_id (row h)))) (hs ob)))
      (filter (\<lambda>ob. \<exists>h \<in> set (hs ob). passes (row h)) objects)"
  using assms(1-3)
proof (induction objects arbitrary: rows updates)
  case (Cons ob objects)
  let ?revs = "map (\<lambda>h. row_to_revision_sync Null (row h) (get_or_default pm (row_id (row h)))) (hs ob)"
  have ob: "heads_by_object ob = Some (hs ob)" "hs ob \<noteq> []" "distinct (hs ob)" using Cons.prems by auto
  have found: "rows h = Some (row h)" if "h \<in> set (hs ob)" for h using Cons.prems(3)[of ob h] that by simp
  have "collect_heads pm passes (hs ob) (rows, [], False) =
      (rows |` (- set (hs ob)), ?revs, \<exists>h \<in> set (hs ob). passes (row h))"
    using collect_heads_eq[OF ob(3) found] by simp
  moreover have "build_updates heads_by_object pm passes objects (rows |` (- set (hs ob))) upds =
      upds @ map (\<lambda>ob. object_update ob
        (map (\<lambda>h. row_to_revision_sync Null (row h) (get_or_default pm (row_id (row h)))) (hs ob)))
      (filter (\<lambda>ob. \<exists>h \<in> set (hs ob). passes (row h)) objects)" for upds
  proof (rule Cons.IH)
    fix ob' h
    assume *: "ob' \<in> set objects" "h \<in> set (hs ob')"
    with assms(4)[of h ob ob'] Cons.prems(1) have "h \<notin> set (hs ob)" by auto
    with * Cons.prems(3)[of ob' h] show "(rows |` (- set (hs ob))) h = Some (row h)" by simp
  qed (use Cons.prems in auto)
  ultimately show ?case using ob by auto
qed simp

subsection \<open>What a pull returns\<close>

definition row_at :: "'v tables \<Rightarrow> uuid \<Rightarrow> 'v RevisionRow" where
  "row_at t i = the (map_of (map (\<lambda>r. (row_id r, r)) (revisions t)) i)"

definition head_rows :: "'v env \<Rightarrow> 'v tables \<Rightarrow> uuid list \<Rightarrow> (uuid \<times> uuid) list" where
  "head_rows E t objects = plan_head_rows E (filter (\<lambda>(ob, i). ob \<in> set objects) (object_heads t))"

definition assembled ::
  "'n Value env \<Rightarrow> ('n Value RevisionRow \<Rightarrow> bool) \<Rightarrow> uuid list \<Rightarrow> 'n Value tables \<Rightarrow>
     'n Value ObjectUpdate list" where
  "assembled E passes changed t =
     (let hs = head_rows E t changed;
          rs = plan_rows E (filter (\<lambda>r. row_id r \<in> set (map snd hs)) (revisions t))
      in build_updates (group_rows hs Map.empty) (parents_found E (map snd hs) t) passes changed
           (map_of (map (\<lambda>r. (row_id r, r)) (rev rs))) [])"

definition updates_of ::
  "'n Value env \<Rightarrow> ('n Value RevisionRow \<Rightarrow> bool) \<Rightarrow> int \<Rightarrow> int \<Rightarrow> uuid \<Rightarrow> 'n Value tables \<Rightarrow>
     'n Value ObjectUpdate list" where
  "updates_of E passes since_id up_to_id client t =
     (let changed = plan_changed E (changed_objects t since_id up_to_id client)
      in if changed = [] then [] else assembled E passes changed t)"

abbreviation since_i64 :: "TransactionId option \<Rightarrow> int" where
  "since_i64 since \<equiv> case since of Some t \<Rightarrow> sint (transaction_u64 t) | None \<Rightarrow> 0"

lemma assemble_updates_reads: "reads (assemble_updates E passes changed) (assembled E passes changed)"
  unfolding assemble_updates_def select_heads_def get_revision_rows_by_ids_def
  by (rule reads_cong, rule reads_and_then[OF reads_query], rule reads_and_then[OF reads_query],
      rule reads_and_then[OF get_parents_batch_reads reads_ok])
    (simp add: assembled_def head_rows_def Let_def)

lemma fetch_object_updates_reads:
  fixes E :: "'n Value env"
  shows "reads (fetch_object_updates E N client since up_to types created content)
     (updates_of E (head_passes N types created content) (since_i64 since)
        (uint (transaction_u64 up_to)) (client_uuid client))"
proof -
  let ?passes = "head_passes N types created content"
  have rest: "reads (if changed = [] then ok [] else assemble_updates E ?passes changed)
      (\<lambda>t. if changed = [] then [] else assembled E ?passes changed t)" for changed
    by (auto intro: reads_ok assemble_updates_reads)
  have "reads (and_then (select_changed_objects E s u c)
      (\<lambda>changed. if changed = [] then ok [] else assemble_updates E ?passes changed))
    (updates_of E ?passes s u c)" for s u c
    unfolding select_changed_objects_def updates_of_def Let_def
    by (rule reads_and_then[OF reads_query rest])
  moreover have "reads (err e :: ('n Value pool, sqlx_error, 'n Value ObjectUpdate list) fallible) f" for e f
    by (simp add: reads_def)
  ultimately show ?thesis unfolding fetch_object_updates_def by simp
qed

lemma fetch_object_updates_never_fails:
  assumes "fault_free E" "uint (transaction_u64 up_to) \<le> i64_max"
  shows "never_fails (fetch_object_updates E N client since up_to types created content)"
  using assms get_parents_batch_never_fails[OF assms(1)]
  by (auto simp: fetch_object_updates_def assemble_updates_def select_changed_objects_def select_heads_def
      get_revision_rows_by_ids_def intro!: never_fails_intros)

subsection \<open>The updates under the invariant\<close>

text \<open>
  The heads of an object in the order the query returned them. Under the invariant every
  changed object has heads, their rows exist, and no head belongs to two objects, so that
  taking a row out of the map never hides a head of another object.
\<close>

lemma db_inv_heads:
  assumes "db_inv t"
  shows "distinct (object_heads t)"
    and "(ob, i) \<in> set (object_heads t) \<longleftrightarrow> i \<in> frontier (object_of t) (parent_edges t) ob"
    and "(ob, i) \<in> set (object_heads t) \<Longrightarrow> object_of t i = Some ob"
proof -
  have ok: "graph_ok (object_of t) (parent_edges t) (head_set t)" using assms by (simp add: db_inv_def)
  show iff: "(ob, i) \<in> set (object_heads t) \<longleftrightarrow> i \<in> frontier (object_of t) (parent_edges t) ob"
    using graph_ok_heads[OF ok, of ob] by (auto simp: head_set_def)
  show "(ob, i) \<in> set (object_heads t) \<Longrightarrow> object_of t i = Some ob"
    unfolding iff by (simp add: frontier_def)
  show "distinct (object_heads t)" using assms by (simp add: db_inv_def keys_ok_def)
qed

lemma db_inv_row_at:
  assumes "db_inv t" "r \<in> set (revisions t)"
  shows "row_at t (row_id r) = r" and "object_of t (row_id r) = Some (row_object_id r)"
proof -
  have keys: "distinct (map row_id (revisions t))" using assms(1) by (simp add: db_inv_def keys_ok_def)
  show "row_at t (row_id r) = r" by (simp add: row_at_def map_of_key[OF keys assms(2)])
  show "object_of t (row_id r) = Some (row_object_id r)"
    unfolding object_of_def using keys assms(2) by (intro map_of_is_SomeI) (auto simp: comp_def)
qed

lemma db_inv_object_has_head:
  assumes "db_inv t" "r \<in> set (revisions t)"
  shows "\<exists>h. (row_object_id r, h) \<in> set (object_heads t)"
proof -
  have "finite (parent_edges t)" by (simp add: parent_edges_def)
  with below_some_head[of "object_of t" "parent_edges t" "head_set t" "row_id r"] assms db_inv_row_at(2)[OF assms]
  show ?thesis by (auto simp: db_inv_def head_set_def)
qed

lemma distinct_changed_objects: "distinct (changed_objects t s u c)"
  by (simp add: changed_objects_def)

lemma set_changed_objects:
  "set (changed_objects t s u c) =
     {row_object_id r | r x. r \<in> set (revisions t) \<and> x \<in> set (transactions t) \<and>
        (tx_id x, row_id r) \<in> set (transaction_revisions t) \<and>
        s < tx_id x \<and> tx_id x \<le> u \<and> row_created_by r \<noteq> c}"
proof -
  have "ob \<in> set (changed_objects t s u c) \<longleftrightarrow>
      (\<exists>r \<in> set (revisions t). \<exists>tr \<in> set (transaction_revisions t). \<exists>x \<in> set (transactions t).
         snd tr = row_id r \<and> tx_id x = fst tr \<and> s < tx_id x \<and> tx_id x \<le> u \<and> row_created_by r \<noteq> c \<and>
         ob = row_object_id r)" for ob
    by (auto simp: changed_objects_def)
  then show ?thesis by (fastforce simp: Bex_def)
qed

lemma head_rows_facts:
  assumes "db_inv t" "plans_permute E"
  shows "set (head_rows E t cs) = {(ob, i) \<in> set (object_heads t). ob \<in> set cs}"
    and "distinct (head_rows E t cs)"
proof -
  have same: "mset (head_rows E t cs) = mset (filter (\<lambda>(ob, i). ob \<in> set cs) (object_heads t))"
    using assms(2) by (simp add: plans_permute_def head_rows_def)
  show "set (head_rows E t cs) = {(ob, i) \<in> set (object_heads t). ob \<in> set cs}"
    using mset_eq_setD[OF same] by auto
  show "distinct (head_rows E t cs)"
    using mset_eq_imp_distinct_iff[OF same] db_inv_heads(1)[OF assms(1)] by simp
qed

lemma in_rows_at: "h \<in> set (rows_at ob hs) \<longleftrightarrow> (ob, h) \<in> set hs"
  by force

lemma rows_by_id_lookup:
  assumes inv: "db_inv t" and "plans_permute E" and h: "h \<in> set ids" "h \<in> known_ids t"
  shows "map_of (map (\<lambda>r. (row_id r, r)) (rev (plan_rows E (filter (\<lambda>r. row_id r \<in> set ids) (revisions t))))) h
      = Some (row_at t h)" and "row_id (row_at t h) = h"
proof -
  let ?sel = "filter (\<lambda>r. row_id r \<in> set ids) (revisions t)"
  have same: "mset (plan_rows E ?sel) = mset ?sel" using assms(2) by (simp add: plans_permute_def)
  from h obtain r where r: "r \<in> set (revisions t)" "row_id r = h" by auto
  have "distinct (map row_id ?sel)"
    using inv by (intro distinct_map_filter) (simp add: db_inv_def keys_ok_def)
  moreover have "mset (map row_id (plan_rows E ?sel)) = mset (map row_id ?sel)"
    using same by (simp only: mset_map)
  ultimately have "distinct (map row_id (plan_rows E ?sel))" using mset_eq_imp_distinct_iff by blast
  then have "distinct (map row_id (rev (plan_rows E ?sel)))" by (simp add: rev_map[symmetric])
  moreover have "r \<in> set (rev (plan_rows E ?sel))" using mset_eq_setD[OF same] r h by simp
  ultimately show "map_of (map (\<lambda>r. (row_id r, r)) (rev (plan_rows E ?sel))) h = Some (row_at t h)"
    using map_of_key db_inv_row_at(1)[OF inv r(1)] r(2) by fastforce
  show "row_id (row_at t h) = h" using db_inv_row_at(1)[OF inv r(1)] r(2) by simp
qed

text \<open>
  The heads are read in the tables \<open>t\<close>, their rows in \<open>t3\<close> and their parents in \<open>t4\<close>, which agree
  with \<open>t\<close> on what is known there: the updates are those of \<open>t\<close>.
\<close>

lemma build_updates_across:
  assumes inv: "db_inv t" "db_inv t3" and perm: "plans_permute E" and fit: "positions_ok t4" "parents_fit t4"
    and same: "\<And>h. h \<in> known_ids t \<Longrightarrow> h \<in> known_ids t3 \<and> row_at t3 h = row_at t h \<and> parents_of t4 h = parents_of t h"
    and cs: "distinct cs" "set cs \<subseteq> row_object_id ` set (revisions t)"
  shows "build_updates (group_rows (head_rows E t cs) Map.empty) (parents_found E (map snd (head_rows E t cs)) t4) passes cs
      (map_of (map (\<lambda>r. (row_id r, r)) (rev (plan_rows E
        (filter (\<lambda>r. row_id r \<in> set (map snd (head_rows E t cs))) (revisions t3)))))) [] =
    map (\<lambda>ob. object_update ob (map (\<lambda>h. decoded t (row_at t h)) (rows_at ob (head_rows E t cs))))
      (filter (\<lambda>ob. \<exists>h. (ob, h) \<in> set (object_heads t) \<and> passes (row_at t h)) cs)"
  (is "?lhs = ?rhs")
proof -
  let ?hs = "head_rows E t cs" and ?pm = "parents_found E (map snd (head_rows E t cs)) t4"
  note heads = head_rows_facts[OF inv(1) perm, of cs]
  have known: "h \<in> set (map snd ?hs) \<and> h \<in> known_ids t" if "(ob, h) \<in> set ?hs" for ob h
  proof -
    from that heads(1) have "(ob, h) \<in> set (object_heads t)" by blast
    from db_inv_heads(3)[OF inv(1) this] have "h \<in> known_ids t" by (auto dest: object_of_SomeD)
    with that show ?thesis by force
  qed
  note same = same[OF conjunct2[OF known]]
  note lookup = rows_by_id_lookup[OF inv(2) perm conjunct1[OF known] conjunct1[OF same]]
  have row_id: "row_id (row_at t h) = h" if "(ob, h) \<in> set ?hs" for ob h
    using lookup(2)[OF that that] same[OF that] by simp
  have "?lhs = [] @ map (\<lambda>ob. object_update ob
        (map (\<lambda>h. row_to_revision_sync Null (row_at t h) (get_or_default ?pm (row_id (row_at t h)))) (rows_at ob ?hs)))
      (filter (\<lambda>ob. \<exists>h \<in> set (rows_at ob ?hs). passes (row_at t h)) cs)"
  proof (rule build_updates_eq[OF cs(1)])
    fix ob
    assume ob: "ob \<in> set cs"
    with cs(2) obtain r where "r \<in> set (revisions t)" "row_object_id r = ob" by auto
    with db_inv_object_has_head[OF inv(1)] heads(1) ob have "\<exists>h. (ob, h) \<in> set ?hs" by blast
    then have "rows_at ob ?hs \<noteq> []" by (force simp: filter_empty_conv)
    moreover have "distinct (rows_at ob ?hs)" using heads(2) by (auto simp: distinct_map inj_on_def)
    ultimately show "group_rows ?hs Map.empty ob = Some (rows_at ob ?hs) \<and> rows_at ob ?hs \<noteq> [] \<and> distinct (rows_at ob ?hs)"
      by (simp add: group_rows_empty)
  next
    fix ob ob' h
    assume "h \<in> set (rows_at ob ?hs)" "h \<in> set (rows_at ob' ?hs)"
    then have "object_of t h = Some ob" "object_of t h = Some ob'"
      unfolding in_rows_at heads(1) using db_inv_heads(3)[OF inv(1)] by blast+
    then show "ob = ob'" by simp
  next
    fix ob h
    assume "h \<in> set (rows_at ob ?hs)"
    then have h: "(ob, h) \<in> set ?hs" by (simp only: in_rows_at)
    show "map_of (map (\<lambda>r. (row_id r, r)) (rev (plan_rows E
        (filter (\<lambda>r. row_id r \<in> set (map snd ?hs)) (revisions t3))))) h = Some (row_at t h)"
      using lookup(1)[OF h h] same[OF h] by simp
  qed
  moreover have "row_to_revision_sync Null (row_at t h) (get_or_default ?pm (row_id (row_at t h))) = decoded t (row_at t h)"
    if "h \<in> set (rows_at ob ?hs)" for ob h
  proof -
    from that have h: "(ob, h) \<in> set ?hs" by (simp only: in_rows_at)
    from parents_found_eq[OF perm fit conjunct1[OF known[OF h]]] same[OF h] row_id[OF h] show ?thesis
      by (simp only: decoded_def)
  qed
  moreover have "(\<exists>h \<in> set (rows_at ob ?hs). passes (row_at t h)) \<longleftrightarrow>
      (\<exists>h. (ob, h) \<in> set (object_heads t) \<and> passes (row_at t h))" if "ob \<in> set cs" for ob
    unfolding Bex_def in_rows_at heads(1) using that by simp
  ultimately show ?thesis by (simp only: append_Nil cong: filter_cong map_cong)
qed

lemma assembled_eq:
  assumes "db_inv t" "plans_permute E" "parents_fit t"
    and "distinct cs" "set cs \<subseteq> row_object_id ` set (revisions t)"
  shows "assembled E passes cs t =
    map (\<lambda>ob. object_update ob (map (\<lambda>h. decoded t (row_at t h)) (rows_at ob (head_rows E t cs))))
      (filter (\<lambda>ob. \<exists>h. (ob, h) \<in> set (object_heads t) \<and> passes (row_at t h)) cs)"
  unfolding assembled_def Let_def
  by (rule build_updates_across) (use assms in \<open>simp_all add: db_inv_def\<close>)

lemma updates_of_eq:
  assumes "db_inv t" "plans_permute E" "parents_fit t"
  defines "changed \<equiv> \<lambda>s u c. plan_changed E (changed_objects t s u c)"
  shows "updates_of E passes s u c t =
    map (\<lambda>ob. object_update ob (map (\<lambda>h. decoded t (row_at t h)) (rows_at ob (head_rows E t (changed s u c)))))
      (filter (\<lambda>ob. \<exists>h. (ob, h) \<in> set (object_heads t) \<and> passes (row_at t h)) (changed s u c))"
proof -
  have same: "mset (changed s u c) = mset (changed_objects t s u c)"
    using assms(2) by (simp add: plans_permute_def changed_def)
  then have "distinct (changed s u c)"
    using mset_eq_imp_distinct_iff[OF same] distinct_changed_objects by blast
  moreover have "set (changed s u c) \<subseteq> row_object_id ` set (revisions t)"
    using mset_eq_setD[OF same] by (auto simp: set_changed_objects)
  ultimately show ?thesis
    using assembled_eq[OF assms(1-3), of "changed s u c" passes]
    by (cases "changed s u c = []") (simp_all add: updates_of_def Let_def changed_def)
qed

end
