(* ===== verification/Ip.thy ===== *)
theory Ip
  imports Str
begin

text \<open>
  \<^verbatim>\<open>str::parse::<IpAddr>()\<close> of the standard library, which decides which header values name a
  client. The parser reads a prefix of the text and gives back the rest; a parse succeeds when
  nothing is left.
\<close>

datatype IpAddr = V4 "nat list" | V6 "nat list"

definition digit_of :: "nat \<Rightarrow> char \<Rightarrow> nat option" where
  "digit_of radix c =
     (let n = of_char c :: nat;
          d = (if 48 \<le> n \<and> n \<le> 57 then n - 48
               else if 97 \<le> n \<and> n \<le> 102 then n - 87
               else if 65 \<le> n \<and> n \<le> 70 then n - 55 else 99)
      in if d < radix then Some d else None)"

text \<open>The digits at the front of the text, and the rest\<close>

fun read_digits :: "nat \<Rightarrow> string \<Rightarrow> nat list \<times> string" where
  "read_digits radix [] = ([], [])"
| "read_digits radix (c # cs) =
     (case digit_of radix c of
        None \<Rightarrow> ([], c # cs)
      | Some d \<Rightarrow> (case read_digits radix cs of (ds, rest) \<Rightarrow> (d # ds, rest)))"

text \<open>\<^verbatim>\<open>read_number(radix, max_digits, allow_zero_prefix)\<close> for a type with the given largest value\<close>

definition read_number :: "nat \<Rightarrow> nat \<Rightarrow> bool \<Rightarrow> nat \<Rightarrow> string \<Rightarrow> (nat \<times> string) option" where
  "read_number radix max_digits allow_zero_prefix limit s =
     (case read_digits radix s of (ds, rest) \<Rightarrow>
        (let n = foldl (\<lambda>acc d. acc * radix + d) 0 ds in
         if ds = [] \<or> length ds > max_digits \<or> n > limit \<or>
            (\<not> allow_zero_prefix \<and> hd ds = 0 \<and> length ds > 1)
         then None else Some (n, rest)))"

text \<open>\<^verbatim>\<open>read_separator(sep, index, inner)\<close>: the separator before every element but the first\<close>

definition read_separator ::
  "char \<Rightarrow> nat \<Rightarrow> (string \<Rightarrow> ('a \<times> string) option) \<Rightarrow> string \<Rightarrow> ('a \<times> string) option" where
  "read_separator sep i inner s =
     (if i = 0 then inner s
      else (case s of c # cs \<Rightarrow> if c = sep then inner cs else None | [] \<Rightarrow> None))"

fun read_octets :: "nat \<Rightarrow> nat \<Rightarrow> string \<Rightarrow> (nat list \<times> string) option" where
  "read_octets i 0 s = Some ([], s)"
| "read_octets i (Suc k) s =
     (case read_separator CHR ''.'' i (read_number 10 3 False 255) s of
        None \<Rightarrow> None
      | Some (n, rest) \<Rightarrow>
          (case read_octets (Suc i) k rest of None \<Rightarrow> None | Some (ns, rest') \<Rightarrow> Some (n # ns, rest')))"

definition read_ipv4_addr :: "string \<Rightarrow> (nat list \<times> string) option" where
  "read_ipv4_addr s = read_octets 0 4 s"

text \<open>
  \<^verbatim>\<open>read_groups\<close>: at most \<open>k\<close> further groups after the first \<open>i\<close>; whether they end in an embedded
  IPv4 address; and the rest of the text.
\<close>

fun read_groups :: "nat \<Rightarrow> nat \<Rightarrow> string \<Rightarrow> nat list \<times> bool \<times> string" where
  "read_groups i 0 s = ([], False, s)"
| "read_groups i (Suc k) s =
     (case (if k > 0 then read_separator CHR '':'' i read_ipv4_addr s else None) of
        Some (ns, rest) \<Rightarrow> ([ns ! 0 * 256 + ns ! 1, ns ! 2 * 256 + ns ! 3], True, rest)
      | None \<Rightarrow>
          (case read_separator CHR '':'' i (read_number 16 4 True 65535) s of
             None \<Rightarrow> ([], False, s)
           | Some (n, rest) \<Rightarrow>
               (case read_groups (Suc i) k rest of (ns, v4, rest') \<Rightarrow> (n # ns, v4, rest'))))"

definition read_ipv6_addr :: "string \<Rightarrow> (nat list \<times> string) option" where
  "read_ipv6_addr s =
     (case read_groups 0 8 s of (head, head_ipv4, rest) \<Rightarrow>
        if length head = 8 then Some (head, rest)
        else if head_ipv4 then None
        else (case strip_prefix ''::'' rest of
           None \<Rightarrow> None
         | Some rest' \<Rightarrow>
             (case read_groups 0 (7 - length head) rest' of (tail, _, rest'') \<Rightarrow>
                Some (head @ replicate (8 - length head - length tail) 0 @ tail, rest''))))"

definition parse_ip :: "string \<Rightarrow> IpAddr option" where
  "parse_ip s =
     (case read_ipv4_addr s of
        Some (ns, rest) \<Rightarrow> if rest = [] then Some (V4 ns) else None
      | None \<Rightarrow> (case read_ipv6_addr s of
           Some (ns, rest) \<Rightarrow> if rest = [] then Some (V6 ns) else None
         | None \<Rightarrow> None))"

end
