(* ===== verification/Server.thy ===== *)
theory Server
  imports Pull Ip
begin

text \<open>
  The HTTP side of the server: \<^verbatim>\<open>error.rs\<close>, \<^verbatim>\<open>auth.rs\<close>, \<^verbatim>\<open>store.rs\<close>, \<^verbatim>\<open>handlers/*.rs\<close> and the
  router of \<^verbatim>\<open>lib.rs\<close>. A request is what axum hands over: the peer address, the headers and the
  endpoint with its extracted arguments, or the answer axum gives by itself where no route or
  extractor matches. The authentication provider, supplied by the application, is an argument.
\<close>

section \<open>Requests and responses\<close>

datatype 'v Body =
    Json_WhoAmI WhoAmIResponse
  | Json_Push PushResponse
  | Json_Pull "'v PullResponse"
  | Json_Object "'v ObjectUpdate"
  | Json_Error string
  | Bytes_Body "8 word list"
  | Empty_Body

record 'v Response =
  status :: nat
  body :: "'v Body"

definition respond :: "nat \<Rightarrow> 'v Body \<Rightarrow> 'v Response" where
  "respond code content = \<lparr> status = code, body = content \<rparr>"

datatype 'v Endpoint =
    Get_WhoAmI
  | Post_Changes "'v PushRequest"
  | Post_Changes_Query "'v PullRequest"
  | Get_Object uuid
  | Get_File uuid
  | Post_File uuid "8 word list"
  | Delete_File uuid
  | Answered_By_Axum "'v Response"

record 'v Request =
  peer :: "IpAddr option"
  req_headers :: "(string \<times> string) list"
  endpoint :: "'v Endpoint"

section \<open>Errors as responses (error.rs)\<close>

text \<open>The messages are those of the \<^verbatim>\<open>error\<close> attributes; a database error is not shown.\<close>

definition into_response :: "ServerError \<Rightarrow> 'v Response" where
  "into_response e =
     (case (case e of
         Err_Database _ \<Rightarrow> (500, ''internal server error'')
       | Err_DuplicateRevision \<Rightarrow> (409, ''revision already exists'')
       | Err_UnknownParent s \<Rightarrow> (422, ''unknown parent revision: '' @ s)
       | Err_MalformedData s \<Rightarrow> (400, ''malformed data: '' @ s)
       | Err_NotFound \<Rightarrow> (404, ''not found'')) of
      (code, message) \<Rightarrow> respond code (Json_Error message))"

section \<open>Authentication (auth.rs)\<close>

record AuthInfo =
  auth_client_id :: ClientId
  auth_user_id :: UserId
  auth_roles :: "string list"

datatype AuthError = Unauthenticated | Internal string

type_synonym provider = "IpAddr \<Rightarrow> AuthError + AuthInfo"

datatype IpSource = ConnectInfo | ForwardedFor | RealIp

record AuthLayer =
  layer_provider :: provider
  layer_ip_source :: IpSource

definition AuthLayer_new :: "provider \<Rightarrow> IpSource \<Rightarrow> AuthLayer" where
  "AuthLayer_new p s = \<lparr> layer_provider = p, layer_ip_source = s \<rparr>"

text \<open>\<^verbatim>\<open>HeaderValue::to_str\<close>: visible ASCII characters and tabs only\<close>

definition header_to_str :: "string \<Rightarrow> string option" where
  "header_to_str v =
     (if list_all (\<lambda>c. (32 \<le> (of_char c :: nat) \<and> (of_char c :: nat) < 127) \<or> (of_char c :: nat) = 9) v
      then Some v else None)"

definition extract_ip :: "'v Request \<Rightarrow> IpSource \<Rightarrow> IpAddr option" where
  "extract_ip req ip_source =
     (case ip_source of
        ConnectInfo \<Rightarrow> peer req
      | ForwardedFor \<Rightarrow>
          Option.bind (Option.bind (map_of (req_headers req) ''x-forwarded-for'') header_to_str)
            (\<lambda>s. case split_on CHR '','' s of [] \<Rightarrow> None | first # _ \<Rightarrow> parse_ip (trim first))
      | RealIp \<Rightarrow>
          Option.bind (Option.bind (map_of (req_headers req) ''x-real-ip'') header_to_str)
            (\<lambda>s. parse_ip (trim s)))"

definition unauthenticated :: "'v Response" where
  "unauthenticated = respond 401 (Json_Error ''unauthenticated'')"

definition provider_error :: "'v Response" where
  "provider_error = respond 500 (Json_Error ''internal server error'')"

definition auth_call ::
  "'v env \<Rightarrow> AuthLayer \<Rightarrow> (AuthInfo \<Rightarrow> 'v Request \<Rightarrow> 'v pool \<Rightarrow> 'v Response \<times> 'v pool) \<Rightarrow>
     'v Request \<Rightarrow> 'v pool \<Rightarrow> 'v Response \<times> 'v pool" where
  "auth_call E layer inner req p =
     (case extract_ip req (layer_ip_source layer) of
        None \<Rightarrow> (unauthenticated, p)
      | Some ip \<Rightarrow>
          (case layer_provider layer ip of
             Inl Unauthenticated \<Rightarrow> (unauthenticated, p)
           | Inl (Internal _) \<Rightarrow> (provider_error, p)
           | Inr info \<Rightarrow>
               (case upsert_client E (auth_client_id info) (auth_user_id info) p of
                  (Inl _, p') \<Rightarrow> (provider_error, p')
                | (Inr _, p') \<Rightarrow> inner info req p')))"

section \<open>The store (store.rs)\<close>

record ServerStore =
  store_auth :: provider
  store_ip_source :: IpSource

definition ServerStore_new :: "provider \<Rightarrow> ServerStore" where
  "ServerStore_new auth = \<lparr> store_auth = auth, store_ip_source = ConnectInfo \<rparr>"

definition trust_forwarded_for :: "ServerStore \<Rightarrow> ServerStore" where
  "trust_forwarded_for store = store\<lparr>store_ip_source := ForwardedFor\<rparr>"

definition trust_real_ip :: "ServerStore \<Rightarrow> ServerStore" where
  "trust_real_ip store = store\<lparr>store_ip_source := RealIp\<rparr>"

section \<open>Handlers (handlers/*.rs)\<close>

type_synonym 'v handler = "('v pool, ServerError, 'v Response) fallible"

definition whoami :: "AuthInfo \<Rightarrow> 'v handler" where
  "whoami auth = ok (respond 200 (Json_WhoAmI
     \<lparr> who_client_id = auth_client_id auth, who_user_id = auth_user_id auth, who_roles = auth_roles auth \<rparr>))"

definition push_changes :: "'v env \<Rightarrow> AuthInfo \<Rightarrow> 'v PushRequest \<Rightarrow> 'v handler" where
  "push_changes E auth req =
     and_then (push_revisions E (auth_client_id auth) (push_req_revisions req))
       (\<lambda>resp. ok (respond 200 (Json_Push resp)))"

definition pull_changes ::
  "'n Value env \<Rightarrow> ('n, 'f) numbers \<Rightarrow> AuthInfo \<Rightarrow> 'n Value PullRequest \<Rightarrow> 'n Value handler" where
  "pull_changes E N auth req =
     (if (case pull_since req of Some since \<Rightarrow> uint (transaction_u64 since) > i64_max | None \<Rightarrow> False)
      then err (Err_MalformedData ''since transaction ID out of range'')
      else and_then (map_err Err_Database (latest_transaction_id E))
        (\<lambda>latest. and_then
           (map_err Err_Database
             (fetch_object_updates E N (auth_client_id auth) (pull_since req) (TransactionId latest)
                (pull_object_types req) (pull_created_at req) (pull_filter req)))
           (\<lambda>updates. ok (respond 200 (Json_Pull
              \<lparr> up_to_transaction = TransactionId latest, object_updates = updates \<rparr>)))))"

definition get_object :: "'n Value env \<Rightarrow> uuid \<Rightarrow> 'n Value handler" where
  "get_object E i =
     and_then (map_err Err_Database (in_tx E (get_heads E i)))
       (\<lambda>head_ids.
          if head_ids = [] then err Err_NotFound
          else and_then (map_err Err_Database (get_revision_rows_by_ids E head_ids))
            (\<lambda>revision_rows. and_then (map_err Err_Database (get_parents_batch E (map row_id revision_rows)))
               (\<lambda>parents_map.
                  ok (respond 200 (Json_Object (object_update i
                    (map (\<lambda>row. row_to_revision_sync Null row (get_or_default parents_map (row_id row)))
                       revision_rows)))))))"

definition get_file_handler :: "'v env \<Rightarrow> uuid \<Rightarrow> 'v handler" where
  "get_file_handler E i =
     and_then (map_err Err_Database (get_file E i))
       (\<lambda>data. ok (case data of Some bytes \<Rightarrow> respond 200 (Bytes_Body bytes) | None \<Rightarrow> respond 404 Empty_Body))"

definition upload_file :: "'v env \<Rightarrow> uuid \<Rightarrow> 8 word list \<Rightarrow> 'v handler" where
  "upload_file E i bytes =
     and_then (map_err Err_Database (upsert_file E i bytes)) (\<lambda>_. ok (respond 204 Empty_Body))"

definition delete_file_handler :: "'v env \<Rightarrow> uuid \<Rightarrow> 'v handler" where
  "delete_file_handler E i =
     and_then (map_err Err_Database (delete_file E i)) (\<lambda>_. ok (respond 204 Empty_Body))"

section \<open>The router (lib.rs)\<close>

fun dispatch ::
  "'n Value env \<Rightarrow> ('n, 'f) numbers \<Rightarrow> AuthInfo \<Rightarrow> 'n Value Endpoint \<Rightarrow> 'n Value handler" where
  "dispatch E N auth Get_WhoAmI = whoami auth"
| "dispatch E N auth (Post_Changes req) = push_changes E auth req"
| "dispatch E N auth (Post_Changes_Query req) = pull_changes E N auth req"
| "dispatch E N auth (Get_Object i) = get_object E i"
| "dispatch E N auth (Get_File i) = get_file_handler E i"
| "dispatch E N auth (Post_File i bytes) = upload_file E i bytes"
| "dispatch E N auth (Delete_File i) = delete_file_handler E i"
| "dispatch E N auth (Answered_By_Axum resp) = ok resp"

definition routed ::
  "'n Value env \<Rightarrow> ('n, 'f) numbers \<Rightarrow> AuthInfo \<Rightarrow> 'n Value Request \<Rightarrow> 'n Value pool \<Rightarrow>
     'n Value Response \<times> 'n Value pool" where
  "routed E N auth req p =
     (case dispatch E N auth (endpoint req) p of
        (Inl e, p') \<Rightarrow> (into_response e, p')
      | (Inr resp, p') \<Rightarrow> (resp, p'))"

definition router ::
  "'n Value env \<Rightarrow> ('n, 'f) numbers \<Rightarrow> ServerStore \<Rightarrow> 'n Value Request \<Rightarrow> 'n Value pool \<Rightarrow>
     'n Value Response \<times> 'n Value pool" where
  "router E N store req p =
     auth_call E (AuthLayer_new (store_auth store) (store_ip_source store)) (routed E N) req p"

end
