(* ===== verification/Samples.thy ===== *)
theory Samples
  imports Filters Invariant
begin

text \<open>
  Concrete inputs: a database server that never fails and returns rows in the order they were
  inserted, a registered client, and a few revisions of one object. They show that the
  hypotheses of the properties can hold.
\<close>

definition sample_env :: "nat Value env" where
  "sample_env =
     \<lparr> pg_fault = (\<lambda>_. False), pg_commit_lost = (\<lambda>_. False), pg_jsonb = Some, pg_text = (\<lambda>_. True),
       pg_timestamptz = Some, utc_now = int, plan_head_ids = (\<lambda>xs. xs), plan_rows = (\<lambda>xs. xs),
       plan_parents = (\<lambda>xs. xs), plan_changed = (\<lambda>xs. xs), plan_head_rows = (\<lambda>xs. xs) \<rparr>"

text \<open>The same server, losing the connection at the call with the given number\<close>

definition failing_env :: "nat \<Rightarrow> bool \<Rightarrow> nat Value env" where
  "failing_env n lost = sample_env\<lparr> pg_fault := (\<lambda>k. k = n), pg_commit_lost := (\<lambda>_. lost) \<rparr>"

definition sample_client :: ClientId where
  "sample_client = ClientId 7"

definition other_client :: ClientId where
  "other_client = ClientId 8"

definition sample_pool :: "nat Value pool" where
  "sample_pool =
     \<lparr> tables = empty_tables\<lparr>clients := [\<lparr>cl_id = 7, cl_user_id = 70, cl_registered_at = 0\<rparr>,
                                            \<lparr>cl_id = 8, cl_user_id = 80, cl_registered_at = 0\<rparr>]\<rparr>,
       calls = 0 \<rparr>"

definition sample_root :: "nat Value Revision" where
  "sample_root = new_root (RevisionId 1) 5 (ObjectId 10) ''note'' sample_client (String ''a'')"

definition sample_update :: "nat Value Revision" where
  "sample_update =
     \<lparr> rev_id = RevisionId 2, rev_object_id = ObjectId 10, rev_object_type = ''note'',
       rev_lineage = Update (RevisionId 1), rev_created_at = 6, rev_created_by = sample_client,
       rev_content = Active (String ''b'') \<rparr>"

definition sample_branch :: "nat Value Revision" where
  "sample_branch = sample_update\<lparr> rev_id := RevisionId 3, rev_created_by := other_client \<rparr>"

definition sample_merge :: "nat Value Revision" where
  "sample_merge = sample_update\<lparr> rev_id := RevisionId 4, rev_lineage := Merge (RevisionId 2) (RevisionId 3) [],
     rev_content := Deleted \<rparr>"

text \<open>The root of another object, by the other client\<close>

definition unrelated_root :: "nat Value Revision" where
  "unrelated_root = new_root (RevisionId 5) 5 (ObjectId 20) ''note'' other_client (String ''c'')"

lemmas sample_defs = sample_env_def failing_env_def sample_client_def other_client_def sample_pool_def
  sample_root_def sample_update_def sample_branch_def sample_merge_def new_root_def empty_tables_def

lemma sample_fault_free: "fault_free sample_env"
  by (simp add: fault_free_def sample_env_def)

lemma sample_plans: "plans_permute sample_env"
  by (simp add: plans_permute_def sample_env_def)

lemma sample_pool_inv: "db_inv (tables sample_pool)"
  unfolding sample_pool_def pool.simps by (rule db_inv_clients[OF db_inv_empty]) (simp_all add: empty_tables_def)

section \<open>A database with a conflict\<close>

text \<open>The tables after two pushes: a root with an update by one client and a branch by another\<close>

definition updated_pool :: "nat Value pool" where
  "updated_pool =
     \<lparr> tables =
         \<lparr> clients = clients (tables sample_pool),
           revisions =
             [\<lparr>row_id = 1, row_object_id = 10, row_object_type = ''note'', row_deleted = False,
               row_data = Some (String ''a''), row_created_at = 5, row_created_by = 7\<rparr>,
              \<lparr>row_id = 2, row_object_id = 10, row_object_type = ''note'', row_deleted = False,
               row_data = Some (String ''b''), row_created_at = 6, row_created_by = 7\<rparr>],
           revision_parents = [\<lparr>pr_revision_id = 2, pr_parent_id = 1, pr_position = 0\<rparr>],
           transactions = [\<lparr>tx_id = 1, tx_client_id = 7, tx_created_at = 9\<rparr>],
           transaction_revisions = [(1, 1), (1, 2)],
           object_heads = [(10, 2)], files = [], txn_sequence = 2 \<rparr>,
       calls = 13 \<rparr>"

definition branched_pool :: "nat Value pool" where
  "branched_pool =
     \<lparr> tables = (tables updated_pool)
         \<lparr> revisions := revisions (tables updated_pool) @
             [\<lparr>row_id = 3, row_object_id = 10, row_object_type = ''note'', row_deleted = False,
               row_data = Some (String ''b''), row_created_at = 6, row_created_by = 8\<rparr>],
           revision_parents := revision_parents (tables updated_pool) @
             [\<lparr>pr_revision_id = 3, pr_parent_id = 1, pr_position = 0\<rparr>],
           transactions := transactions (tables updated_pool) @
             [\<lparr>tx_id = 2, tx_client_id = 8, tx_created_at = 20\<rparr>],
           transaction_revisions := transaction_revisions (tables updated_pool) @ [(2, 3)],
           object_heads := [(10, 2), (10, 3)], txn_sequence := 3 \<rparr>,
       calls = 23 \<rparr>"

lemma updated_pool_run:
  "push_revisions sample_env sample_client [sample_root, sample_update] sample_pool =
     (Inr \<lparr>resp_transaction_id = TransactionId 1, resp_accepted = [RevisionId 1, RevisionId 2], resp_rejected = []\<rparr>,
      updated_pool)"
  by code_simp

lemma branched_pool_run:
  "push_revisions sample_env other_client [sample_branch] updated_pool =
     (Inr \<lparr>resp_transaction_id = TransactionId 2, resp_accepted = [RevisionId 3], resp_rejected = []\<rparr>,
      branched_pool)"
  by code_simp

lemma updated_pool_inv: "db_inv (tables updated_pool)"
  using push_db_inv[OF sample_pool_inv] updated_pool_run by (metis snd_conv)

lemma branched_pool_inv: "db_inv (tables branched_pool)"
  using push_db_inv[OF updated_pool_inv] branched_pool_run by (metis snd_conv)

end
