(* ===== verification/PushCorrect.thy ===== *)
theory PushCorrect
  imports Samples
begin

text \<open>
  The properties of \<^verbatim>\<open>push_revisions\<close>: it keeps the invariant of the tables, answers for
  every revision of the batch, accepts exactly the revisions the rules allow, is all or
  nothing, succeeds when nothing stands in its way, and can be repeated safely.
\<close>

section \<open>Which revisions a batch accepts\<close>

text \<open>The objects of the revisions accepted so far, as the validation carries them\<close>

abbreviation add_objects :: "'v Revision list \<Rightarrow> (RevisionId \<rightharpoonup> ObjectId) \<Rightarrow> (RevisionId \<rightharpoonup> ObjectId)" where
  "add_objects \<equiv> fold (\<lambda>r m. m(rev_id r \<mapsto> rev_object_id r))"

lemma accepted_revs_append:
  "accepted_revs t client objs (xs @ ys) =
     accepted_revs t client objs xs @
     accepted_revs t client (add_objects (accepted_revs t client objs xs) objs) ys"
  by (induction xs arbitrary: objs) (auto split: option.split)

lemma rejections_append:
  "rejections t client objs (xs @ ys) =
     rejections t client objs xs @
     rejections t client (add_objects (accepted_revs t client objs xs) objs) ys"
  by (induction xs arbitrary: objs) (auto split: option.split)

lemma add_objects_lookup:
  assumes "distinct (map rev_id rs)"
  shows "add_objects rs objs q =
    (if q \<in> rev_id ` set rs then map_of (map (\<lambda>r. (rev_id r, rev_object_id r)) rs) q else objs q)"
  using assms by (induction rs arbitrary: objs) (auto simp: image_iff)

lemma add_objects_Some_iff:
  assumes "distinct (map rev_id rs)"
  shows "add_objects rs Map.empty q = Some ob \<longleftrightarrow> (\<exists>x \<in> set rs. rev_id x = q \<and> rev_object_id x = ob)"
proof -
  have keys: "distinct (map fst (map (\<lambda>r. (rev_id r, rev_object_id r)) rs))"
    using assms by (simp add: comp_def)
  show ?thesis
    unfolding add_objects_lookup[OF assms] using map_of_eq_Some_iff[OF keys, of q ob]
    by (auto simp: image_iff) metis+
qed

lemma accepted_revs_subset: "set (accepted_revs t client objs revs) \<subseteq> set revs"
  using list_emb_set[OF accepted_revs_subseq] by blast

lemma accepted_revs_distinct:
  assumes "distinct (map rev_id revs)"
  shows "distinct (map rev_id (accepted_revs t client objs revs))"
  using assms
proof (induction revs arbitrary: objs)
  case (Cons r revs)
  have "rev_id r \<notin> rev_id ` set (accepted_revs t client objs' revs)" for objs'
    using Cons.prems image_mono[OF accepted_revs_subset[of t client objs' revs], of rev_id] by auto
  with Cons show ?case by (simp split: option.split)
qed simp

lemma accepted_revs_unknown:
  "r \<in> set (accepted_revs t client objs revs) \<Longrightarrow> revision_uuid (rev_id r) \<notin> known_ids t"
  by (induction revs arbitrary: objs) (auto simp: verdict_None_iff split: option.splits)

text \<open>A revision is determined by its id within a batch of distinct ids.\<close>

lemma accepted_id_iff:
  assumes "distinct (map rev_id revs)" "r \<in> set revs"
  shows "rev_id r \<in> rev_id ` set (accepted_revs t client objs revs) \<longleftrightarrow> r \<in> set (accepted_revs t client objs revs)"
  using assms accepted_revs_subset[of t client objs revs]
  by (auto simp: distinct_map inj_on_def)

text \<open>The verdict on a revision in the middle of a batch\<close>

definition available :: "'v tables \<Rightarrow> RevisionId list \<Rightarrow> 'v Revision list \<Rightarrow> RevisionId \<Rightarrow> ObjectId \<Rightarrow> bool" where
  "available t acc before q ob \<longleftrightarrow>
     (\<exists>x \<in> set before. rev_id x = q \<and> q \<in> set acc \<and> rev_object_id x = ob) \<or>
     object_of t (revision_uuid q) = Some (object_uuid ob)"

lemma parent_object_accepted:
  fixes t :: "'v tables" and client
  assumes "distinct (map rev_id (xs @ ys))"
  defines "A \<equiv> accepted_revs t client Map.empty"
  shows "parent_object t (add_objects (A xs) Map.empty) q = Some ob \<longleftrightarrow>
    available t (map rev_id (A (xs @ ys))) xs q ob"
proof -
  have dist: "distinct (map rev_id (A xs))" using assms by (simp add: accepted_revs_distinct)
  have before: "x \<in> set (A xs) \<longleftrightarrow> rev_id x \<in> set (map rev_id (A (xs @ ys)))" if "x \<in> set xs" for x
    using that assms(1) accepted_id_iff[of xs x t client Map.empty]
      accepted_revs_subset[of t client "add_objects (A xs) Map.empty" ys]
    by (auto simp: A_def accepted_revs_append)
  have hit: "add_objects (A xs) Map.empty q = Some ob \<longleftrightarrow>
      (\<exists>x \<in> set xs. rev_id x = q \<and> q \<in> set (map rev_id (A (xs @ ys))) \<and> rev_object_id x = ob)" for ob
    unfolding add_objects_Some_iff[OF dist] using before accepted_revs_subset[of t client Map.empty xs]
    unfolding A_def by blast
  show ?thesis
  proof (cases "add_objects (A xs) Map.empty q")
    case None
    then show ?thesis using hit
      by (cases ob) (auto simp: parent_object_def available_def)
  next
    case (Some ob')
    then obtain x where "x \<in> set (A xs)" "rev_id x = q" using add_objects_Some_iff[OF dist] by blast
    then have "revision_uuid q \<notin> known_ids t" using accepted_revs_unknown unfolding A_def by blast
    then have "object_of t (revision_uuid q) = None" by (simp add: object_of_eq_None_iff)
    then show ?thesis using hit[of ob] Some by (auto simp: parent_object_def available_def)
  qed
qed

lemma accepted_middle_iff:
  assumes "distinct (map rev_id (xs @ r # ys))"
  shows "rev_id r \<in> set (map rev_id (accepted_revs t client Map.empty (xs @ r # ys))) \<longleftrightarrow>
    verdict t client (add_objects (accepted_revs t client Map.empty xs) Map.empty) r = None"
  using assms accepted_revs_subset[of t client Map.empty xs]
    accepted_revs_subset[of t client _ ys]
  by (auto simp: accepted_revs_append split: option.splits)

section \<open>Success\<close>

text \<open>From the rows of a batch to the statements that store it\<close>

lemma insert_parent_rows_succeed:
  assumes "fault_free E" "distinct (map parent_key rows)"
    "parent_key ` set rows \<inter> parent_key ` set (revision_parents (tables p)) = {}"
    "\<And>x. x \<in> set rows \<Longrightarrow> pr_revision_id x \<in> known_ids (tables p) \<and> pr_parent_id x \<in> known_ids (tables p)"
  shows "\<exists>p'. for_each (\<lambda>row. sql E (insert_parent_row row)) rows p = (Inr (), p') \<and>
    revisions (tables p') = revisions (tables p)"
  using assms(2-)
proof (induction rows arbitrary: p)
  case (Cons row rows)
  let ?t = "(tables p)\<lparr>revision_parents := revision_parents (tables p) @ [row]\<rparr>"
  let ?p = "p\<lparr>calls := Suc (calls p), tables := ?t\<rparr>"
  have "insert_parent_row row (tables p) = (Inr (), ?t)"
    using Cons.prems(2) Cons.prems(3)[of row] by (auto simp: insert_parent_row_def)
  note stmt = this
  have "sql E (insert_parent_row row) p = (Inr (), ?p)"
    by (rule sql_fault_free[OF assms(1)]) (rule stmt)
  moreover have "\<exists>p'. for_each (\<lambda>row. sql E (insert_parent_row row)) rows ?p = (Inr (), p') \<and>
      revisions (tables p') = revisions (tables ?p)"
    using Cons.prems by (intro Cons.IH) auto
  ultimately show ?case by (auto simp: and_then_run)
qed simp

lemma update_heads_succeeds:
  assumes "fault_free E" "i \<in> known_ids (tables p)"
  shows "\<exists>p'. update_heads E ob ps i p = (Inr (), p')"
  using assms
  by (simp add: update_heads_def delete_heads_def insert_head_def and_then_def sql_def fault_free_def ok_def Let_def)

lemma store_revision_succeeds:
  assumes ff: "fault_free E" and enc: "encode_row E (row_of_revision r) \<noteq> None"
    and new: "revision_uuid (rev_id r) \<notin> known_ids (tables p)" and refs: "refs_ok (tables p)"
    and cl: "client_uuid (rev_created_by r) \<in> cl_id ` set (clients (tables p))"
    and ps: "distinct (rev_parents r)" "parent_ids r \<subseteq> known_ids (tables p)"
  shows "\<exists>p'. store_revision E r p = (Inr (), p')"
proof -
  from enc obtain row where row: "encode_row E (row_of_revision r) = Some row" by blast
  let ?t = "(tables p)\<lparr>revisions := revisions (tables p) @ [row]\<rparr>"
  let ?p = "p\<lparr>calls := Suc (calls p), tables := ?t\<rparr>"
  note fields = encode_row_fields[OF row] active_has_data_encode[OF row]
  have "insert_revision_row E (row_of_revision r) (tables p) = (Inr (), ?t)"
    using new cl fields by (simp add: insert_revision_row_def row active_has_data_row_of_revision)
  note stmt = this
  have ins: "sql E (insert_revision_row E (row_of_revision r)) p = (Inr (), ?p)"
    by (rule sql_fault_free[OF ff]) (rule stmt)
  have "\<exists>p1. for_each (\<lambda>row. sql E (insert_parent_row row)) (parent_rows r) ?p = (Inr (), p1) \<and>
      revisions (tables p1) = revisions (tables ?p)"
  proof (rule insert_parent_rows_succeed[OF ff])
    show "distinct (map parent_key (parent_rows r))"
      using ps(1) by (auto simp: parent_rows_keys distinct_map inj_on_def)
    show "parent_key ` set (parent_rows r) \<inter> parent_key ` set (revision_parents (tables ?p)) = {}"
    proof -
      have "\<forall>x \<in> set (revision_parents (tables p)). pr_revision_id x \<noteq> revision_uuid (rev_id r)"
        using new refs by (metis refs_ok_def)
      then show ?thesis by (fastforce dest!: parent_rows_facts(2))
    qed
    fix x
    assume x: "x \<in> set (parent_rows r)"
    then have "pr_parent_id x \<in> parent_ids r" unfolding parent_rows_parents[symmetric] by (rule imageI)
    with x ps(2) fields show "pr_revision_id x \<in> known_ids (tables ?p) \<and> pr_parent_id x \<in> known_ids (tables ?p)"
      by auto
  qed
  then obtain p1 where rows: "for_each (\<lambda>row. sql E (insert_parent_row row)) (parent_rows r) ?p = (Inr (), p1)"
    and p1: "revisions (tables p1) = revisions (tables p) @ [row]" by auto
  have "insert_revision E r p = (Inr (), p1)" 
    unfolding insert_revision_def and_then_Inr_iff using ins rows by blast
  moreover have "\<exists>p'. update_heads E (object_uuid (rev_object_id r)) (map revision_uuid (rev_parents r))
      (revision_uuid (rev_id r)) p1 = (Inr (), p')"
    by (rule update_heads_succeeds[OF ff]) (use p1 fields in simp)
  ultimately show ?thesis by (auto simp: store_revision_def and_then_run)
qed

lemma store_batch_succeeds:
  assumes "fault_free E" "admissible t client objs rs" "objects_agree t objs (tables p)"
    "store_inv (tables p)" "client_uuid client \<in> cl_id ` set (clients (tables p))"
    "known_ids (tables p) \<inter> revision_uuid ` rev_id ` set rs = {}" "distinct (map rev_id rs)"
    "\<And>r. r \<in> set rs \<Longrightarrow> encode_row E (row_of_revision r) \<noteq> None"
  shows "\<exists>p'. for_each (store_revision E) rs p = (Inr (), p')"
  using assms(2-)
proof (induction rs arbitrary: objs p)
  case (Cons r rs)
  from Cons.prems(1) have v: "verdict t client objs r = None"
    and rest: "admissible t client (objs(rev_id r \<mapsto> rev_object_id r)) rs" by auto
  have "parent_ids r \<subseteq> known_ids (tables p)"
  proof
    fix q
    assume "q \<in> parent_ids r"
    with v Cons.prems(2) have "object_of (tables p) q \<noteq> None"
      by (auto simp: verdict_None_iff objects_agree_def)
    then show "q \<in> known_ids (tables p)" by (simp add: object_of_eq_None_iff)
  qed
  then have "\<exists>p1. store_revision E r p = (Inr (), p1)"
    using Cons.prems v by (intro store_revision_succeeds[OF assms(1)]) (auto simp: verdict_None_iff store_inv_def)
  then obtain p1 where run: "store_revision E r p = (Inr (), p1)" by blast
  note st = store_revision_run[OF run]
  have "\<exists>p'. for_each (store_revision E) rs p1 = (Inr (), p')"
  proof (rule Cons.IH[OF rest])
    show "objects_agree t (objs(rev_id r \<mapsto> rev_object_id r)) (tables p1)"
      by (rule objects_agree_step[OF Cons.prems(2) st])
    show "store_inv (tables p1)" by (rule stored_store_inv[OF Cons.prems(2) st v Cons.prems(3)])
    show "client_uuid client \<in> cl_id ` set (clients (tables p1))" using st Cons.prems(4) by (auto elim: storedE)
    show "known_ids (tables p1) \<inter> revision_uuid ` rev_id ` set rs = {}"
      using stored_known[OF st] Cons.prems(5,6) by auto
  qed (use Cons.prems in auto)
  with run show ?case by (auto simp: and_then_run)
qed simp

lemma insert_transaction_revisions_succeed:
  assumes "fault_free E" "distinct ids"
    "\<And>i. i \<in> set ids \<Longrightarrow> (n, revision_uuid i) \<notin> set (transaction_revisions (tables p))"
    "n \<in> tx_id ` set (transactions (tables p))" "revision_uuid ` set ids \<subseteq> known_ids (tables p)"
  shows "\<exists>p'. for_each (\<lambda>i. sql E (insert_transaction_revision n (revision_uuid i))) ids p = (Inr (), p')"
  using assms(2-)
proof (induction ids arbitrary: p)
  case (Cons i ids)
  let ?t = "(tables p)\<lparr>transaction_revisions := transaction_revisions (tables p) @ [(n, revision_uuid i)]\<rparr>"
  let ?p = "p\<lparr>calls := Suc (calls p), tables := ?t\<rparr>"
  have "insert_transaction_revision n (revision_uuid i) (tables p) = (Inr (), ?t)"
    using Cons.prems by (auto simp: insert_transaction_revision_def)
  note stmt = this
  have "sql E (insert_transaction_revision n (revision_uuid i)) p = (Inr (), ?p)"
    by (rule sql_fault_free[OF assms(1)]) (rule stmt)
  moreover have "\<exists>p'. for_each (\<lambda>i. sql E (insert_transaction_revision n (revision_uuid i))) ids ?p = (Inr (), p')"
    using Cons.prems by (intro Cons.IH) auto
  ultimately show ?case by (auto simp: and_then_run)
qed simp

lemma create_transaction_succeeds:
  assumes ff: "fault_free E" and clock: "\<And>n. pg_timestamptz E (utc_now E n) \<noteq> None"
    and cl: "client_uuid client \<in> cl_id ` set (clients (tables p))"
    and seq: "txn_sequence (tables p) \<le> i64_max" and ids: "distinct ids"
    and ok: "txns_ok (tables p)" "refs_ok (tables p)" "revision_uuid ` set ids \<subseteq> known_ids (tables p)"
  shows "\<exists>tid p'. create_transaction E client ids p = (Inr tid, p')"
proof -
  let ?n = "txn_sequence (tables p)"
  from clock obtain at where at: "pg_timestamptz E (utc_now E (calls p)) = Some at" by blast
  let ?t = "(tables p)\<lparr>txn_sequence := ?n + 1, transactions := transactions (tables p) @
      [\<lparr>tx_id = ?n, tx_client_id = client_uuid client, tx_created_at = at\<rparr>]\<rparr>"
  let ?p = "p\<lparr>calls := Suc (calls p), tables := ?t\<rparr>"
  have "insert_transaction_row (client_uuid client) (pg_timestamptz E (utc_now E (calls p))) (tables p) = (Inr ?n, ?t)"
    using cl seq by (simp add: insert_transaction_row_def at Let_def)
  note stmt = this
  have ins: "sql E (insert_transaction_row (client_uuid client) (pg_timestamptz E (utc_now E (calls p)))) p = (Inr ?n, ?p)"
    by (rule sql_fault_free[OF ff]) (rule stmt)
  have "(?n, i) \<notin> set (transaction_revisions (tables p))" for i
    using ok(1,2) by (fastforce simp: txns_ok_def refs_ok_def)
  then have "\<exists>p'. for_each (\<lambda>i. sql E (insert_transaction_revision ?n (revision_uuid i))) ids ?p = (Inr (), p')"
    using ok(3) ids by (intro insert_transaction_revisions_succeed[OF ff]) auto
  moreover have "create_transaction E client ids p =
      and_then (for_each (\<lambda>i. sql E (insert_transaction_revision ?n (revision_uuid i))) ids)
        (\<lambda>_. ok (TransactionId (word_of_int ?n))) ?p"
    unfolding create_transaction_def by (rule and_then_run) (rule ins)
  ultimately show ?thesis by (auto simp: and_then_def)
qed

lemma in_tx_succeeds:
  assumes "fault_free E" "\<And>p. tables p = t \<Longrightarrow> \<exists>a p'. body p = (Inr a, p')" "tables p = t"
  shows "\<exists>a p'. in_tx E body p = (Inr a, p')"
proof -
  obtain a p' where "body (p\<lparr>calls := Suc (calls p)\<rparr>) = (Inr a, p')"
    using assms(2)[of "p\<lparr>calls := Suc (calls p)\<rparr>"] assms(3) by auto
  then show ?thesis using assms(1) by (simp add: in_tx_def sql_def fault_free_def ok_def Let_def)
qed

lemma store_selected_succeeds:
  assumes ff: "fault_free E" and clock: "\<And>n. pg_timestamptz E (utc_now E n) \<noteq> None"
    and inv: "db_inv (tables p)" and cl: "client_uuid client \<in> cl_id ` set (clients (tables p))"
    and seq: "txn_sequence (tables p) \<le> i64_max" and ids: "distinct (map rev_id revs)"
    and enc: "\<And>r. r \<in> set revs \<Longrightarrow> encode_row E (row_of_revision r) \<noteq> None"
  shows "\<exists>tid p'. store_batch E client (accepted_revs (tables p) client Map.empty revs)
    (map rev_id (accepted_revs (tables p) client Map.empty revs)) p = (Inr tid, p')"
proof -
  let ?A = "accepted_revs (tables p) client Map.empty revs"
  have parts: "store_inv (tables p)" "txns_ok (tables p)" using inv by (auto simp: db_inv_store_inv)
  have "i \<notin> known_ids (tables p)" if "i \<in> revision_uuid ` rev_id ` set ?A" for i
    using that by (elim imageE) (simp only: accepted_revs_unknown not_False_eq_True)
  then have "known_ids (tables p) \<inter> revision_uuid ` rev_id ` set ?A = {}" by blast
  then have "\<exists>p1. for_each (store_revision E) ?A p = (Inr (), p1)"
    using enc accepted_revs_subset[of "tables p" client Map.empty revs]
    by (intro store_batch_succeeds[OF ff accepted_revs_admissible objects_agree_refl parts(1) cl _
          accepted_revs_distinct[OF ids]]) auto
  then obtain p1 where run: "for_each (store_revision E) ?A p = (Inr (), p1)" by blast
  note all = store_revisions_run[OF run]
  have "store_inv (tables p1)"
    by (rule stored_all_store_inv[OF accepted_revs_admissible all objects_agree_refl parts(1)])
  then have "\<exists>tid p'. create_transaction E client (map rev_id ?A) p1 = (Inr tid, p')"
    using stored_all_rows[OF all] stored_all_fresh[OF all] cl seq parts(2) ff clock
    by (intro create_transaction_succeeds) (auto simp: txns_ok_def store_inv_def)
  with run show ?thesis by (auto simp: store_batch_def and_then_run)
qed

lemma pushed_ids:
  assumes "pushed E client revs t t'"
  shows "distinct (map rev_id (accepted_revs t client Map.empty revs)) \<and>
    revision_uuid ` rev_id ` set (accepted_revs t client Map.empty revs) \<inter> known_ids t = {} \<and>
    known_ids t' = known_ids t \<union> revision_uuid ` rev_id ` set (accepted_revs t client Map.empty revs)"
proof -
  let ?A = "accepted_revs t client Map.empty revs"
  from assms have "?A = [] \<and> t' = t \<or>
      (\<exists>t1. stored_all E ?A t t1 \<and> recorded client (map rev_id ?A) t1 t')"
    by (auto simp: pushed_def Let_def split: if_splits)
  then show ?thesis by (auto dest!: stored_all_fresh simp: recorded_def)
qed

lemma pushed_known:
  assumes "push_revisions E client revs p = (Inr resp, p')"
  shows "known_ids (tables p') = known_ids (tables p) \<union> revision_uuid ` set (resp_accepted resp)"
proof -
  from push_revisions_Inr[OF assms] have "resp = push_answer client revs (tables p)"
    and "pushed E client revs (tables p) (tables p')" by auto
  with pushed_ids[of E client revs "tables p" "tables p'"] show ?thesis by simp
qed

section \<open>Properties\<close>

text \<open>
  C1: A push keeps the invariant of the tables (keys, references, checks, the revision graph
  with the heads as its frontier, parent positions, the transaction log), whatever the batch
  holds, whichever calls to the database fail, and whether or not the answer to the commit
  is lost.
\<close>

theorem push_invariant:
  assumes "db_inv (tables p)"
  shows "db_inv (tables (snd (push_revisions E client revs p)))"
  using assms by (rule push_db_inv)

theorem push_invariant_witness:
  "db_inv (tables (snd (push_revisions sample_env sample_client [sample_root, sample_update] sample_pool)))"
  by (rule push_invariant[OF sample_pool_inv])

text \<open>
  C18: The answer to a push accounts for every revision of the batch exactly once: the ids
  accepted and the ids rejected together are the ids sent, with their multiplicities; no id
  is accepted twice, and no accepted id was already stored.
\<close>

theorem push_answers_batch:
  assumes "push_revisions E client revs p = (Inr resp, p')"
  shows "mset (resp_accepted resp) + mset (map rejected_revision_id (resp_rejected resp)) = mset (map rev_id revs) \<and>
    distinct (resp_accepted resp) \<and>
    revision_uuid ` set (resp_accepted resp) \<inter> known_ids (tables p) = {} \<and>
    known_ids (tables p') = known_ids (tables p) \<union> revision_uuid ` set (resp_accepted resp)"
proof -
  from push_revisions_Inr[OF assms] have "resp = push_answer client revs (tables p)"
    and "pushed E client revs (tables p) (tables p')" by auto
  with pushed_ids[of E client revs "tables p" "tables p'"] show ?thesis
    using verdicts_partition[of "tables p" client Map.empty revs] by simp
qed

theorem push_answers_batch_witness:
  "\<exists>resp p'. push_revisions sample_env sample_client [sample_update, sample_root] sample_pool = (Inr resp, p') \<and>
     resp_accepted resp = [RevisionId 1] \<and>
     mset (resp_accepted resp) + mset (map rejected_revision_id (resp_rejected resp)) =
       mset (map rev_id [sample_update, sample_root])"
proof -
  let ?run = "push_revisions sample_env sample_client [sample_update, sample_root] sample_pool"
  have "fst ?run = Inr \<lparr>resp_transaction_id = TransactionId 1, resp_accepted = [RevisionId 1],
      resp_rejected = [\<lparr>rejected_revision_id = RevisionId 2, rejected_reason = UnknownParent\<rparr>]\<rparr>"
    by code_simp
  then have run: "?run = (Inr \<lparr>resp_transaction_id = TransactionId 1, resp_accepted = [RevisionId 1],
      resp_rejected = [\<lparr>rejected_revision_id = RevisionId 2, rejected_reason = UnknownParent\<rparr>]\<rparr>, snd ?run)"
    by (metis prod.collapse)
  from push_answers_batch[OF run] run show ?thesis by (metis PushResponse.select_convs(2))
qed

text \<open>
  C19: A push accepts a revision exactly when its author is the authenticated client, its id is
  not stored yet, its parents are listed without repetition, and every parent is a revision of
  the same object that is stored or was accepted earlier in the batch.
\<close>

theorem push_accepts_iff:
  assumes "push_revisions E client (xs @ r # ys) p = (Inr resp, p')" "distinct (map rev_id (xs @ r # ys))"
  shows "rev_id r \<in> set (resp_accepted resp) \<longleftrightarrow>
    rev_created_by r = client \<and> revision_uuid (rev_id r) \<notin> known_ids (tables p) \<and> distinct (rev_parents r) \<and>
    (\<forall>q \<in> set (rev_parents r).
       (\<exists>x \<in> set xs. rev_id x = q \<and> q \<in> set (resp_accepted resp) \<and> rev_object_id x = rev_object_id r) \<or>
       object_of (tables p) (revision_uuid q) = Some (object_uuid (rev_object_id r)))"
proof -
  from push_revisions_Inr[OF assms(1)]
  have acc: "resp_accepted resp = map rev_id (accepted_revs (tables p) client Map.empty (xs @ r # ys))"
    by simp
  show ?thesis
    unfolding acc accepted_middle_iff[OF assms(2)] verdict_None_iff
      parent_object_accepted[OF assms(2)] available_def by blast
qed

theorem push_accepts_iff_witness:
  "RevisionId 2 \<in> set (case fst (push_revisions sample_env sample_client ([sample_root] @ sample_update # []) sample_pool) of
     Inr resp \<Rightarrow> resp_accepted resp | Inl _ \<Rightarrow> [])"
proof -
  let ?run = "push_revisions sample_env sample_client ([sample_root] @ sample_update # []) sample_pool"
  have out: "fst ?run = Inr \<lparr>resp_transaction_id = TransactionId 1, resp_accepted = [RevisionId 1, RevisionId 2], resp_rejected = []\<rparr>"
    by code_simp
  then have run: "?run = (Inr \<lparr>resp_transaction_id = TransactionId 1, resp_accepted = [RevisionId 1, RevisionId 2], resp_rejected = []\<rparr>, snd ?run)"
    by (metis prod.collapse)
  have "distinct (map rev_id ([sample_root] @ sample_update # []))" by code_simp
  from push_accepts_iff[OF run this] show ?thesis unfolding out by (simp add: sample_defs)
qed

lemma parents_verdict_Some:
  "parents_verdict t objs ob ps = Some why \<Longrightarrow>
     (why = UnknownParent \<and> (\<exists>q \<in> set ps. parent_object t objs q = None)) \<or>
     (why = MalformedData \<and> (\<exists>q \<in> set ps. \<exists>ob'. parent_object t objs q = Some ob' \<and> ob' \<noteq> ob))"
  by (induction ps) (auto split: option.splits if_splits)

lemma rejections_reason:
  "\<lparr>rejected_revision_id = i, rejected_reason = why\<rparr> \<in> set (rejections t client objs revs) \<Longrightarrow>
     \<exists>xs r ys. revs = xs @ r # ys \<and> rev_id r = i \<and>
       verdict t client (add_objects (accepted_revs t client objs xs) objs) r = Some why"
proof (induction revs arbitrary: objs)
  case (Cons r revs)
  show ?case
  proof (cases "\<lparr>rejected_revision_id = i, rejected_reason = why\<rparr> \<in>
      set (rejections t client (add_objects (accepted_revs t client objs [r]) objs) revs)")
    case True
    from Cons.IH[OF this] obtain xs r' ys where "revs = xs @ r' # ys" "rev_id r' = i"
      "verdict t client (add_objects (accepted_revs t client (add_objects (accepted_revs t client objs [r]) objs) xs)
         (add_objects (accepted_revs t client objs [r]) objs)) r' = Some why" by blast
    then show ?thesis
      using accepted_revs_append[of t client objs "[r]" xs]
      by (intro exI[of _ "r # xs"], intro exI[of _ r'], intro exI[of _ ys])
        (simp del: accepted_revs.simps fun_upd_apply)
  next
    case False
    with Cons.prems have "rev_id r = i" "verdict t client objs r = Some why" by (auto split: option.splits)
    then show ?thesis by (intro exI[of _ "[]"], intro exI[of _ r], intro exI[of _ revs]) simp
  qed
qed simp

lemma parent_object_None:
  assumes "distinct (map rev_id (xs @ ys))"
    and "parent_object t (add_objects (accepted_revs t client Map.empty xs) Map.empty) q = None"
  shows "\<not> available t (map rev_id (accepted_revs t client Map.empty (xs @ ys))) xs q ob"
  using parent_object_accepted[OF assms(1), of t client q ob] assms(2) by simp

text \<open>
  C23: Every rejection states a reason that holds: a duplicate is already stored and comes from
  its author; an unknown parent is neither stored nor accepted earlier in the batch; malformed
  data is a foreign author, a repeated parent, or a parent of another object.
\<close>

theorem push_rejection_reason:
  assumes "push_revisions E client revs p = (Inr resp, p')" "distinct (map rev_id revs)"
    and "\<lparr>rejected_revision_id = i, rejected_reason = why\<rparr> \<in> set (resp_rejected resp)"
  shows "\<exists>xs r ys. revs = xs @ r # ys \<and> rev_id r = i \<and>
    (case why of
       DuplicateRevisionId \<Rightarrow> rev_created_by r = client \<and> revision_uuid i \<in> known_ids (tables p)
     | UnknownParent \<Rightarrow> rev_created_by r = client \<and> revision_uuid i \<notin> known_ids (tables p) \<and>
         (\<exists>q \<in> set (rev_parents r). \<forall>ob. \<not> available (tables p) (resp_accepted resp) xs q ob)
     | MalformedData \<Rightarrow> rev_created_by r \<noteq> client \<or>
         (revision_uuid i \<notin> known_ids (tables p) \<and>
           (\<not> distinct (rev_parents r) \<or>
            (\<exists>q \<in> set (rev_parents r). \<exists>ob. ob \<noteq> rev_object_id r \<and>
               available (tables p) (resp_accepted resp) xs q ob))))"
proof -
  from push_revisions_Inr[OF assms(1)] have resp: "resp = push_answer client revs (tables p)" by blast
  from assms(3) have "\<lparr>rejected_revision_id = i, rejected_reason = why\<rparr> \<in> set (rejections (tables p) client Map.empty revs)"
    by (simp add: resp)
  from rejections_reason[OF this] obtain xs r ys where split: "revs = xs @ r # ys" "rev_id r = i"
    and v: "verdict (tables p) client (add_objects (accepted_revs (tables p) client Map.empty xs) Map.empty) r = Some why"
    by blast
  from assms(2) split have dist: "distinct (map rev_id (xs @ r # ys))" by simp
  have acc: "resp_accepted resp = map rev_id (accepted_revs (tables p) client Map.empty (xs @ r # ys))"
    by (simp add: resp split)
  show ?thesis
    using v split parent_object_accepted[OF dist, of "tables p" client] parent_object_None[OF dist, of "tables p" client]
    by (intro exI[of _ xs], intro exI[of _ r], intro exI[of _ ys])
      (auto simp: verdict_def acc object_of_eq_None_iff split: if_splits dest!: parents_verdict_Some; blast)
qed

theorem push_rejection_reason_witness:
  "\<exists>xs r ys. [sample_update, sample_root] = xs @ r # ys \<and> rev_id r = RevisionId 2 \<and>
     rev_created_by r = sample_client \<and> revision_uuid (RevisionId 2) \<notin> known_ids (tables sample_pool)"
proof -
  let ?run = "push_revisions sample_env sample_client [sample_update, sample_root] sample_pool"
  let ?resp = "\<lparr>resp_transaction_id = TransactionId 1, resp_accepted = [RevisionId 1],
      resp_rejected = [\<lparr>rejected_revision_id = RevisionId 2, rejected_reason = UnknownParent\<rparr>]\<rparr>"
  have "fst ?run = Inr ?resp" by code_simp
  then have run: "?run = (Inr ?resp, snd ?run)" by (metis prod.collapse)
  have dist: "distinct (map rev_id [sample_update, sample_root])" by code_simp
  from push_rejection_reason[OF run dist, of "RevisionId 2" UnknownParent] show ?thesis
    by (simp only: PushResponse.select_convs list.set insert_iff RejectionReason.case simp_thms) blast
qed

text \<open>
  C20: A push that fails reports a database error and has written nothing but a value of the
  transaction sequence, unless the answer to its commit was lost: then it has written
  everything that a successful push of the same batch writes.
\<close>

theorem push_atomic:
  assumes "push_revisions E client revs p = (Inl e, p')"
  shows "(\<exists>d. e = Err_Database d) \<and>
    ((\<exists>n. tables p' = (tables p)\<lparr>txn_sequence := n\<rparr>) \<or>
     ((\<exists>n. pg_commit_lost E n) \<and> e = Err_Database Io \<and>
      (\<exists>t1. stored_all E (accepted_revs (tables p) client Map.empty revs) (tables p) t1 \<and>
         recorded client (resp_accepted (push_answer client revs (tables p))) t1 (tables p'))))"
  using push_revisions_Inl[OF assms]
  by (auto simp: pushed_def Let_def split: if_splits) (metis tables.surjective tables.update_convs(8))

theorem push_atomic_witness:
  "\<exists>n. tables (snd (push_revisions (failing_env 5 False) sample_client [sample_root] sample_pool)) =
     (tables sample_pool)\<lparr>txn_sequence := n\<rparr>"
proof -
  let ?run = "push_revisions (failing_env 5 False) sample_client [sample_root] sample_pool"
  have "fst ?run = Inl (Err_Database Io)" by code_simp
  then have run: "?run = (Inl (Err_Database Io), snd ?run)" by (metis prod.collapse)
  have "\<not> pg_commit_lost (failing_env 5 False) n" for n by (simp add: failing_env_def)
  with push_atomic[OF run] show ?thesis by blast
qed

text \<open>
  C21: A push succeeds when no call to the database fails, the client is registered, the batch
  has no repeated id and the columns accept its values, and the transaction sequence is not
  exhausted.
\<close>

theorem push_total:
  assumes "fault_free E" "\<And>n. pg_timestamptz E (utc_now E n) \<noteq> None"
    and "db_inv (tables p)" "client_uuid client \<in> cl_id ` set (clients (tables p))"
    and "txn_sequence (tables p) \<le> i64_max" "distinct (map rev_id revs)"
    and "\<And>r. r \<in> set revs \<Longrightarrow> encode_row E (row_of_revision r) \<noteq> None"
  shows "\<exists>p'. push_revisions E client revs p = (Inr (push_answer client revs (tables p)), p')"
proof -
  let ?A = "accepted_revs (tables p) client Map.empty revs"
  from reads_run[OF validate_batch_reads validate_batch_never_fails[OF assms(1)]]
  obtain p1 where val: "validate_batch E client revs p = (Inr (judge_batch (tables p) client revs), p1)"
    and p1: "tables p1 = tables p" by blast
  have sel: "selected_revs (tables p) client revs = ?A"
    using distinct_map_filter[OF assms(6)] unfolding selected_revs_def by (rule selected_revs_eq[unfolded selected_revs_def])
  have "\<exists>tid p'. store_batch E client ?A (map rev_id ?A) q = (Inr tid, p')" if "tables q = tables p" for q
    using store_selected_succeeds[OF assms(1,2), of q client revs] assms(3-) that by simp
  then have "\<exists>a p'. in_tx E (store_batch E client ?A (map rev_id ?A)) p1 = (Inr a, p')"
    by (intro in_tx_succeeds[OF assms(1) _ p1])
  then have "\<exists>resp p'. store_accepted E client revs (judge_batch (tables p) client revs) p1 = (Inr resp, p')"
    by (auto simp: store_accepted_judged sel Let_def and_then_def)
  then have "\<exists>resp p'. push_revisions E client revs p = (Inr resp, p')"
    by (auto simp: push_revisions_def and_then_Inr_iff val)
  then show ?thesis using push_revisions_Inr by blast
qed

theorem push_total_witness:
  "\<exists>p'. push_revisions sample_env sample_client [sample_root, sample_update] sample_pool =
     (Inr (push_answer sample_client [sample_root, sample_update] (tables sample_pool)), p')"
proof (rule push_total[OF sample_fault_free _ sample_pool_inv])
  show "distinct (map rev_id [sample_root, sample_update])" by code_simp
  show "client_uuid sample_client \<in> cl_id ` set (clients (tables sample_pool))" by code_simp
qed (auto simp: sample_defs encode_row_def split: option.split)

text \<open>
  C39: A batch that holds two valid root revisions under one id is not answered with a
  rejection: the whole push fails with a database error, and no revision of the batch is
  stored.
\<close>

theorem push_repeated_id_fails:
  assumes "rev_id r = rev_id r'" "rev_lineage r = Root" "rev_lineage r' = Root"
    and "rev_created_by r = client" "rev_created_by r' = client"
    and "revision_uuid (rev_id r) \<notin> known_ids (tables p)"
  shows "\<exists>d. fst (push_revisions E client (xs @ r # ys @ r' # zs) p) = Inl (Err_Database d) \<and>
    revisions (tables (snd (push_revisions E client (xs @ r # ys @ r' # zs) p))) = revisions (tables p)"
proof -
  let ?revs = "xs @ r # ys @ r' # zs"
  let ?A = "accepted_revs (tables p) client Map.empty ?revs"
  have v: "verdict (tables p) client objs r = None" "verdict (tables p) client objs r' = None" for objs
    using assms by (auto simp: verdict_None_iff)
  have "\<exists>as bs cs. ?A = as @ r # bs @ r' # cs"
    by (auto simp: accepted_revs_append v)
  then have "\<not> distinct (map rev_id ?A)" using assms(1) by auto
  then have no: "\<not> pushed E client ?revs (tables p) t'" for t'
    using pushed_ids by blast
  obtain res p' where run: "push_revisions E client ?revs p = (res, p')" by fastforce
  show ?thesis
  proof (cases res)
    case (Inl e)
    with push_revisions_Inl[of E client ?revs p e p'] run no show ?thesis by auto
  next
    case (Inr resp)
    with push_revisions_Inr[of E client ?revs p resp p'] run no show ?thesis by blast
  qed
qed

theorem push_repeated_id_fails_witness:
  "\<exists>d. fst (push_revisions sample_env sample_client ([] @ sample_root # [] @ sample_root # []) sample_pool) =
     Inl (Err_Database d)"
  using push_repeated_id_fails[of sample_root sample_root sample_client sample_pool sample_env "[]" "[]" "[]"]
  by (auto simp: sample_defs)

text \<open>
  C40: The transaction a push reports is its own. Where the push accepts something, the id, read
  as an unsigned number, lies between 1 and the largest signed 64-bit number without wrap-around,
  was not recorded before, and is recorded now in one new transaction of the client that lists
  exactly the accepted revisions in their order. Where it accepts nothing, the id is 0, which is
  no transaction, and the log is as before.
\<close>

theorem push_transaction_own:
  assumes "push_revisions E client revs p = (Inr resp, p')" "db_inv (tables p)"
  defines "n \<equiv> uint (transaction_u64 (resp_transaction_id resp))"
  shows "if resp_accepted resp = []
    then n = 0 \<and> transactions (tables p') = transactions (tables p) \<and>
      transaction_revisions (tables p') = transaction_revisions (tables p)
    else 1 \<le> n \<and> n \<le> i64_max \<and> n \<notin> tx_id ` set (transactions (tables p)) \<and>
      (\<exists>at. transactions (tables p') =
         transactions (tables p) @ [\<lparr>tx_id = n, tx_client_id = client_uuid client, tx_created_at = at\<rparr>]) \<and>
      transaction_revisions (tables p') =
        transaction_revisions (tables p) @ map (\<lambda>i. (n, revision_uuid i)) (resp_accepted resp)"
proof (cases "resp_accepted resp = []")
  case True
  with push_revisions_Inr[OF assms(1)] show ?thesis by (auto simp: n_def pushed_def Let_def)
next
  case False
  let ?A = "accepted_revs (tables p) client Map.empty revs" and ?n = "txn_sequence (tables p)"
  from push_revisions_Inr[OF assms(1)] have resp: "resp = push_answer client revs (tables p)"
    and eff: "pushed E client revs (tables p) (tables p')" by auto
  from False eff obtain t1 where all: "stored_all E ?A (tables p) t1" and rec: "recorded client (map rev_id ?A) t1 (tables p')"
    by (auto simp: resp pushed_def Let_def)
  note same = stored_all_rows[OF all]
  have seq: "1 \<le> ?n" "?n \<le> i64_max" and new: "?n \<notin> tx_id ` set (transactions (tables p))"
    using assms(2) rec same by (auto simp: db_inv_def txns_ok_def recorded_def)
  then have n: "n = ?n" using False by (simp add: n_def resp uint_word_of_int take_bit_int_eq_self)
  show ?thesis
    using False seq new rec same by (auto simp: n recorded_def resp)
qed

theorem push_transaction_own_witness:
  "transaction_revisions (tables (snd (push_revisions sample_env sample_client [sample_root] sample_pool))) =
     transaction_revisions (tables sample_pool) @ [(1, 1)]"
proof -
  let ?run = "push_revisions sample_env sample_client [sample_root] sample_pool"
  let ?resp = "\<lparr>resp_transaction_id = TransactionId 1, resp_accepted = [RevisionId 1], resp_rejected = []\<rparr>"
  have "fst ?run = Inr ?resp" by code_simp
  then have run: "?run = (Inr ?resp, snd ?run)" by (metis prod.collapse)
  from push_transaction_own[OF run sample_pool_inv] show ?thesis by simp
qed

lemma verdict_known:
  "verdict t client objs r = None \<Longrightarrow> revision_uuid (rev_id r) \<in> known_ids t' \<Longrightarrow>
     verdict t' client objs' r = Some DuplicateRevisionId"
  unfolding verdict_def object_of_eq_None_iff by (simp split: if_splits)

lemma accepted_then_known:
  assumes "r \<in> set (accepted_revs t client objs revs)" "revision_uuid (rev_id r) \<in> known_ids t'"
  shows "\<lparr>rejected_revision_id = rev_id r, rejected_reason = DuplicateRevisionId\<rparr> \<in> set (rejections t' client objs' revs)"
  using assms
proof (induction revs arbitrary: objs objs')
  case (Cons x revs)
  show ?case
  proof (cases "r = x \<and> verdict t client objs x = None")
    case True
    with verdict_known[of t client objs r t' objs'] Cons.prems(2)
    have "verdict t' client objs' x = Some DuplicateRevisionId" by simp
    with True show ?thesis by simp
  next
    case False
    with Cons.prems(1) obtain objs1 where "r \<in> set (accepted_revs t client objs1 revs)"
      by (auto split: option.splits)
    from Cons.IH[OF this Cons.prems(2)] show ?thesis by (auto split: option.split)
  qed
qed simp

text \<open>
  C22: Pushing a batch again after it succeeded is safe: every revision accepted the first time
  is now rejected as a duplicate, and where the whole batch was accepted the second push
  writes nothing.
\<close>

theorem push_retry:
  assumes "push_revisions E client revs p = (Inr resp, p')"
    and "push_revisions E' client revs p1 = (Inr resp', p2)" "tables p1 = tables p'"
  shows "(\<forall>i \<in> set (resp_accepted resp).
      \<lparr>rejected_revision_id = i, rejected_reason = DuplicateRevisionId\<rparr> \<in> set (resp_rejected resp')) \<and>
    (resp_rejected resp = [] \<longrightarrow> resp_accepted resp' = [] \<and> tables p2 = tables p')"
proof -
  from push_revisions_Inr[OF assms(1)] have resp: "resp = push_answer client revs (tables p)" by blast
  from push_revisions_Inr[OF assms(2)] have resp': "resp' = push_answer client revs (tables p')"
    and eff: "pushed E' client revs (tables p') (tables p2)" by (auto simp: assms(3))
  have known: "revision_uuid i \<in> known_ids (tables p')" if "i \<in> set (resp_accepted resp)" for i
    using pushed_known[OF assms(1)] that by auto
  have dup: "\<lparr>rejected_revision_id = i, rejected_reason = DuplicateRevisionId\<rparr> \<in> set (resp_rejected resp')"
    if "i \<in> set (resp_accepted resp)" for i
    using that known[OF that] accepted_then_known by (fastforce simp: resp resp')
  have "accepted_revs (tables p') client Map.empty revs = []" if "resp_rejected resp = []"
  proof (rule ccontr)
    assume "accepted_revs (tables p') client Map.empty revs \<noteq> []"
    then obtain r where r: "r \<in> set (accepted_revs (tables p') client Map.empty revs)" by (meson last_in_set)
    have "mset (map rev_id (accepted_revs (tables p) client Map.empty revs)) = mset (map rev_id revs)"
      using verdicts_partition[of "tables p" client Map.empty revs] that by (simp add: resp)
    then have "rev_id ` set (accepted_revs (tables p) client Map.empty revs) = rev_id ` set revs"
      by (metis list.set_map mset_eq_setD)
    with r accepted_revs_subset have "rev_id r \<in> set (resp_accepted resp)" by (fastforce simp: resp)
    with known accepted_revs_unknown[OF r] show False by blast
  qed
  with dup eff show ?thesis by (auto simp: resp' pushed_def)
qed

theorem push_retry_witness:
  "\<lparr>rejected_revision_id = RevisionId 1, rejected_reason = DuplicateRevisionId\<rparr> \<in>
     set (case fst (push_revisions sample_env sample_client [sample_root]
        (snd (push_revisions sample_env sample_client [sample_root] sample_pool))) of
        Inr resp \<Rightarrow> resp_rejected resp | Inl _ \<Rightarrow> [])"
proof -
  let ?run = "push_revisions sample_env sample_client [sample_root] sample_pool"
  let ?run2 = "push_revisions sample_env sample_client [sample_root] (snd ?run)"
  let ?resp = "\<lparr>resp_transaction_id = TransactionId 1, resp_accepted = [RevisionId 1], resp_rejected = []\<rparr>"
  have "fst ?run = Inr ?resp" by code_simp
  then have run: "?run = (Inr ?resp, snd ?run)" by (metis prod.collapse)
  have "isl (fst ?run2) = False" by code_simp
  then obtain resp2 where out: "fst ?run2 = Inr resp2" by (cases "fst ?run2") auto
  then have run2: "?run2 = (Inr resp2, snd ?run2)" by (metis prod.collapse)
  from push_retry[OF run run2] show ?thesis unfolding out by simp
qed

end
