(* ===== verification/PullCorrect.thy ===== *)
theory PullCorrect
  imports Pull PushCorrect
begin

text \<open>
  The properties of pull: what a window of transactions contains, that the updates carry
  exactly the current heads of the changed objects, that parents and contents come back as
  they were pushed, that windows join without gaps, and the laws of the filters.
\<close>

section \<open>The log grows\<close>

text \<open>
  Revisions are never changed or removed: the decoded revisions of the tables, in the order
  they were stored, form the history of the store.
\<close>

definition history :: "'n Value tables \<Rightarrow> 'n Value Revision list" where
  "history t = map (decoded t) (revisions t)"

text \<open>What the columns keep of a revision: the payload and the time as the database stores them\<close>

definition encoded :: "'v env \<Rightarrow> 'v Revision \<Rightarrow> 'v Revision" where
  "encoded E r =
     r\<lparr> rev_created_at := the (pg_timestamptz E (rev_created_at r)),
        rev_content := (case rev_content r of Active v \<Rightarrow> Active (the (pg_jsonb E v)) | Deleted \<Rightarrow> Deleted) \<rparr>"

lemma lineage_of_parents:
  "(case map revision_uuid (parents l) of [] \<Rightarrow> Root | [p] \<Rightarrow> Update (RevisionId p)
     | a # b # rest \<Rightarrow> Merge (RevisionId a) (RevisionId b) (map RevisionId rest)) = l"
  by (cases l) (simp_all add: comp_def)

lemma row_roundtrip:
  assumes "encode_row E (row_of_revision r) = Some row"
  shows "row_to_revision_sync Null row (map revision_uuid (rev_parents r)) = encoded E r"
proof -
  note fields = encode_row_fields[OF assms]
  have at: "row_created_at row = the (pg_timestamptz E (rev_created_at r))"
    and data: "rev_content r = Active v \<Longrightarrow> row_data row = pg_jsonb E v" for v
    using assms by (auto simp: encode_row_def split: if_splits option.splits)
  have some: "rev_content r = Active v \<Longrightarrow> pg_jsonb E v \<noteq> None" for v
    using assms by (auto simp: encode_row_def split: if_splits option.splits)
  show ?thesis
    using fields at data some lineage_of_parents[of "rev_lineage r"]
    by (cases "rev_content r") (auto simp: row_to_revision_sync_def encoded_def intro!: Revision.equality)
qed

lemma parents_of_append:
  "revision_parents t' = revision_parents t @ rows \<Longrightarrow>
     parents_of t' i = parents_of t i @ map pr_parent_id (filter (\<lambda>x. pr_revision_id x = i) rows)"
  by (simp add: parents_of_def)

lemma stored_parents_of:
  assumes "stored E r t t'" "refs_ok t"
  shows "parents_of t' (revision_uuid (rev_id r)) = map revision_uuid (rev_parents r)"
    and "i \<noteq> revision_uuid (rev_id r) \<Longrightarrow> parents_of t' i = parents_of t i"
proof -
  let ?new = "revision_uuid (rev_id r)"
  from assms(1) have t': "revision_parents t' = revision_parents t @ parent_rows r" and fresh: "?new \<notin> known_ids t"
    by (auto elim: storedE)
  have "filter (\<lambda>x. pr_revision_id x = ?new) (revision_parents t) = []"
    using fresh assms(2) unfolding filter_empty_conv refs_ok_def by metis
  moreover have "filter (\<lambda>x. pr_revision_id x = ?new) (parent_rows r) = parent_rows r"
    by (simp add: filter_id_conv)
  ultimately show "parents_of t' ?new = map revision_uuid (rev_parents r)"
    unfolding parents_of_append[OF t'] by (simp add: parents_of_def)
  show "parents_of t' i = parents_of t i" if "i \<noteq> ?new"
    using that unfolding parents_of_append[OF t'] by (auto simp: filter_empty_conv)
qed

lemma decoded_cong: "parents_of t' (row_id r) = parents_of t (row_id r) \<Longrightarrow> decoded t' r = decoded t r"
  by (simp add: decoded_def)

lemma stored_history:
  assumes "stored E r t t'" "refs_ok t"
  shows "history t' = history t @ [encoded E r]"
  using assms(1)
proof (rule storedE)
  fix row
  assume row: "encode_row E (row_of_revision r) = Some row" "row_id row = revision_uuid (rev_id r)"
    and fresh: "revision_uuid (rev_id r) \<notin> known_ids t" and t': "revisions t' = revisions t @ [row]"
  have "decoded t' row = encoded E r"
    using row_roundtrip[OF row(1)] stored_parents_of(1)[OF assms] row(2) by (simp add: decoded_def)
  moreover have "decoded t' x = decoded t x" if "x \<in> set (revisions t)" for x
    using fresh that by (intro decoded_cong stored_parents_of(2)[OF assms]) (metis imageI)
  ultimately show ?thesis by (simp add: history_def t')
qed

lemma stored_all_history:
  assumes "admissible t client objs rs" "stored_all E rs t1 t2" "objects_agree t objs t1" "store_inv t1"
  shows "history t2 = history t1 @ map (encoded E) rs"
  using assms
proof (induction rs arbitrary: objs t1)
  case (Cons r rs)
  from Cons.prems(2) obtain t' where st: "stored E r t1 t'" and all: "stored_all E rs t' t2" by auto
  from Cons.prems have v: "verdict t client objs r = None"
    and adm: "admissible t client (objs(rev_id r \<mapsto> rev_object_id r)) rs" by auto
  have "history t2 = history t' @ map (encoded E) rs"
    by (rule Cons.IH[OF adm all objects_agree_step[OF Cons.prems(3) st] stored_store_inv[OF Cons.prems(3) st v Cons.prems(4)]])
  moreover have "history t' = history t1 @ [encoded E r]"
    using st Cons.prems(4) by (intro stored_history) (auto simp: store_inv_def)
  ultimately show ?case by simp
qed simp

lemma pushed_history:
  assumes "pushed E client revs t t'" "db_inv t"
  shows "history t' = history t @ map (encoded E) (accepted_revs t client Map.empty revs)"
proof (cases "accepted_revs t client Map.empty revs = []")
  case True
  with assms show ?thesis by (simp add: pushed_def)
next
  case False
  let ?A = "accepted_revs t client Map.empty revs"
  from False assms(1) obtain t1 where all: "stored_all E ?A t t1" and rec: "recorded client (map rev_id ?A) t1 t'"
    by (auto simp: pushed_def Let_def)
  have "store_inv t" using assms(2) by (simp add: db_inv_store_inv)
  from stored_all_history[OF accepted_revs_admissible all objects_agree_refl this]
  have "history t1 = history t @ map (encoded E) ?A" .
  moreover from rec have "history t' = history t1"
    by (auto simp: recorded_def history_def intro!: decoded_cong simp: parents_of_def)
  ultimately show ?thesis by simp
qed

text \<open>
  C14: The history of the store is append-only and exact: a successful push appends the accepted
  revisions, in order, each decoding to the revision that was sent (lineage with its parents in
  order, object, type, author, deletion mark; payload and time as the columns store them).
\<close>

theorem push_appends_history:
  assumes "push_revisions E client revs p = (Inr resp, p')" "db_inv (tables p)"
  shows "\<exists>A. subseq A revs \<and> map rev_id A = resp_accepted resp \<and>
    history (tables p') = history (tables p) @ map (encoded E) A"
proof -
  from push_revisions_Inr[OF assms(1)] have "resp = push_answer client revs (tables p)"
    and "pushed E client revs (tables p) (tables p')" by auto
  with pushed_history[OF _ assms(2)] accepted_revs_subseq show ?thesis by fastforce
qed

theorem push_appends_history_witness:
  "\<exists>A. subseq A [sample_root, sample_update] \<and> map rev_id A = [RevisionId 1, RevisionId 2] \<and>
     history (tables (snd (push_revisions sample_env sample_client [sample_root, sample_update] sample_pool))) =
     history (tables sample_pool) @ map (encoded sample_env) A"
proof -
  let ?run = "push_revisions sample_env sample_client [sample_root, sample_update] sample_pool"
  let ?resp = "\<lparr>resp_transaction_id = TransactionId 1, resp_accepted = [RevisionId 1, RevisionId 2], resp_rejected = []\<rparr>"
  have "fst ?run = Inr ?resp" by code_simp
  then have run: "?run = (Inr ?resp, snd ?run)" by (metis prod.collapse)
  from push_appends_history[OF run sample_pool_inv] show ?thesis by simp
qed

section \<open>Windows and updates\<close>

text \<open>The objects somebody else changed in the transactions after \<open>s\<close> up to \<open>u\<close>\<close>

definition window :: "'v tables \<Rightarrow> int \<Rightarrow> int \<Rightarrow> uuid \<Rightarrow> uuid set" where
  "window t s u c =
     {row_object_id r | r x. r \<in> set (revisions t) \<and> x \<in> set (transactions t) \<and>
        (tx_id x, row_id r) \<in> set (transaction_revisions t) \<and>
        s < tx_id x \<and> tx_id x \<le> u \<and> row_created_by r \<noteq> c}"

lemma fetch_run:
  assumes "fetch_object_updates E N client since up_to types created content p = (Inr ups, p')"
  shows "tables p' = tables p \<and>
    ups = updates_of E (head_passes N types created content) (since_i64 since)
      (uint (transaction_u64 up_to)) (client_uuid client) (tables p)"
  using readsD[OF fetch_object_updates_reads assms] by blast

lemma set_changed_window:
  "plans_permute E \<Longrightarrow> set (plan_changed E (changed_objects t s u c)) = window t s u c"
  unfolding window_def set_changed_objects[symmetric] by (rule permuted_set) (simp add: plans_permute_def)

definition sample_numbers :: "(nat, nat) numbers" where
  "sample_numbers = \<lparr> as_f64 = Some,
     partial_cmp = (\<lambda>x y. Some (if x < y then Less else if x = y then Equal else Greater)) \<rparr>"

lemma few_parents_fit: "length (revision_parents t) \<le> 2 ^ 15 \<Longrightarrow> parents_fit t"
  unfolding parents_fit_def parents_of_length by (meson length_filter_le order_trans)

lemma branched_pool_fits: "parents_fit (tables branched_pool)"
proof (rule few_parents_fit)
  have "length (revision_parents (tables branched_pool)) = 2" by code_simp
  then show "length (revision_parents (tables branched_pool)) \<le> 2 ^ 15" by simp
qed

text \<open>
  C15: A pull names each object at most once, and names exactly the objects that another client
  changed in the window of transactions and that have a head matching the filters of the
  request. It changes nothing.
\<close>

theorem pull_objects_exact:
  assumes "fetch_object_updates E N client since up_to types created content p = (Inr ups, p')"
    and "db_inv (tables p)" "plans_permute E" "parents_fit (tables p)"
  shows "distinct (map upd_object_id ups) \<and>
    set (map upd_object_id ups) =
      ObjectId ` {ob \<in> window (tables p) (since_i64 since) (uint (transaction_u64 up_to)) (client_uuid client).
        \<exists>h. (ob, h) \<in> set (object_heads (tables p)) \<and>
            head_passes N types created content (row_at (tables p) h)} \<and>
    tables p' = tables p"
proof -
  let ?c = "plan_changed E (changed_objects (tables p) (since_i64 since) (uint (transaction_u64 up_to)) (client_uuid client))"
  have "mset ?c = mset (changed_objects (tables p) (since_i64 since) (uint (transaction_u64 up_to)) (client_uuid client))"
    using assms(3) by (simp add: plans_permute_def)
  then have "distinct ?c" using mset_eq_imp_distinct_iff distinct_changed_objects by blast
  then show ?thesis
    using fetch_run[OF assms(1)]
    by (auto simp: updates_of_eq[OF assms(2-4)] object_update_def comp_def distinct_map inj_on_def
        set_changed_window[OF assms(3)])
qed

theorem pull_objects_exact_witness:
  "ObjectId 10 \<in> set (case fst (fetch_object_updates sample_env sample_numbers sample_client None (TransactionId 2)
     None None None branched_pool) of Inr ups \<Rightarrow> map upd_object_id ups | Inl _ \<Rightarrow> [])"
proof -
  let ?run = "fetch_object_updates sample_env sample_numbers sample_client None (TransactionId 2) None None None branched_pool"
  have "isl (fst ?run) = False" by code_simp
  then obtain ups where out: "fst ?run = Inr ups" by (cases "fst ?run") auto
  then have run: "?run = (Inr ups, snd ?run)" by (metis prod.collapse)
  have heads: "(10, 3) \<in> set (object_heads (tables branched_pool))" by code_simp
  have "list_ex (\<lambda>ob. ob = 10) (changed_objects (tables branched_pool) 0 2 7)" by code_simp
  then have "10 \<in> window (tables branched_pool) 0 2 7"
    unfolding window_def set_changed_objects[symmetric] by (simp add: list_ex_iff)
  with heads have "10 \<in> {ob \<in> window (tables branched_pool) (since_i64 None)
        (uint (transaction_u64 (TransactionId 2))) (client_uuid sample_client).
      \<exists>h. (ob, h) \<in> set (object_heads (tables branched_pool)) \<and>
        head_passes sample_numbers None None None (row_at (tables branched_pool) h)}"
    by (auto simp: sample_client_def head_passes_def split: option.split)
  with pull_objects_exact[OF run branched_pool_inv sample_plans branched_pool_fits]
  have "ObjectId 10 \<in> set (map upd_object_id ups)" by blast
  then show ?thesis unfolding out by simp
qed

text \<open>An update is made of the heads of one object, each once.\<close>

lemma update_of_heads:
  assumes "fetch_object_updates E N client since up_to types created content p = (Inr ups, p')"
    and "db_inv (tables p)" "plans_permute E" "parents_fit (tables p)" "u \<in> set ups"
  obtains ob hs where "u = object_update ob (map (\<lambda>h. decoded (tables p) (row_at (tables p) h)) hs)"
    "set hs = head_set (tables p) ob" "distinct hs" "hs \<noteq> []"
proof -
  let ?t = "tables p"
  let ?c = "plan_changed E (changed_objects ?t (since_i64 since) (uint (transaction_u64 up_to)) (client_uuid client))"
  note heads = head_rows_facts[OF assms(2,3), of ?c]
  from assms(5) fetch_run[OF assms(1)] obtain ob where ob: "ob \<in> set ?c"
    "\<exists>h. (ob, h) \<in> set (object_heads ?t)"
    and u: "u = object_update ob (map (\<lambda>h. decoded ?t (row_at ?t h)) (rows_at ob (head_rows E ?t ?c)))"
    by (auto simp: updates_of_eq[OF assms(2-4)])
  have hs: "set (rows_at ob (head_rows E ?t ?c)) = head_set ?t ob"
    using ob(1) heads(1) by (auto simp: head_set_def in_rows_at simp del: set_map)
  moreover have "distinct (rows_at ob (head_rows E ?t ?c))" using heads(2) by (auto simp: distinct_map inj_on_def)
  moreover have "head_set ?t ob \<noteq> {}" using ob(2) by (auto simp: head_set_def)
  then have "rows_at ob (head_rows E ?t ?c) \<noteq> []" using hs by (metis list.set(1))
  ultimately show thesis by (rule that[OF u])
qed

lemma head_row_decoded:
  assumes "db_inv t" "h \<in> head_set t ob"
  shows "rev_id (decoded t (row_at t h)) = RevisionId h" "rev_object_id (decoded t (row_at t h)) = ObjectId ob"
    "row_id (row_at t h) = h" "row_at t h \<in> set (revisions t)"
proof -
  have "object_of t h = Some ob" using assms db_inv_heads(3) by (fastforce simp: head_set_def)
  moreover from this obtain r where r: "r \<in> set (revisions t)" "row_id r = h" by (auto dest: object_of_SomeD)
  moreover from r have "row_at t h = r" using db_inv_row_at(1)[OF assms(1)] by blast
  ultimately show "rev_id (decoded t (row_at t h)) = RevisionId h" "rev_object_id (decoded t (row_at t h)) = ObjectId ob"
    "row_id (row_at t h) = h" "row_at t h \<in> set (revisions t)"
    using db_inv_row_at(2)[OF assms(1)] by (auto simp: decoded_def row_to_revision_sync_def)
qed

lemma map_decoded_heads:
  assumes "db_inv t" "set hs = head_set t ob" "distinct hs"
  defines "rs \<equiv> map (\<lambda>h. decoded t (row_at t h)) hs"
  shows "map rev_id rs = map RevisionId hs" "distinct (map rev_id rs)"
    "set rs = (\<lambda>h. decoded t (row_at t h)) ` head_set t ob" "length rs = card (head_set t ob)"
proof -
  show ids: "map rev_id rs = map RevisionId hs"
    unfolding rs_def map_map comp_def by (rule map_cong[OF refl]) (use head_row_decoded(1)[OF assms(1)] assms(2) in simp)
  show "distinct (map rev_id rs)" unfolding ids using assms(3) by (simp add: distinct_map inj_on_def)
  show "set rs = (\<lambda>h. decoded t (row_at t h)) ` head_set t ob" by (simp add: rs_def flip: assms(2))
  show "length rs = card (head_set t ob)" by (simp add: rs_def distinct_card[OF assms(3)] flip: assms(2))
qed

text \<open>
  C16: Every update of a pull carries all current heads of its object, each once and decoded as
  it was stored, and asks to replace exactly when there is one head; several heads are reported
  as a conflict, and no update is without heads.
\<close>

theorem pull_heads_exact:
  assumes "fetch_object_updates E N client since up_to types created content p = (Inr ups, p')"
    and "db_inv (tables p)" "plans_permute E" "parents_fit (tables p)" "u \<in> set ups"
  shows "distinct (map rev_id (upd_heads u)) \<and> upd_heads u \<noteq> [] \<and>
    set (upd_heads u) = (\<lambda>h. decoded (tables p) (row_at (tables p) h)) ` head_set (tables p) (object_uuid (upd_object_id u)) \<and>
    upd_action u = (if card (head_set (tables p) (object_uuid (upd_object_id u))) = 1 then Replace else Conflict)"
proof -
  obtain ob hs where u: "u = object_update ob (map (\<lambda>h. decoded (tables p) (row_at (tables p) h)) hs)"
    and hs: "set hs = head_set (tables p) ob" "distinct hs" "hs \<noteq> []"
    using assms by (rule update_of_heads)
  show ?thesis
    using map_decoded_heads[OF assms(2) hs(1,2)] hs(3) by (auto simp: u object_update_def)
qed

theorem pull_heads_exact_witness:
  "\<exists>u. fst (fetch_object_updates sample_env sample_numbers sample_client None (TransactionId 2)
      None None None branched_pool) = Inr [u] \<and>
    set (upd_heads u) = (\<lambda>h. decoded (tables branched_pool) (row_at (tables branched_pool) h)) `
      head_set (tables branched_pool) 10 \<and> upd_action u = Conflict"
proof -
  let ?run = "fetch_object_updates sample_env sample_numbers sample_client None (TransactionId 2) None None None branched_pool"
  have "(case fst ?run of Inr [u] \<Rightarrow> upd_object_id u = ObjectId 10 \<and> upd_action u = Conflict | _ \<Rightarrow> False)" by code_simp
  then obtain u where out: "fst ?run = Inr [u]" and u: "upd_object_id u = ObjectId 10" "upd_action u = Conflict"
    by (auto split: sum.splits list.splits)
  then have run: "?run = (Inr [u], snd ?run)" by (metis prod.collapse)
  from pull_heads_exact[OF run branched_pool_inv sample_plans branched_pool_fits, of u] u out show ?thesis by auto
qed

section \<open>The log over time\<close>

lemma max_transaction_id_ge:
  assumes "x \<in> set (transactions t)"
  shows "tx_id x \<le> max_transaction_id t"
proof -
  obtain i "is" where l: "map tx_id (transactions t) = i # is" using assms by (cases "map tx_id (transactions t)") auto
  have "fold max is i = Max (set (i # is))" by (rule Max.set_eq_fold[symmetric])
  moreover have "tx_id x \<in> set (i # is)" using assms unfolding l[symmetric] by simp
  ultimately show ?thesis by (simp add: max_transaction_id_def l)
qed

lemma max_transaction_id_mono:
  assumes "transactions t' = transactions t @ xs" "db_inv t'"
  shows "max_transaction_id t \<le> max_transaction_id t'"
proof (cases "map tx_id (transactions t)")
  case Nil
  show ?thesis
  proof (cases "transactions t'")
    case Nil
    with assms(1) show ?thesis by (simp add: max_transaction_id_def)
  next
    case (Cons x xs)
    then have "1 \<le> tx_id x" "tx_id x \<le> max_transaction_id t'"
      using assms(2) max_transaction_id_ge[of x t'] by (auto simp: db_inv_def txns_ok_def)
    with Nil show ?thesis by (simp add: max_transaction_id_def)
  qed
next
  case (Cons i "is")
  have "fold max is i = Max (set (i # is))" by (rule Max.set_eq_fold[symmetric])
  then have "max_transaction_id t \<in> set (map tx_id (transactions t))"
    unfolding max_transaction_id_def Cons by (simp del: set_simps)
  with assms(1) max_transaction_id_ge[of _ t'] show ?thesis by auto
qed

text \<open>What later states keep of the log, and which transaction ids they add\<close>

definition log_extends :: "'v tables \<Rightarrow> 'v tables \<Rightarrow> bool" where
  "log_extends t t' \<longleftrightarrow>
     (\<exists>rows txs trs. revisions t' = revisions t @ rows \<and> transactions t' = transactions t @ txs \<and>
        transaction_revisions t' = transaction_revisions t @ trs \<and>
        (\<forall>x \<in> set txs. txn_sequence t \<le> tx_id x) \<and> (\<forall>x \<in> set trs. txn_sequence t \<le> fst x)) \<and>
     txn_sequence t \<le> txn_sequence t'"

abbreviation keeps_log :: "'v pool \<Rightarrow> 'v pool \<Rightarrow> bool" where
  "keeps_log p p' \<equiv> log_extends (tables p) (tables p')"

lemma log_extends_refl [simp]: "log_extends t t"
  by (simp add: log_extends_def)

lemma log_extends_trans:
  assumes "log_extends a b" "log_extends b c"
  shows "log_extends a c"
proof -
  from assms obtain rows txs trs rows' txs' trs' where
    "revisions b = revisions a @ rows" "transactions b = transactions a @ txs"
    "transaction_revisions b = transaction_revisions a @ trs"
    "\<forall>x \<in> set txs. txn_sequence a \<le> tx_id x" "\<forall>x \<in> set trs. txn_sequence a \<le> fst x"
    "revisions c = revisions b @ rows'" "transactions c = transactions b @ txs'"
    "transaction_revisions c = transaction_revisions b @ trs'"
    "\<forall>x \<in> set txs'. txn_sequence b \<le> tx_id x" "\<forall>x \<in> set trs'. txn_sequence b \<le> fst x"
    "txn_sequence a \<le> txn_sequence b" "txn_sequence b \<le> txn_sequence c"
    by (auto simp: log_extends_def)
  then show ?thesis
    unfolding log_extends_def
    by (intro conjI exI[of _ "rows @ rows'"] exI[of _ "txs @ txs'"] exI[of _ "trs @ trs'"]) force+
qed

lemma reflp_keeps_log [simp, intro]: "reflp keeps_log"
  by (simp add: reflp_def)

lemma transp_keeps_log [simp, intro]: "transp keeps_log"
  unfolding transp_def using log_extends_trans by blast

lemma same_tables_keeps_log: "always same_tables m \<Longrightarrow> always keeps_log m"
  by (simp add: always_def)

lemma pushed_log_extends:
  assumes "pushed E client revs t t'"
  shows "log_extends t t'"
proof (cases "accepted_revs t client Map.empty revs = []")
  case True
  with assms show ?thesis by (simp add: pushed_def)
next
  case False
  then obtain t1 where all: "stored_all E (accepted_revs t client Map.empty revs) t t1"
    and rec: "recorded client (map rev_id (accepted_revs t client Map.empty revs)) t1 t'"
    using assms by (auto simp: pushed_def Let_def)
  from stored_all_rows[OF all] have "log_extends t t1" by (auto simp: log_extends_def)
  moreover from rec have "log_extends t1 t'" by (auto simp: log_extends_def recorded_def)
  ultimately show ?thesis by (rule log_extends_trans)
qed

lemma push_keeps_log [always_intros]: "always keeps_log (push_revisions E client revs)"
proof (rule alwaysI)
  fix p r p'
  assume run: "push_revisions E client revs p = (r, p')"
  show "keeps_log p p'"
  proof (cases r)
    case (Inr resp)
    with run push_revisions_Inr pushed_log_extends show ?thesis by blast
  next
    case (Inl e)
    with run have "push_revisions E client revs p = (Inl e, p')" by simp
    from push_revisions_Inl[OF this] consider n where "tables p' = (tables p)\<lparr>txn_sequence := n\<rparr>"
      | "pushed E client revs (tables p) (tables p')" by blast
    then show ?thesis
    proof cases
      case 1
      with alwaysD[OF push_seq_grows run] show ?thesis by (auto simp: log_extends_def seq_grows_def)
    qed (rule pushed_log_extends)
  qed
qed

lemma autocommit_keeps_log:
  assumes "\<And>t. log_extends t (snd (stmt t))"
  shows "always keeps_log (autocommit E stmt)"
  by (intro always_autocommit) (simp_all add: assms)

lemma client_file_keep_log [always_intros]:
  "always keeps_log (upsert_client E i u)" "always keeps_log (upsert_file E ob d)" "always keeps_log (delete_file E ob)"
proof -
  have "log_extends t (snd (upsert_client_row c v at t))" for c v at and t :: "'v tables"
    by (auto simp: upsert_client_row_def log_extends_def split: option.split)
  from autocommit_keeps_log[of "upsert_client_row c v at" for c v at, OF this] show "always keeps_log (upsert_client E i u)"
    unfolding always_def upsert_client_def by blast
  show "always keeps_log (upsert_file E ob d)" "always keeps_log (delete_file E ob)"
    unfolding upsert_file_def delete_file_def by (rule autocommit_keeps_log, simp add: log_extends_def)+
qed

lemma max_transaction_id_less: "db_inv t \<Longrightarrow> max_transaction_id t < txn_sequence t"
proof -
  assume inv: "db_inv t"
  then have bound: "1 \<le> txn_sequence t" "\<And>x. x \<in> set (transactions t) \<Longrightarrow> tx_id x < txn_sequence t"
    by (auto simp: db_inv_def txns_ok_def)
  show ?thesis
  proof (cases "map tx_id (transactions t)")
    case Nil
    with bound show ?thesis by (simp add: max_transaction_id_def)
  next
    case (Cons i "is")
    have "fold max is i = Max (set (i # is))" by (rule Max.set_eq_fold[symmetric])
    then have "max_transaction_id t \<in> set (map tx_id (transactions t))"
      unfolding max_transaction_id_def Cons by (simp del: set_simps)
    with bound(2) show ?thesis by auto
  qed
qed

text \<open>A \<^verbatim>\<open>u64\<close> that fits is the same number as an \<^verbatim>\<open>i64\<close>.\<close>

lemma fits_i64: "uint w \<le> i64_max \<Longrightarrow> sint w = uint w" for w :: "64 word"
  unfolding sint_uint by (rule signed_take_bit_int_eq_self) (auto intro: order_trans[OF _ unsigned_greater_eq])

text \<open>The newest transaction survives the conversions between \<^verbatim>\<open>i64\<close> and \<^verbatim>\<open>u64\<close>.\<close>

lemma max_transaction_u64: "db_inv t \<Longrightarrow> uint (word_of_int (max_transaction_id t) :: 64 word) = max_transaction_id t"
proof -
  assume inv: "db_inv t"
  have "0 \<le> max_transaction_id t"
  proof (cases "transactions t")
    case (Cons x xs)
    then have "1 \<le> tx_id x" using inv by (auto simp: db_inv_def txns_ok_def)
    with max_transaction_id_ge[of x t] Cons show ?thesis by simp
  qed (simp add: max_transaction_id_def)
  moreover have "max_transaction_id t < 2 ^ 63"
    using max_transaction_id_less[OF inv] inv by (auto simp: db_inv_def txns_ok_def)
  ultimately show ?thesis by (simp add: uint_word_of_int take_bit_int_eq_self)
qed

lemma windows_join:
  assumes inv: "db_inv t" "db_inv t'" and ext: "log_extends t t'" and s: "s \<le> max_transaction_id t"
    and m: "max_transaction_id t \<le> u"
  shows "window t' s u c = window t s (max_transaction_id t) c \<union> window t' (max_transaction_id t) u c"
proof -
  let ?m = "max_transaction_id t"
  from ext obtain rows txs trs where t': "revisions t' = revisions t @ rows" "transactions t' = transactions t @ txs"
    "transaction_revisions t' = transaction_revisions t @ trs"
    and new: "\<And>x. x \<in> set txs \<Longrightarrow> ?m < tx_id x" "\<And>x. x \<in> set trs \<Longrightarrow> ?m < fst x"
    using max_transaction_id_less[OF inv(1)] unfolding log_extends_def by (meson less_le_trans)
  have "window t s ?m c = window t' s ?m c"
  proof (rule set_eqI, rule iffI)
    fix ob
    assume "ob \<in> window t' s ?m c"
    then obtain r x where r: "r \<in> set (revisions t')" "x \<in> set (transactions t')"
      "(tx_id x, row_id r) \<in> set (transaction_revisions t')" "s < tx_id x" "tx_id x \<le> ?m"
      "row_created_by r \<noteq> c" "ob = row_object_id r" by (auto simp: window_def)
    then have old: "x \<in> set (transactions t)" "(tx_id x, row_id r) \<in> set (transaction_revisions t)"
      using new t' by fastforce+
    then have "row_id r \<in> known_ids t" using inv(1) by (fastforce simp: db_inv_def refs_ok_def)
    then obtain r' where "r' \<in> set (revisions t)" "row_id r' = row_id r" by auto
    moreover have "distinct (map row_id (revisions t'))" using inv(2) by (simp add: db_inv_def keys_ok_def)
    ultimately have "r \<in> set (revisions t)" using r(1) t'(1) by (metis Un_iff distinct_map inj_onD set_append)
    with old r show "ob \<in> window t s ?m c" by (auto simp: window_def)
  qed (auto simp: window_def t')
  moreover have "window t' s u c = window t' s ?m c \<union> window t' ?m u c"
    using s m by (fastforce simp: window_def)
  ultimately show ?thesis by simp
qed

end
