(* ===== verification/ServerCorrect.thy ===== *)
theory ServerCorrect
  imports Server PullCorrect
begin

text \<open>
  The server as a whole: which requests reach a handler, who may write, and what holds in every
  state the server can reach by serving requests, whatever the requests are and whichever
  database calls fail.
\<close>

section \<open>Handlers and the invariants\<close>

lemma in_tx_same_tables:
  assumes "always same_tables m"
  shows "always same_tables (in_tx E m)"
  unfolding always_def
proof
  fix p :: "'a pool"
  let ?p1 = "p\<lparr>calls := Suc (calls p)\<rparr>"
  have "tables (snd (m ?p1)) = tables p" using assms by (simp add: always_def)
  then show "tables (snd (in_tx E m p)) = tables p"
    by (cases "m ?p1") (auto simp: in_tx_def sql_def ok_def Let_def rollback_def split: sum.split)
qed

lemma fetch_object_updates_same_tables [always_intros]:
  "always same_tables (fetch_object_updates E N client since up_to types created content)"
  unfolding fetch_object_updates_def assemble_updates_def select_changed_objects_def select_heads_def
  by (auto intro!: always_intros)

text \<open>The requests that only read\<close>

fun reads_only :: "'v Endpoint \<Rightarrow> bool" where
  "reads_only (Post_Changes _) = False"
| "reads_only (Post_File _ _) = False"
| "reads_only (Delete_File _) = False"
| "reads_only _ = True"

lemma dispatch_same_tables: "reads_only e \<Longrightarrow> always same_tables (dispatch E N auth e)"
  by (cases e)
    (auto simp: whoami_def pull_changes_def get_object_def get_file_handler_def
      intro!: always_intros in_tx_same_tables)

lemma dispatch_always:
  assumes "reflp R" "transp R" "\<And>m :: ('n Value pool, ServerError, 'n Value Response) fallible. always same_tables m \<Longrightarrow> always R m"
    and "\<And>c revs. always R (push_revisions E c revs)"
    and "\<And>i d. always R (upsert_file E i d)" "\<And>i. always R (delete_file E i)"
  shows "always R (dispatch E N auth (e :: 'n Value Endpoint))"
proof (cases "reads_only e")
  case True
  then show ?thesis by (intro assms(3) dispatch_same_tables)
next
  case False
  then show ?thesis
    using assms by (cases e) (auto simp: push_changes_def upload_file_def delete_file_handler_def intro!: always_intros)
qed

lemma router_always:
  fixes E :: "'n Value env"
  assumes "reflp R" "transp R" "\<And>m :: ('n Value pool, ServerError, 'n Value Response) fallible. always same_tables m \<Longrightarrow> always R m"
    and "\<And>c revs. always R (push_revisions E c revs)" "\<And>i u. always R (upsert_client E i u)"
    and "\<And>i d. always R (upsert_file E i d)" "\<And>i. always R (delete_file E i)"
  shows "R p (snd (router E N store req p))"
proof -
  have inner: "R q (snd (routed E N auth req q))" for auth q
    using dispatch_always[OF assms(1-4,6,7), of N auth "endpoint req"]
    by (auto simp: routed_def always_def split: prod.split sum.split) (metis snd_conv)+
  show ?thesis
  proof (cases "snd (router E N store req p) = p")
    case True
    with assms(1) show ?thesis by (simp add: reflp_def)
  next
    case False
    then obtain info r q where up: "upsert_client E (auth_client_id info) (auth_user_id info) p = (r, q)"
      and out: "snd (router E N store req p) = q \<or> snd (router E N store req p) = snd (routed E N info req q)"
      by (auto simp: router_def auth_call_def split: option.splits sum.splits AuthError.splits prod.splits)
    from alwaysD[OF assms(5) up] have "R p q" .
    with out inner[of q info] assms(2) show ?thesis by (metis transpD)
  qed
qed

lemma router_keeps_inv: "keeps_inv p (snd (router E N store req p))"
  by (rule router_always) (auto intro: always_intros same_tables_keeps_inv)

lemma router_keeps_log: "keeps_log p (snd (router E N store req p))"
  by (rule router_always) (auto intro: always_intros same_tables_keeps_log)

section \<open>Reachable states\<close>

inductive served :: "('n, 'f) numbers \<Rightarrow> 'n Value pool \<Rightarrow> 'n Value pool \<Rightarrow> bool" for N where
  request: "router E N store req p = (resp, p') \<Longrightarrow> served N p p'"

inductive_cases servedE: "served N p p'"

inductive reachable :: "('n, 'f) numbers \<Rightarrow> 'n Value pool \<Rightarrow> bool" for N where
  start: "tables p = empty_tables \<Longrightarrow> reachable N p"
| step: "reachable N p \<Longrightarrow> served N p p' \<Longrightarrow> reachable N p'"

lemma served_keeps_inv: "served N p p' \<Longrightarrow> db_inv (tables p) \<Longrightarrow> db_inv (tables p')"
  by (elim servedE) (metis router_keeps_inv keeps_inv_def snd_conv)

lemma reachable_inv: "reachable N p \<Longrightarrow> db_inv (tables p)"
  by (induction rule: reachable.induct) (auto simp: db_inv_empty intro: served_keeps_inv)

section \<open>Properties\<close>

definition sample_auth :: provider where
  "sample_auth ip =
     (if ip = V4 [10, 0, 0, 1]
      then Inr \<lparr>auth_client_id = sample_client, auth_user_id = UserId 70, auth_roles = []\<rparr>
      else if ip = V4 [10, 0, 0, 2]
      then Inr \<lparr>auth_client_id = other_client, auth_user_id = UserId 80, auth_roles = []\<rparr>
      else Inl Unauthenticated)"

definition sample_store :: ServerStore where
  "sample_store = trust_forwarded_for (ServerStore_new sample_auth)"

definition sample_request :: "nat Value Endpoint \<Rightarrow> nat Value Request" where
  "sample_request e = \<lparr> peer = None, req_headers = [(''x-forwarded-for'', ''10.0.0.1, 192.168.0.1'')], endpoint = e \<rparr>"

definition empty_pool :: "nat Value pool" where
  "empty_pool = \<lparr> tables = empty_tables, calls = 0 \<rparr>"

text \<open>
  What the invariant says of heads: they are the revisions without children, the parent relation
  has no cycle and stays within one object, no head is an ancestor of another revision, and
  every revision is a head or an ancestor of a head of its object.
\<close>

lemma db_inv_graph:
  assumes "db_inv t"
  shows "head_set t ob = {i. object_of t i = Some ob \<and> (\<forall>c. (i, c) \<notin> parent_edges t)}"
    and "acyclic (parent_edges t)"
    and "\<forall>(q, c) \<in> parent_edges t. object_of t q \<noteq> None \<and> object_of t c = object_of t q"
    and "\<forall>h \<in> head_set t ob. \<forall>c. (h, c) \<notin> (parent_edges t)\<^sup>+"
    and "\<forall>i. object_of t i = Some ob \<longrightarrow> (\<exists>h \<in> head_set t ob. (i, h) \<in> (parent_edges t)\<^sup>*)"
proof -
  have ok: "graph_ok (object_of t) (parent_edges t) (head_set t)" using assms by (simp add: db_inv_def)
  have fin: "finite (parent_edges t)" by (simp add: parent_edges_def)
  from graph_ok_heads[OF ok, of ob] have heads: "head_set t ob = frontier (object_of t) (parent_edges t) ob" .
  show "head_set t ob = {i. object_of t i = Some ob \<and> (\<forall>c. (i, c) \<notin> parent_edges t)}"
    unfolding heads frontier_def ..
  show "acyclic (parent_edges t)" using ok by (simp add: graph_ok_def ranked_acyclic)
  show "\<forall>(q, c) \<in> parent_edges t. object_of t q \<noteq> None \<and> object_of t c = object_of t q"
    using ok unfolding graph_ok_def by (elim conjE)
  show "\<forall>h \<in> head_set t ob. \<forall>c. (h, c) \<notin> (parent_edges t)\<^sup>+"
    unfolding heads by (intro ballI allI frontier_maximal)
  show "\<forall>i. object_of t i = Some ob \<longrightarrow> (\<exists>h \<in> head_set t ob. (i, h) \<in> (parent_edges t)\<^sup>*)"
    by (intro allI impI below_some_head[OF ok fin])
qed

text \<open>No handler answers with 401 or turns an error into one; what axum answers itself is given.\<close>

lemma dispatch_not_401:
  assumes "\<And>r. e = Answered_By_Axum r \<Longrightarrow> status r \<noteq> 401"
  shows "case fst (dispatch E N auth e p) of Inr resp \<Rightarrow> status resp \<noteq> 401 | Inl x \<Rightarrow> status (into_response x) \<noteq> 401"
proof (cases "fst (dispatch E N auth e p)")
  case (Inl x)
  then show ?thesis by (cases x) (simp_all add: into_response_def respond_def)
next
  case (Inr resp)
  then obtain p' where "dispatch E N auth e p = (Inr resp, p')" by (metis prod.collapse)
  then have "status resp \<noteq> 401"
    using assms
    by (cases e) (auto simp: whoami_def push_changes_def pull_changes_def get_object_def get_file_handler_def upload_file_def
        delete_file_handler_def and_then_Inr_iff map_err_Inr_iff ok_def err_def respond_def
        split: option.splits if_splits)
  with Inr show ?thesis by simp
qed

text \<open>
  C24: A request is answered with status 401 exactly when its address cannot be determined or the
  provider does not authenticate it; such a request changes nothing, and neither does one for
  which the provider itself fails, which is answered with status 500 and says nothing of the
  cause. Whatever changes the database was authenticated. (Answers of axum, for requests no
  handler takes, are given; they are never a 401.)
\<close>

theorem auth_gate:
  fixes store :: ServerStore and req :: "'n Value Request"
  assumes "\<And>r. endpoint req = Answered_By_Axum r \<Longrightarrow> status r \<noteq> 401"
  defines "ip \<equiv> extract_ip req (store_ip_source store)"
  shows "(status (fst (router E N store req p)) = 401 \<longleftrightarrow>
      ip = None \<or> (\<exists>a. ip = Some a \<and> store_auth store a = Inl Unauthenticated)) \<and>
    (status (fst (router E N store req p)) = 401 \<longrightarrow>
      router E N store req p = (\<lparr>status = 401, body = Json_Error ''unauthenticated''\<rparr>, p)) \<and>
    (\<forall>a m. ip = Some a \<and> store_auth store a = Inl (Internal m) \<longrightarrow>
      router E N store req p = (\<lparr>status = 500, body = Json_Error ''internal server error''\<rparr>, p)) \<and>
    (snd (router E N store req p) \<noteq> p \<longrightarrow> (\<exists>a info. ip = Some a \<and> store_auth store a = Inr info))"
proof -
  have authenticated: "status (fst (router E N store req p)) \<noteq> 401"
    if who: "ip = Some a" "store_auth store a = Inr info" for a info
  proof (cases "upsert_client E (auth_client_id info) (auth_user_id info) p")
    case (Pair r q)
    have "status (fst (routed E N info req q)) \<noteq> 401"
      using dispatch_not_401[where e = "endpoint req" and E = E and N = N and auth = info and p = q] assms(1)
      by (auto simp: routed_def split: prod.split sum.splits)
    then show ?thesis
      using who Pair by (auto simp: ip_def router_def auth_call_def AuthLayer_new_def provider_error_def respond_def split: sum.split)
  qed
  have refused: "router E N store req p =
      (case ip of None \<Rightarrow> (unauthenticated, p)
       | Some a \<Rightarrow> (case store_auth store a of Inl Unauthenticated \<Rightarrow> (unauthenticated, p)
           | Inl (Internal m) \<Rightarrow> (provider_error, p) | Inr info \<Rightarrow> router E N store req p))"
    by (auto simp: ip_def router_def auth_call_def AuthLayer_new_def split: option.split sum.split AuthError.split)
  show ?thesis
  proof (cases "\<exists>a info. ip = Some a \<and> store_auth store a = Inr info")
    case True
    then show ?thesis using authenticated by auto
  next
    case False
    then show ?thesis
      using refused
      by (auto simp: unauthenticated_def provider_error_def respond_def split: option.splits sum.splits AuthError.splits)
  qed
qed

theorem auth_gate_witness:
  "status (fst (router sample_env sample_numbers sample_store
     (sample_request (Post_Changes \<lparr>push_req_revisions = [sample_root]\<rparr>)) empty_pool)) \<noteq> 401 \<and>
   router sample_env sample_numbers sample_store
     ((sample_request Get_WhoAmI)\<lparr>req_headers := [(''x-forwarded-for'', ''10.0.0.9'')]\<rparr>) empty_pool =
     (\<lparr>status = 401, body = Json_Error ''unauthenticated''\<rparr>, empty_pool)"
proof -
  let ?push = "sample_request (Post_Changes \<lparr>push_req_revisions = [sample_root]\<rparr>)"
  let ?other = "(sample_request Get_WhoAmI :: nat Value Request)\<lparr>req_headers := [(''x-forwarded-for'', ''10.0.0.9'')]\<rparr>"
  have "calls (snd (router sample_env sample_numbers sample_store ?push empty_pool)) \<noteq> calls empty_pool" by code_simp
  then have "snd (router sample_env sample_numbers sample_store ?push empty_pool) \<noteq> empty_pool" by auto
  then have "status (fst (router sample_env sample_numbers sample_store ?push empty_pool)) \<noteq> 401"
    using auth_gate[where p = empty_pool and E = sample_env and N = sample_numbers and store = sample_store and req = ?push]
    by (auto simp: sample_request_def)
  moreover have "status (fst (router sample_env sample_numbers sample_store ?other empty_pool)) = 401" by code_simp
  then have "router sample_env sample_numbers sample_store ?other empty_pool =
      (\<lparr>status = 401, body = Json_Error ''unauthenticated''\<rparr>, empty_pool)"
    using auth_gate[where p = empty_pool and E = sample_env and N = sample_numbers and store = sample_store and req = ?other]
    by (simp add: sample_request_def)
  ultimately show ?thesis by blast
qed

lemma pushed_author:
  assumes "pushed E client revs t t'" "r \<in> set (revisions t')" "r \<notin> set (revisions t)"
  shows "row_created_by r = client_uuid client"
proof (cases "accepted_revs t client Map.empty revs = []")
  case True
  with assms show ?thesis by (simp add: pushed_def)
next
  case False
  let ?A = "accepted_revs t client Map.empty revs"
  from False assms(1) obtain t1 where all: "stored_all E ?A t t1" and rec: "recorded client (map rev_id ?A) t1 t'"
    by (auto simp: pushed_def Let_def)
  from rec have "revisions t' = revisions t1" by (auto simp: recorded_def)
  with stored_all_rows[OF all] assms(2,3) obtain rows where r: "r \<in> set rows"
    and rows: "map row_created_by rows = map (\<lambda>r. client_uuid (rev_created_by r)) ?A" by auto
  have "row_created_by r \<in> set (map (\<lambda>r. client_uuid (rev_created_by r)) ?A)"
    unfolding rows[symmetric] using r by simp
  with admissible_author[OF accepted_revs_admissible] show ?thesis by auto
qed

lemma push_author:
  assumes "push_revisions E client revs p = (res, p')"
    and "r \<in> set (revisions (tables p'))" "r \<notin> set (revisions (tables p))"
  shows "row_created_by r = client_uuid client"
proof (cases res)
  case (Inl e)
  with push_revisions_Inl[of E client revs p e p'] assms pushed_author show ?thesis by auto
next
  case (Inr resp)
  with push_revisions_Inr[of E client revs p resp p'] assms pushed_author show ?thesis by blast
qed

text \<open>Registering a client and changing a file touch no revision, whether they succeed or not.\<close>

lemma upsert_client_row_frame [simp]:
  "revisions (snd (upsert_client_row c v at t)) = revisions t" "files (snd (upsert_client_row c v at t)) = files t"
  by (simp_all add: upsert_client_row_def split: option.split)

lemma single_statements_keep:
  "always (\<lambda>p p'. revisions (tables p') = revisions (tables p) \<and> files (tables p') = files (tables p)) (upsert_client E i u)"
  "always (\<lambda>p p'. revisions (tables p') = revisions (tables p)) (upsert_file E j d)"
  "always (\<lambda>p p'. revisions (tables p') = revisions (tables p)) (delete_file E j)"
proof -
  have "always (\<lambda>p p'. revisions (tables p') = revisions (tables p) \<and> files (tables p') = files (tables p))
      (autocommit E (upsert_client_row c v at))" for c v at
    by (rule always_autocommit) simp_all
  then show "always (\<lambda>p p'. revisions (tables p') = revisions (tables p) \<and> files (tables p') = files (tables p)) (upsert_client E i u)"
    unfolding always_def upsert_client_def by blast
  show "always (\<lambda>p p'. revisions (tables p') = revisions (tables p)) (upsert_file E j d)"
    "always (\<lambda>p p'. revisions (tables p') = revisions (tables p)) (delete_file E j)"
    unfolding upsert_file_def delete_file_def by (rule always_autocommit, simp_all)+
qed

lemma other_endpoints_keep_revisions:
  assumes "\<not> (\<exists>req. e = Post_Changes req)"
  shows "revisions (tables (snd (dispatch E N auth e p))) = revisions (tables p)"
proof (cases "reads_only e")
  case True
  from dispatch_same_tables[OF this, of E N auth] show ?thesis by (simp add: always_def)
next
  case False
  with assms show ?thesis
    by (cases e) (auto simp: upload_file_def delete_file_handler_def and_then_def map_err_def ok_def
        split: prod.split sum.split dest: alwaysD[OF single_statements_keep(2)] alwaysD[OF single_statements_keep(3)])
qed

text \<open>
  C3: Nobody writes in another client's name: a revision that a request adds to the database is
  attributed to the client that the provider named for the address the request came from, and
  only a push adds revisions.
\<close>

theorem writes_authenticated:
  assumes "router E N store req p = (resp, p')"
    and "r \<in> set (revisions (tables p'))" "r \<notin> set (revisions (tables p))"
  shows "\<exists>ip info batch. extract_ip req (store_ip_source store) = Some ip \<and> store_auth store ip = Inr info \<and>
    endpoint req = Post_Changes batch \<and> row_created_by r = client_uuid (auth_client_id info)"
proof -
  from assms obtain ip info res q where auth: "extract_ip req (store_ip_source store) = Some ip" "store_auth store ip = Inr info"
    and up: "upsert_client E (auth_client_id info) (auth_user_id info) p = (res, q)"
    and out: "p' = q \<or> routed E N info req q = (resp, p')"
    by (auto simp: router_def auth_call_def AuthLayer_new_def
        split: option.splits sum.splits AuthError.splits prod.splits)
  have same: "revisions (tables q) = revisions (tables p)"
    using alwaysD[OF single_statements_keep(1) up] by simp
  with out assms(2,3) have "tables p' = tables (snd (dispatch E N info (endpoint req) q))"
    by (auto simp: routed_def split: prod.splits sum.splits)
  moreover from this assms(2,3) same obtain batch where e: "endpoint req = Post_Changes batch"
    using other_endpoints_keep_revisions[of "endpoint req" E N info q] by metis
  ultimately have "tables p' = tables (snd (push_revisions E (auth_client_id info) (push_req_revisions batch) q))"
    by (auto simp: push_changes_def and_then_def ok_def split: prod.splits sum.splits)
  with push_author[OF prod.collapse[symmetric], of r E "auth_client_id info" "push_req_revisions batch" q] assms(2,3) same
  have "row_created_by r = client_uuid (auth_client_id info)" by simp
  with auth e show ?thesis by blast
qed

theorem writes_authenticated_witness:
  "\<exists>ip info. extract_ip (sample_request (Post_Changes \<lparr>push_req_revisions = [sample_root]\<rparr>)) (store_ip_source sample_store) = Some ip \<and>
     store_auth sample_store ip = Inr info \<and> auth_client_id info = ClientId 7"
proof -
  let ?req = "sample_request (Post_Changes \<lparr>push_req_revisions = [sample_root]\<rparr>)"
  let ?run = "router sample_env sample_numbers sample_store ?req empty_pool"
  have run: "?run = (fst ?run, snd ?run)" by simp
  have "map row_created_by (revisions (tables (snd ?run))) = [7]" by code_simp
  then obtain r where r: "r \<in> set (revisions (tables (snd ?run)))" "row_created_by r = 7" by fastforce
  have "r \<notin> set (revisions (tables empty_pool))" by (simp add: empty_pool_def empty_tables_def)
  from writes_authenticated[OF run r(1) this] r(2) show ?thesis by (metis ClientId.collapse)
qed

end
