(* ===== verification/Idb.thy ===== *)
theory Idb
  imports Core
begin

text \<open>
  Object stores of IndexedDB as the client uses them: records under keys, listed in the order
  of the keys, with lookup, put (insert or overwrite), delete, and the listing of a range of
  keys. The locale states the documented laws; its lemmas show what the code's loops over a
  store do (delete a range, put a list of records). Sorted association lists are the instance
  the client's model works on.
\<close>

section \<open>The interface\<close>

locale object_store =
  fixes empty :: 'st
    and get :: "'st \<Rightarrow> 'k::linorder \<Rightarrow> 'r option"
    and put :: "'k \<Rightarrow> 'r \<Rightarrow> 'st \<Rightarrow> 'st"
    and del :: "'k \<Rightarrow> 'st \<Rightarrow> 'st"
    and get_all :: "('k \<Rightarrow> bool) \<Rightarrow> 'st \<Rightarrow> ('k \<times> 'r) list"
    and valid :: "'st \<Rightarrow> bool"
  assumes valid_empty: "valid empty"
    and valid_put: "valid s \<Longrightarrow> valid (put k r s)"
    and valid_del: "valid s \<Longrightarrow> valid (del k s)"
    and get_empty: "get empty k = None"
    and get_put: "valid s \<Longrightarrow> get (put k r s) k' = (if k' = k then Some r else get s k')"
    and get_del: "valid s \<Longrightarrow> get (del k s) k' = (if k' = k then None else get s k')"
    and get_all_iff: "valid s \<Longrightarrow> (k, r) \<in> set (get_all P s) \<longleftrightarrow> P k \<and> get s k = Some r"
    and get_all_sorted: "valid s \<Longrightarrow> sorted_wrt (<) (map fst (get_all P s))"
begin

lemma get_all_distinct: "valid s \<Longrightarrow> distinct (map fst (get_all P s))"
  using get_all_sorted strict_sorted_iff by blast

text \<open>Deleting a list of keys, and putting a list of records\<close>

lemma fold_del:
  "valid s \<Longrightarrow> valid (fold del ks s) \<and> get (fold del ks s) k = (if k \<in> set ks then None else get s k)"
proof (induction ks arbitrary: s)
  case (Cons x ks)
  from Cons.IH[OF valid_del[OF Cons.prems]] Cons.prems show ?case by (auto simp: get_del)
qed simp

lemma fold_put:
  "valid s \<Longrightarrow> valid (fold (\<lambda>(k, r). put k r) xs s) \<and>
     get (fold (\<lambda>(k, r). put k r) xs s) k = (case map_of (rev xs) k of Some r \<Rightarrow> Some r | None \<Rightarrow> get s k)"
proof (induction xs arbitrary: s)
  case (Cons x xs)
  obtain k' r where x: "x = (k', r)" by (cases x)
  from Cons.IH[OF valid_put[OF Cons.prems]] Cons.prems show ?case
    by (auto simp: x get_put map_add_def split: option.split)
qed simp

text \<open>
  Replacing a range: what is listed there is deleted, then the new records, whose keys lie in
  the range, are put. Afterwards the range holds the new records and nothing else, and the
  rest of the store is as before.
\<close>

lemma replace_range:
  assumes "valid s" "\<And>k. k \<in> fst ` set xs \<Longrightarrow> P k"
  defines "s' \<equiv> fold (\<lambda>(k, r). put k r) xs (fold del (map fst (get_all P s)) s)"
  shows "valid s' \<and> get s' k = (if P k then map_of (rev xs) k else get s k)"
proof -
  let ?cleared = "fold del (map fst (get_all P s)) s"
  have cleared: "valid ?cleared" "get ?cleared k = (if k \<in> set (map fst (get_all P s)) then None else get s k)"
    using fold_del[OF assms(1)] by blast+
  have "k \<in> set (map fst (get_all P s)) \<longleftrightarrow> (\<exists>r. (k, r) \<in> set (get_all P s))" by force
  then have here: "k \<in> set (map fst (get_all P s)) \<longleftrightarrow> P k \<and> get s k \<noteq> None"
    unfolding get_all_iff[OF assms(1)] by auto
  have outside: "map_of (rev xs) k = None" if "\<not> P k"
    using that assms(2)[of k] by (auto simp: map_of_eq_None_iff)
  have "get s' k = (case map_of (rev xs) k of Some r \<Rightarrow> Some r | None \<Rightarrow> get ?cleared k)" "valid s'"
    using fold_put[OF cleared(1), of xs k] by (simp_all add: s'_def)
  then show ?thesis unfolding cleared(2) here using outside by (cases "P k") (auto split: option.split)
qed

end

section \<open>Sorted association lists\<close>

fun store_put :: "'k::linorder \<Rightarrow> 'r \<Rightarrow> ('k \<times> 'r) list \<Rightarrow> ('k \<times> 'r) list" where
  "store_put k r [] = [(k, r)]"
| "store_put k r ((k', r') # s) =
     (if k < k' then (k, r) # (k', r') # s
      else if k = k' then (k, r) # s
      else (k', r') # store_put k r s)"

definition store_delete :: "'k \<Rightarrow> ('k \<times> 'r) list \<Rightarrow> ('k \<times> 'r) list" where
  "store_delete k s = filter (\<lambda>(k', r). k' \<noteq> k) s"

definition store_get :: "('k \<times> 'r) list \<Rightarrow> 'k \<Rightarrow> 'r option" where
  "store_get s k = map_of s k"

definition store_get_all :: "('k \<Rightarrow> bool) \<Rightarrow> ('k \<times> 'r) list \<Rightarrow> ('k \<times> 'r) list" where
  "store_get_all P s = filter (\<lambda>(k, r). P k) s"

definition sorted_store :: "('k::linorder \<times> 'r) list \<Rightarrow> bool" where
  "sorted_store s \<longleftrightarrow> sorted_wrt (<) (map fst s)"

lemma set_store_put_keys: "fst ` set (store_put k r s) = insert k (fst ` set s)"
  by (induction s rule: store_put.induct) auto

lemma sorted_store_put: "sorted_store s \<Longrightarrow> sorted_store (store_put k r s)"
  unfolding sorted_store_def
proof (induction k r s rule: store_put.induct)
  case (2 k r k' r' s)
  then show ?case using set_store_put_keys[of k r s] by (fastforce simp: image_iff)
qed simp

lemma map_of_store_put:
  "sorted_store s \<Longrightarrow> map_of (store_put k r s) k' = (if k' = k then Some r else map_of s k')"
  by (induction k r s rule: store_put.induct) (auto simp: sorted_store_def)

lemma map_of_filter_key: "map_of (filter (\<lambda>(k', r). P k') s) k = (if P k then map_of s k else None)"
  by (induction s) auto

lemma sorted_store_filter: "sorted_store s \<Longrightarrow> sorted_store (filter P s)"
  unfolding sorted_store_def by (induction s) auto

lemma sorted_store_distinct: "sorted_store s \<Longrightarrow> distinct (map fst s)"
  unfolding sorted_store_def using strict_sorted_iff by blast

interpretation idb: object_store "[]" store_get store_put store_delete store_get_all sorted_store
proof
  fix s :: "('k::linorder \<times> 'r) list" and k k' r and P :: "'k \<Rightarrow> bool"
  assume s: "sorted_store s"
  show "sorted_store (store_put k r s)" using s by (rule sorted_store_put)
  show "sorted_store (store_delete k s)" unfolding store_delete_def using s by (rule sorted_store_filter)
  show "store_get (store_put k r s) k' = (if k' = k then Some r else store_get s k')"
    unfolding store_get_def using s by (rule map_of_store_put)
  show "store_get (store_delete k s) k' = (if k' = k then None else store_get s k')"
    by (simp add: store_get_def store_delete_def map_of_filter_key)
  show "(k, r) \<in> set (store_get_all P s) \<longleftrightarrow> P k \<and> store_get s k = Some r"
    using map_of_eq_Some_iff[OF sorted_store_distinct[OF s]] by (auto simp: store_get_all_def store_get_def)
  show "sorted_wrt (<) (map fst (store_get_all P s))"
    using sorted_store_filter[OF s] by (simp add: store_get_all_def sorted_store_def)
qed (simp_all add: sorted_store_def store_get_def)

end
