(* ===== verification/ClientDb.thy ===== *)
theory ClientDb
  imports Idb
begin

text \<open>
  The client's database (\<^verbatim>\<open>rustend-client/src/idb\<close>): the stores \<^verbatim>\<open>revisions\<close>, \<^verbatim>\<open>object_heads\<close>,
  \<^verbatim>\<open>files\<close> and \<^verbatim>\<open>sync_state\<close> and the functions that read and write them, each in one IndexedDB
  transaction. A JSON payload of type \<open>'v\<close> is stored as a JavaScript value of type \<open>'j\<close>.

  What the browser decides is an argument, the record \<open>idb_env\<close>: which requests fail, the
  conversion of payloads in both directions, which \<^verbatim>\<open>u64\<close> values convert, the texts of errors, and whether a transaction
  whose handle is dropped early keeps the requests already made.
\<close>

section \<open>Records (revisions.rs, object_heads.rs, sync_state.rs)\<close>

datatype SyncStatus = Pending | Synced | SyncError RejectionReason

record 'v RevisionRecord =
  rec_id :: RevisionId
  rec_object_id :: ObjectId
  rec_object_type :: string
  rec_lineage :: Lineage
  rec_created_at :: DateTime
  rec_created_by :: ClientId
  rec_content :: "'v Content"
  rec_sync_status :: SyncStatus

definition from_revision :: "'v Revision \<Rightarrow> SyncStatus \<Rightarrow> 'v RevisionRecord" where
  "from_revision r sync_status =
     \<lparr> rec_id = rev_id r, rec_object_id = rev_object_id r, rec_object_type = rev_object_type r,
       rec_lineage = rev_lineage r, rec_created_at = rev_created_at r, rec_created_by = rev_created_by r,
       rec_content = rev_content r, rec_sync_status = sync_status \<rparr>"

definition record_revision :: "'v RevisionRecord \<Rightarrow> 'v Revision" where
  "record_revision x =
     \<lparr> rev_id = rec_id x, rev_object_id = rec_object_id x, rev_object_type = rec_object_type x,
       rev_lineage = rec_lineage x, rev_created_at = rec_created_at x, rev_created_by = rec_created_by x,
       rev_content = rec_content x \<rparr>"

record 'v HeadRecord =
  head_object_id :: ObjectId
  head_revision_id :: RevisionId
  head_object_type :: string
  head_content :: "'v Content"
  head_lineage :: Lineage
  head_data :: "'v option"

definition head_record_from_revision :: "ObjectId \<Rightarrow> 'v Revision \<Rightarrow> 'v HeadRecord" where
  "head_record_from_revision object_id r =
     \<lparr> head_object_id = object_id, head_revision_id = rev_id r, head_object_type = rev_object_type r,
       head_content = rev_content r, head_lineage = rev_lineage r,
       head_data = (case rev_content r of Active v \<Rightarrow> Some v | Deleted \<Rightarrow> None) \<rparr>"

record SyncStateRecord =
  ss_client_id :: "ClientId option"
  ss_user_id :: "UserId option"
  ss_last_server_txn_id :: "TransactionId option"

section \<open>Errors (error.rs)\<close>

datatype RustendClientError =
    IndexedDb string
  | Serialisation string
  | Network string
  | Not_Authenticated string
  | Rejected RejectionReason
  | NotCached
  | StaleParent
  | ConflictExists

section \<open>Stores and transactions\<close>

record 'j client_db =
  db_revisions :: "(RevisionId \<times> 'j RevisionRecord) list"
  db_heads :: "((ObjectId \<times> RevisionId) \<times> 'j HeadRecord) list"
  db_files :: "(ObjectId \<times> 8 word list) list"
  db_sync :: "SyncStateRecord option"
  db_version :: nat
  db_indexes :: "(string \<times> string list) list"
  db_requests :: nat

text \<open>\<open>db_version\<close> is 0 before the database is created; \<open>db_indexes\<close> are the application's indexes.\<close>

definition empty_db :: "'j client_db" where
  "empty_db = \<lparr> db_revisions = [], db_heads = [], db_files = [], db_sync = None,
       db_version = 0, db_indexes = [], db_requests = 0 \<rparr>"

record ('v, 'j) idb_env =
  idb_fault :: "nat \<Rightarrow> bool"
  idb_message :: string
  to_js_value :: "'v \<Rightarrow> 'j option"
  from_js_value :: "'j \<Rightarrow> 'v option"
  js_u64 :: "64 word \<Rightarrow> bool"
  js_message :: string
  drop_commits :: bool

type_synonym ('j, 'a) idb_op = "('j client_db, RustendClientError, 'a) fallible"

text \<open>
  Inside a transaction: a failing request aborts it; a return for another reason leaves it to
  the browser.
\<close>

datatype tx_error = Aborted | Left RustendClientError

definition idb_request ::
  "('v, 'j) idb_env \<Rightarrow> ('j client_db \<Rightarrow> 'a \<times> 'j client_db) \<Rightarrow> ('j client_db, tx_error, 'a) fallible" where
  "idb_request E f = (\<lambda>s.
     let s' = s\<lparr>db_requests := Suc (db_requests s)\<rparr> in
     if idb_fault E (db_requests s) then (Inl Aborted, s')
     else (case f s' of (a, s'') \<Rightarrow> (Inr a, s'')))"

definition undo :: "'j client_db \<Rightarrow> 'j client_db \<Rightarrow> 'j client_db" where
  "undo before after = before\<lparr>db_requests := db_requests after\<rparr>"

text \<open>
  \<^verbatim>\<open>let tx = db.transaction(..)?; let store = tx.object_store(..)?; body; tx.await?\<close>
\<close>

definition idb_tx ::
  "('v, 'j) idb_env \<Rightarrow> ('j client_db, tx_error, 'a) fallible \<Rightarrow> ('j, 'a) idb_op" where
  "idb_tx E body = (\<lambda>s.
     case and_then (idb_request E (\<lambda>s. ((), s))) (\<lambda>_. and_then body
            (\<lambda>a. and_then (idb_request E (\<lambda>s. ((), s))) (\<lambda>_. ok a))) s of
       (Inr a, s') \<Rightarrow> (Inr a, s')
     | (Inl Aborted, s') \<Rightarrow> (Inl (IndexedDb (idb_message E)), undo s s')
     | (Inl (Left e), s') \<Rightarrow> (Inl e, if drop_commits E then s' else undo s s'))"

text \<open>\<^verbatim>\<open>to_js\<close> and \<^verbatim>\<open>from_js\<close> (serde_util.rs): only the payload can fail to convert.\<close>

fun convert_content :: "('a \<Rightarrow> 'b option) \<Rightarrow> 'a Content \<Rightarrow> 'b Content option" where
  "convert_content f (Active v) = map_option Active (f v)"
| "convert_content f Deleted = Some Deleted"

definition convert_record :: "('a \<Rightarrow> 'b option) \<Rightarrow> 'a RevisionRecord \<Rightarrow> 'b RevisionRecord option" where
  "convert_record f x =
     map_option (\<lambda>c. \<lparr> rec_id = rec_id x, rec_object_id = rec_object_id x, rec_object_type = rec_object_type x,
        rec_lineage = rec_lineage x, rec_created_at = rec_created_at x, rec_created_by = rec_created_by x,
        rec_content = c, rec_sync_status = rec_sync_status x \<rparr>) (convert_content f (rec_content x))"

definition convert_head :: "('a \<Rightarrow> 'b option) \<Rightarrow> 'a HeadRecord \<Rightarrow> 'b HeadRecord option" where
  "convert_head f x =
     (case convert_content f (head_content x) of
        None \<Rightarrow> None
      | Some c \<Rightarrow>
          (case head_data x of
             None \<Rightarrow> Some \<lparr> head_object_id = head_object_id x, head_revision_id = head_revision_id x,
                 head_object_type = head_object_type x, head_content = c, head_lineage = head_lineage x,
                 head_data = None \<rparr>
           | Some v \<Rightarrow> map_option (\<lambda>w. \<lparr> head_object_id = head_object_id x,
                 head_revision_id = head_revision_id x, head_object_type = head_object_type x,
                 head_content = c, head_lineage = head_lineage x, head_data = Some w \<rparr>) (f v)))"

definition converted :: "('v, 'j) idb_env \<Rightarrow> 'a option \<Rightarrow> ('s, RustendClientError, 'a) fallible" where
  "converted E x = (case x of Some a \<Rightarrow> ok a | None \<Rightarrow> err (IndexedDb (js_message E)))"

definition to_js ::
  "('v, 'j) idb_env \<Rightarrow> (('v \<Rightarrow> 'j option) \<Rightarrow> 'x \<Rightarrow> 'y option) \<Rightarrow> 'x \<Rightarrow> ('s, RustendClientError, 'y) fallible" where
  "to_js E conv x = converted E (conv (to_js_value E) x)"

definition from_js ::
  "('v, 'j) idb_env \<Rightarrow> (('j \<Rightarrow> 'v option) \<Rightarrow> 'x \<Rightarrow> 'y option) \<Rightarrow> 'x \<Rightarrow> ('s, RustendClientError, 'y) fallible" where
  "from_js E conv x = converted E (conv (from_js_value E) x)"

text \<open>\<^verbatim>\<open>results.into_iter().map(from_js).collect()\<close>: the first error, or all records\<close>

fun collect :: "('x \<Rightarrow> ('s, 'e, 'y) fallible) \<Rightarrow> 'x list \<Rightarrow> ('s, 'e, 'y list) fallible" where
  "collect f [] = ok []"
| "collect f (x # xs) = and_then (f x) (\<lambda>y. and_then (collect f xs) (\<lambda>ys. ok (y # ys)))"

section \<open>Revisions (revisions.rs)\<close>

definition put_record :: "'j RevisionRecord \<Rightarrow> 'j client_db \<Rightarrow> unit \<times> 'j client_db" where
  "put_record x s = ((), s\<lparr>db_revisions := store_put (rec_id x) x (db_revisions s)\<rparr>)"

definition put_revision :: "('v, 'j) idb_env \<Rightarrow> 'v RevisionRecord \<Rightarrow> ('j, unit) idb_op" where
  "put_revision E record =
     and_then (to_js E convert_record record) (\<lambda>val. idb_tx E (idb_request E (put_record val)))"

text \<open>
  The index \<^verbatim>\<open>by_sync_status\<close> lists the records with one status in the order of their primary
  keys.
\<close>

definition get_pending_revisions :: "('v, 'j) idb_env \<Rightarrow> ('j, 'v RevisionRecord list) idb_op" where
  "get_pending_revisions E =
     and_then (idb_tx E (idb_request E
        (\<lambda>s. (filter (\<lambda>x. rec_sync_status x = Pending) (map snd (db_revisions s)), s))))
       (collect (from_js E convert_record))"

definition set_status ::
  "('v, 'j) idb_env \<Rightarrow> RevisionId \<Rightarrow> SyncStatus \<Rightarrow> ('j, unit) idb_op" where
  "set_status E revision_id sync_status =
     idb_tx E (and_then (idb_request E (\<lambda>s. (store_get (db_revisions s) revision_id, s)))
       (\<lambda>found. case found of
          None \<Rightarrow> ok ()
        | Some val \<Rightarrow>
            and_then (map_err Left (from_js E convert_record val))
              (\<lambda>record. and_then (map_err Left (to_js E convert_record (record\<lparr>rec_sync_status := sync_status\<rparr>)))
                 (\<lambda>new_val. idb_request E (put_record new_val)))))"

definition mark_revision_synced :: "('v, 'j) idb_env \<Rightarrow> RevisionId \<Rightarrow> ('j, unit) idb_op" where
  "mark_revision_synced E revision_id = set_status E revision_id Synced"

definition mark_revision_error :: "('v, 'j) idb_env \<Rightarrow> RevisionId \<Rightarrow> RejectionReason \<Rightarrow> ('j, unit) idb_op" where
  "mark_revision_error E revision_id reason = set_status E revision_id (SyncError reason)"

section \<open>Heads (object_heads.rs)\<close>

text \<open>The key range of \<^verbatim>\<open>get_heads_in_store\<close>, from the nil to the max UUID, both included\<close>

definition head_range :: "ObjectId \<Rightarrow> ObjectId \<times> RevisionId \<Rightarrow> bool" where
  "head_range object_id k \<longleftrightarrow> (object_id, RevisionId 0) \<le> k \<and> k \<le> (object_id, RevisionId (- 1))"

definition get_heads_in_store ::
  "('v, 'j) idb_env \<Rightarrow> ObjectId \<Rightarrow> ('j client_db, tx_error, 'v HeadRecord list) fallible" where
  "get_heads_in_store E object_id =
     and_then (idb_request E (\<lambda>s. (map snd (store_get_all (head_range object_id) (db_heads s)), s)))
       (\<lambda>results. map_err Left (collect (from_js E convert_head) results))"

definition delete_head :: "ObjectId \<Rightarrow> RevisionId \<Rightarrow> 'j client_db \<Rightarrow> unit \<times> 'j client_db" where
  "delete_head object_id i s = ((), s\<lparr>db_heads := store_delete (object_id, i) (db_heads s)\<rparr>)"

definition put_head :: "'j HeadRecord \<Rightarrow> 'j client_db \<Rightarrow> unit \<times> 'j client_db" where
  "put_head x s = ((), s\<lparr>db_heads := store_put (head_object_id x, head_revision_id x) x (db_heads s)\<rparr>)"

definition put_heads ::
  "('v, 'j) idb_env \<Rightarrow> 'v HeadRecord list \<Rightarrow> ('j client_db, tx_error, unit) fallible" where
  "put_heads E = for_each (\<lambda>record. and_then (map_err Left (to_js E convert_head record))
     (\<lambda>val. idb_request E (put_head val)))"

definition replace_heads ::
  "('v, 'j) idb_env \<Rightarrow> ObjectId \<Rightarrow> 'v Revision list \<Rightarrow> ('j, unit) idb_op" where
  "replace_heads E object_id heads =
     idb_tx E (and_then (get_heads_in_store E object_id)
       (\<lambda>existing. and_then
          (for_each (\<lambda>h. idb_request E (delete_head object_id (head_revision_id h))) existing)
          (\<lambda>_. put_heads E (map (head_record_from_revision object_id) heads))))"

definition add_heads :: "('v, 'j) idb_env \<Rightarrow> 'v Revision list \<Rightarrow> ('j, unit) idb_op" where
  "add_heads E heads =
     idb_tx E (put_heads E (map (\<lambda>r. head_record_from_revision (rev_object_id r) r) heads))"

definition client_get_heads :: "('v, 'j) idb_env \<Rightarrow> ObjectId \<Rightarrow> ('j, 'v HeadRecord list) idb_op" where
  "client_get_heads E object_id = idb_tx E (get_heads_in_store E object_id)"

section \<open>Files (files.rs)\<close>

definition put_file :: "('v, 'j) idb_env \<Rightarrow> ObjectId \<Rightarrow> 8 word list \<Rightarrow> ('j, unit) idb_op" where
  "put_file E object_id data =
     idb_tx E (idb_request E (\<lambda>s. ((), s\<lparr>db_files := store_put object_id data (db_files s)\<rparr>)))"

definition client_get_file :: "('v, 'j) idb_env \<Rightarrow> ObjectId \<Rightarrow> ('j, 8 word list option) idb_op" where
  "client_get_file E object_id =
     idb_tx E (idb_request E (\<lambda>s. (store_get (db_files s) object_id, s)))"

definition client_delete_file :: "('v, 'j) idb_env \<Rightarrow> ObjectId \<Rightarrow> ('j, unit) idb_op" where
  "client_delete_file E object_id =
     idb_tx E (idb_request E (\<lambda>s. ((), s\<lparr>db_files := store_delete object_id (db_files s)\<rparr>)))"

section \<open>Sync state (sync_state.rs)\<close>

definition read_sync_state ::
  "('v, 'j) idb_env \<Rightarrow> ('j, ClientId option \<times> UserId option \<times> TransactionId option) idb_op" where
  "read_sync_state E =
     and_then (idb_tx E (idb_request E (\<lambda>s. (db_sync s, s))))
       (\<lambda>val. ok (case val of
          Some record \<Rightarrow> (ss_client_id record, ss_user_id record, ss_last_server_txn_id record)
        | None \<Rightarrow> (None, None, None)))"

definition write_sync_state ::
  "('v, 'j) idb_env \<Rightarrow> ClientId \<Rightarrow> UserId \<Rightarrow> TransactionId option \<Rightarrow> ('j, unit) idb_op" where
  "write_sync_state E client_id user_id last_txn =
     and_then (converted E (case last_txn of
         Some t \<Rightarrow> if js_u64 E (transaction_u64 t) then Some () else None
       | None \<Rightarrow> Some ()))
       (\<lambda>_. idb_tx E (idb_request E (\<lambda>s. ((), s\<lparr>db_sync :=
          Some \<lparr> ss_client_id = Some client_id, ss_user_id = Some user_id, ss_last_server_txn_id = last_txn \<rparr>\<rparr>))))"

end
