(* ===== verification/Sync.thy ===== *)
theory Sync
  imports ClientDb Str
begin

text \<open>
  \<^verbatim>\<open>sync.rs\<close>: one round of synchronisation, and the counters it returns (\<^verbatim>\<open>types.rs\<close>). The state is
  the client's database and the server's; the HTTP client and the server are an argument, the
  record \<open>remote_server\<close>, whose functions take the URL and the message and change the state of
  the server. A request can fail before or after the server handled it.
\<close>

section \<open>The remote server\<close>

text \<open>
  What a request comes back with: a failure to send or receive, a status that is not a
  success, a body that is not the expected JSON, or the decoded answer
\<close>

datatype 'a http_result =
    Send_Failed string
  | Status nat
  | Bad_Json string
  | Answer 'a

record ('v, 's) remote_server =
  post_changes :: "string \<Rightarrow> 'v PushRequest \<Rightarrow> 's \<Rightarrow> PushResponse http_result \<times> 's"
  post_changes_query :: "string \<Rightarrow> 'v PullRequest \<Rightarrow> 's \<Rightarrow> 'v PullResponse http_result \<times> 's"
  get_whoami :: "string \<Rightarrow> 's \<Rightarrow> WhoAmIResponse http_result \<times> 's"

record ('j, 's) world =
  local_db :: "'j client_db"
  remote :: 's

type_synonym ('j, 's, 'a) client_op = "(('j, 's) world, RustendClientError, 'a) fallible"

definition on_db :: "('j, 'a) idb_op \<Rightarrow> ('j, 's, 'a) client_op" where
  "on_db m = (\<lambda>w. case m (local_db w) of (r, d) \<Rightarrow> (r, w\<lparr>local_db := d\<rparr>))"

definition on_remote :: "('s \<Rightarrow> 'a \<times> 's) \<Rightarrow> ('j, 's, 'a) client_op" where
  "on_remote f = (\<lambda>w. case f (remote w) of (a, s) \<Rightarrow> (Inr a, w\<lparr>remote := s\<rparr>))"

definition url_of :: "string \<Rightarrow> string \<Rightarrow> string" where
  "url_of server_url path = trim_end_matches CHR ''/'' server_url @ path"

section \<open>Push (push_pending)\<close>

definition answer_or_network :: "string \<Rightarrow> 'a http_result \<Rightarrow> ('w, RustendClientError, 'a) fallible" where
  "answer_or_network what res =
     (case res of
        Send_Failed m \<Rightarrow> err (Network m)
      | Status n \<Rightarrow> err (Network (what @ '' failed: '' @ show_nat n))
      | Bad_Json m \<Rightarrow> err (Network m)
      | Answer a \<Rightarrow> ok a)"

definition push_pending ::
  "('v, 'j) idb_env \<Rightarrow> ('v, 's) remote_server \<Rightarrow> string \<Rightarrow>
     ('j, 's, 32 word \<times> RejectedRevision list) client_op" where
  "push_pending E srv server_url =
     and_then (on_db (get_pending_revisions E))
       (\<lambda>pending. if pending = [] then ok (0, [])
          else and_then (on_remote (post_changes srv (url_of server_url ''/changes'')
                  \<lparr>push_req_revisions = map record_revision pending\<rparr>))
            (\<lambda>res. and_then (answer_or_network ''push'' res)
               (\<lambda>push_resp.
                  and_then (for_each (\<lambda>i. on_db (mark_revision_synced E i)) (resp_accepted push_resp))
                    (\<lambda>_. and_then
                       (for_each (\<lambda>x. on_db (mark_revision_error E (rejected_revision_id x) (rejected_reason x)))
                          (resp_rejected push_resp))
                       (\<lambda>_. ok (word_of_nat (length (resp_accepted push_resp)), resp_rejected push_resp))))))"

section \<open>Pull (pull_updates)\<close>

definition has_diverged :: "'v HeadRecord list \<Rightarrow> 'v Revision list \<Rightarrow> bool" where
  "has_diverged existing heads =
     (let incoming_ids = set (map rev_id heads);
          superseded_ids = set (concat (map rev_parents heads))
      in list_ex (\<lambda>h. head_revision_id h \<notin> incoming_ids \<and> head_revision_id h \<notin> superseded_ids) existing)"

text \<open>The body of the loop over the updates; the counters are those of \<^verbatim>\<open>pulled\<close> and \<^verbatim>\<open>conflicted\<close>.\<close>

definition apply_update ::
  "('v, 'j) idb_env \<Rightarrow> 'v ObjectUpdate \<Rightarrow> 32 word \<times> 32 word \<Rightarrow> ('j, 32 word \<times> 32 word) idb_op" where
  "apply_update E update = (\<lambda>(pulled, conflicted).
     and_then
       (fold_each (\<lambda>r n. and_then (put_revision E (from_revision r Synced)) (\<lambda>_. ok (n + 1)))
          (upd_heads update) pulled)
       (\<lambda>pulled'.
          case upd_action update of
            Replace \<Rightarrow>
              and_then (client_get_heads E (upd_object_id update))
                (\<lambda>existing.
                   if has_diverged existing (upd_heads update)
                   then and_then (add_heads E (upd_heads update)) (\<lambda>_. ok (pulled', conflicted + 1))
                   else and_then (replace_heads E (upd_object_id update) (upd_heads update))
                          (\<lambda>_. ok (pulled', conflicted)))
          | Conflict \<Rightarrow>
              and_then (add_heads E (upd_heads update)) (\<lambda>_. ok (pulled', conflicted + 1))))"

definition apply_updates ::
  "('v, 'j) idb_env \<Rightarrow> 'v ObjectUpdate list \<Rightarrow> ('j, 32 word \<times> 32 word) idb_op" where
  "apply_updates E updates = fold_each (apply_update E) updates (0, 0)"

text \<open>The cursor is written after all updates are applied.\<close>

definition advance_cursor :: "('v, 'j) idb_env \<Rightarrow> TransactionId \<Rightarrow> ('j, unit) idb_op" where
  "advance_cursor E up_to =
     and_then (read_sync_state E)
       (\<lambda>(client_id, user_id, _).
          case (client_id, user_id) of
            (Some cid, Some uid) \<Rightarrow> write_sync_state E cid uid (Some up_to)
          | _ \<Rightarrow> ok ())"

definition pull_updates ::
  "('v, 'j) idb_env \<Rightarrow> ('v, 's) remote_server \<Rightarrow> string \<Rightarrow> 'v PullRequest \<Rightarrow>
     ('j, 's, 32 word \<times> 32 word) client_op" where
  "pull_updates E srv server_url pull_params =
     and_then (on_remote (post_changes_query srv (url_of server_url ''/changes/query'') pull_params))
       (\<lambda>res. and_then (answer_or_network ''pull'' res)
          (\<lambda>pull_resp. and_then (on_db (apply_updates E (object_updates pull_resp)))
             (\<lambda>counts. and_then (on_db (advance_cursor E (up_to_transaction pull_resp)))
                (\<lambda>_. ok counts))))"

section \<open>Sync\<close>

record SyncResult =
  res_pushed :: "32 word"
  res_pulled :: "32 word"
  res_conflicted :: "32 word"
  res_rejected :: "RejectedRevision list"

definition sync ::
  "('v, 'j) idb_env \<Rightarrow> ('v, 's) remote_server \<Rightarrow> string \<Rightarrow> 'v PullRequest \<Rightarrow> ('j, 's, SyncResult) client_op" where
  "sync E srv server_url pull_params =
     and_then (push_pending E srv server_url)
       (\<lambda>(pushed, rejected). and_then (pull_updates E srv server_url pull_params)
          (\<lambda>(pulled, conflicted).
             ok \<lparr> res_pushed = pushed, res_pulled = pulled, res_conflicted = conflicted,
                  res_rejected = rejected \<rparr>))"

end
