(* ===== verification/Repository.thy ===== *)
theory Repository
  imports Sync
begin

text \<open>
  The client's public interface: \<^verbatim>\<open>schema.rs\<close>, \<^verbatim>\<open>types.rs\<close>, \<^verbatim>\<open>idb/open.rs\<close> and \<^verbatim>\<open>repository.rs\<close>.
  Fresh ids and the clock are arguments of the operations that use them. The conversion of
  application values to and from JSON (the \<^verbatim>\<open>Serialize\<close> and \<^verbatim>\<open>DeserializeOwned\<close> implementations of
  the application) are arguments too; they return \<open>Inl\<close> with a text where \<^verbatim>\<open>serde_json\<close> returns
  an error.
\<close>

section \<open>Types (types.rs, schema.rs)\<close>

datatype 't VersionContent = Version_Active 't | Version_Deleted

record 't ObjectVersion =
  ver_object_id :: ObjectId
  ver_revision_id :: RevisionId
  ver_content :: "'t VersionContent"

datatype 'v IndexRange = Range_All | Range_Eq 'v | Range_Bounds 'v bool 'v bool

record IndexEntry =
  entry_name :: string
  entry_object_type :: string
  entry_json_path :: string

record IndexSchema =
  schema_version :: "32 word"
  schema_entries :: "IndexEntry list"

definition IndexSchema_new :: IndexSchema where
  "IndexSchema_new = \<lparr> schema_version = 1, schema_entries = [] \<rparr>"

definition with_version :: "IndexSchema \<Rightarrow> 32 word \<Rightarrow> IndexSchema" where
  "with_version s v = s\<lparr>schema_version := v\<rparr>"

definition add_index :: "IndexSchema \<Rightarrow> string \<Rightarrow> string \<Rightarrow> string \<Rightarrow> IndexSchema" where
  "add_index s name object_type json_path =
     s\<lparr>schema_entries := schema_entries s @
        [\<lparr> entry_name = name, entry_object_type = object_type, entry_json_path = json_path \<rparr>]\<rparr>"

section \<open>Opening the database (open.rs)\<close>

text \<open>A failed \<^verbatim>\<open>expect\<close> stops the program.\<close>

datatype open_error = Open_Failed RustendClientError | Panicked

definition index_key_path :: "IndexEntry \<Rightarrow> string list" where
  "index_key_path entry =
     (let key_path = (case strip_prefix ''$.'' (entry_json_path entry) of
            Some p \<Rightarrow> p | None \<Rightarrow> entry_json_path entry)
      in [''object_type'', ''data.'' @ key_path])"

text \<open>\<^verbatim>\<open>create_index\<close> fails where the name is taken or the browser refuses the key path.\<close>

fun create_indexes ::
  "(string list \<Rightarrow> bool) \<Rightarrow> IndexEntry list \<Rightarrow> (string \<times> string list) list \<Rightarrow>
     (string \<times> string list) list option" where
  "create_indexes key_path_ok [] indexes = Some indexes"
| "create_indexes key_path_ok (entry # entries) indexes =
     (if entry_name entry \<in> set (map fst indexes) \<or> \<not> key_path_ok (index_key_path entry) then None
      else create_indexes key_path_ok entries (indexes @ [(entry_name entry, index_key_path entry)]))"

definition on_upgrade_needed ::
  "(string list \<Rightarrow> bool) \<Rightarrow> IndexSchema \<Rightarrow> 'j client_db \<Rightarrow> 'j client_db option" where
  "on_upgrade_needed key_path_ok schema s =
     (let stores = (if db_version s = 0
            then s\<lparr>db_revisions := [], db_heads := [], db_files := [], db_sync := None, db_indexes := []\<rparr>
            else s);
          kept = filter (\<lambda>(name, path). name \<notin> set (map entry_name (schema_entries schema))) (db_indexes stores)
      in case create_indexes key_path_ok (schema_entries schema) kept of
           None \<Rightarrow> None
         | Some indexes \<Rightarrow> Some (stores\<lparr>db_indexes := indexes, db_version := unat (schema_version schema)\<rparr>))"

text \<open>
  A version of 0 is invalid; a version below the existing one is refused; the upgrade runs
  where it is above.
\<close>

definition open_database ::
  "('v, 'j) idb_env \<Rightarrow> (string list \<Rightarrow> bool) \<Rightarrow> IndexSchema \<Rightarrow> ('j client_db, open_error, unit) fallible" where
  "open_database E key_path_ok schema = (\<lambda>s.
     let s1 = s\<lparr>db_requests := Suc (db_requests s)\<rparr>;
         version = unat (schema_version schema)
     in if idb_fault E (db_requests s) \<or> version = 0 \<or> version < db_version s
        then (Inl (Open_Failed (IndexedDb (idb_message E))), s1)
        else if version = db_version s then (Inr (), s1)
        else (case on_upgrade_needed key_path_ok schema s1 of
                None \<Rightarrow> (Inl Panicked, s1)
              | Some s2 \<Rightarrow> (Inr (), s2)))"

section \<open>The repository (repository.rs)\<close>

record Repository =
  repo_client_id :: ClientId
  repo_user_id :: UserId
  repo_schema :: IndexSchema

definition check_parents_are_heads ::
  "'v HeadRecord list \<Rightarrow> RevisionId list \<Rightarrow> ('w, RustendClientError, unit) fallible" where
  "check_parents_are_heads heads ps =
     (if list_all (\<lambda>p. p \<in> set (map head_revision_id heads)) ps then ok () else err StaleParent)"

definition fetch_whoami ::
  "('v, 's) remote_server \<Rightarrow> string \<Rightarrow> ('j, 's, WhoAmIResponse) client_op" where
  "fetch_whoami srv server_url =
     and_then (on_remote (get_whoami srv (url_of server_url ''/whoami'')))
       (\<lambda>res. case res of
          Send_Failed m \<Rightarrow> err (Network m)
        | Status n \<Rightarrow> err (Not_Authenticated (''whoami returned HTTP '' @ show_nat n))
        | Bad_Json m \<Rightarrow> err (Network m)
        | Answer who \<Rightarrow> ok who)"

text \<open>The match on the result of \<^verbatim>\<open>fetch_whoami\<close>\<close>

definition with_identity ::
  "('v, 'j) idb_env \<Rightarrow> ('v, 's) remote_server \<Rightarrow> string \<Rightarrow>
     ClientId option \<times> UserId option \<times> TransactionId option \<Rightarrow> ('j, 's, ClientId \<times> UserId) client_op" where
  "with_identity E srv server_url = (\<lambda>(stored_client, stored_user, existing_txn) w.
     case fetch_whoami srv server_url w of
       (Inr who, w') \<Rightarrow>
         (if stored_client \<noteq> Some (who_client_id who) \<or> stored_user \<noteq> Some (who_user_id who)
          then and_then (on_db (write_sync_state E (who_client_id who) (who_user_id who) existing_txn))
                 (\<lambda>_. ok (who_client_id who, who_user_id who)) w'
          else (Inr (who_client_id who, who_user_id who), w'))
     | (Inl (Network _), w') \<Rightarrow>
         (case (stored_client, stored_user) of
            (Some cid, Some uid) \<Rightarrow> (Inr (cid, uid), w')
          | _ \<Rightarrow> (Inl (Network ''whoami failed and no cached identity found''), w'))
     | (Inl e, w') \<Rightarrow> (Inl e, w'))"

definition on_db_open :: "('j client_db, open_error, 'a) fallible \<Rightarrow> (('j, 's) world, open_error, 'a) fallible" where
  "on_db_open m = (\<lambda>w. case m (local_db w) of (r, d) \<Rightarrow> (r, w\<lparr>local_db := d\<rparr>))"

definition repo_open ::
  "('v, 'j) idb_env \<Rightarrow> (string list \<Rightarrow> bool) \<Rightarrow> ('v, 's) remote_server \<Rightarrow> IndexSchema \<Rightarrow> string \<Rightarrow>
     (('j, 's) world, open_error, Repository) fallible" where
  "repo_open E key_path_ok srv schema server_url =
     and_then (on_db_open (open_database E key_path_ok schema))
       (\<lambda>_. map_err Open_Failed
          (and_then (on_db (read_sync_state E))
             (\<lambda>stored. and_then (with_identity E srv server_url stored)
                (\<lambda>(client_id, user_id).
                   ok \<lparr> repo_client_id = client_id, repo_user_id = user_id, repo_schema = schema \<rparr>))))"

definition open_offline ::
  "('v, 'j) idb_env \<Rightarrow> (string list \<Rightarrow> bool) \<Rightarrow> IndexSchema \<Rightarrow> ClientId \<Rightarrow> UserId \<Rightarrow>
     ('j client_db, open_error, Repository) fallible" where
  "open_offline E key_path_ok schema client_id user_id =
     and_then (open_database E key_path_ok schema)
       (\<lambda>_. map_err Open_Failed
          (and_then (write_sync_state E client_id user_id None)
             (\<lambda>_. ok \<lparr> repo_client_id = client_id, repo_user_id = user_id, repo_schema = schema \<rparr>)))"

text \<open>\<^verbatim>\<open>serde_json::to_value(value)?\<close> and \<^verbatim>\<open>serde_json::from_value(v)?\<close>\<close>

definition serialised :: "string + 'a \<Rightarrow> ('w, RustendClientError, 'a) fallible" where
  "serialised x = (case x of Inr a \<Rightarrow> ok a | Inl m \<Rightarrow> err (Serialisation m))"

text \<open>The end of every write: the pending revision is stored, then it becomes the only head.\<close>

definition store_new_head :: "('v, 'j) idb_env \<Rightarrow> 'v Revision \<Rightarrow> ('j, unit) idb_op" where
  "store_new_head E r =
     and_then (put_revision E (from_revision r Pending))
       (\<lambda>_. replace_heads E (rev_object_id r) [r])"

definition save ::
  "('v, 'j) idb_env \<Rightarrow> Repository \<Rightarrow> ('t \<Rightarrow> string + 'v) \<Rightarrow> ObjectId \<Rightarrow> RevisionId \<Rightarrow> DateTime \<Rightarrow>
     string \<Rightarrow> 't \<Rightarrow> ('j, ObjectId \<times> RevisionId) idb_op" where
  "save E repo to_value object_id fresh now object_type value =
     and_then (serialised (to_value value))
       (\<lambda>data. and_then (store_new_head E
            \<lparr> rev_id = fresh, rev_object_id = object_id, rev_object_type = object_type,
              rev_lineage = Root, rev_created_at = now, rev_created_by = repo_client_id repo,
              rev_content = Active data \<rparr>)
          (\<lambda>_. ok (object_id, fresh)))"

text \<open>The checks and the revision that \<^verbatim>\<open>update\<close> and \<^verbatim>\<open>delete\<close> share\<close>

definition supersede ::
  "('v, 'j) idb_env \<Rightarrow> Repository \<Rightarrow> RevisionId \<Rightarrow> DateTime \<Rightarrow> ObjectId \<Rightarrow> RevisionId \<Rightarrow> 'v Content \<Rightarrow>
     ('j, RevisionId) idb_op" where
  "supersede E repo fresh now object_id parent content =
     and_then (client_get_heads E object_id)
       (\<lambda>heads. if length heads > 1 then err ConflictExists
          else and_then (check_parents_are_heads heads [parent])
            (\<lambda>_. case heads of
               [] \<Rightarrow> err NotCached
             | h # _ \<Rightarrow>
                 and_then (store_new_head E
                    \<lparr> rev_id = fresh, rev_object_id = object_id, rev_object_type = head_object_type h,
                      rev_lineage = Update parent, rev_created_at = now, rev_created_by = repo_client_id repo,
                      rev_content = content \<rparr>)
                   (\<lambda>_. ok fresh)))"

definition repo_update ::
  "('v, 'j) idb_env \<Rightarrow> Repository \<Rightarrow> ('t \<Rightarrow> string + 'v) \<Rightarrow> RevisionId \<Rightarrow> DateTime \<Rightarrow> ObjectId \<Rightarrow> RevisionId \<Rightarrow>
     't \<Rightarrow> ('j, RevisionId) idb_op" where
  "repo_update E repo to_value fresh now object_id parent value =
     and_then (serialised (to_value value))
       (\<lambda>data. supersede E repo fresh now object_id parent (Active data))"

definition repo_delete ::
  "('v, 'j) idb_env \<Rightarrow> Repository \<Rightarrow> RevisionId \<Rightarrow> DateTime \<Rightarrow> ObjectId \<Rightarrow> RevisionId \<Rightarrow> ('j, RevisionId) idb_op" where
  "repo_delete E repo fresh now object_id parent = supersede E repo fresh now object_id parent Deleted"

fun version_content ::
  "('v \<Rightarrow> string + 't) \<Rightarrow> 'v Content \<Rightarrow> ('w, RustendClientError, 't VersionContent) fallible" where
  "version_content from_value (Active v) = and_then (serialised (from_value v)) (\<lambda>t. ok (Version_Active t))"
| "version_content from_value Deleted = ok Version_Deleted"

definition repo_get ::
  "('v, 'j) idb_env \<Rightarrow> ('v \<Rightarrow> string + 't) \<Rightarrow> ObjectId \<Rightarrow> ('j, 't ObjectVersion list) idb_op" where
  "repo_get E from_value object_id =
     and_then (client_get_heads E object_id)
       (collect (\<lambda>h. and_then (version_content from_value (head_content h))
          (\<lambda>content. ok \<lparr> ver_object_id = object_id, ver_revision_id = head_revision_id h,
                          ver_content = content \<rparr>)))"

definition resolve_conflict ::
  "('v, 'j) idb_env \<Rightarrow> Repository \<Rightarrow> ('t \<Rightarrow> string + 'v) \<Rightarrow> RevisionId \<Rightarrow> DateTime \<Rightarrow> ObjectId \<Rightarrow>
     RevisionId list \<Rightarrow> 't VersionContent \<Rightarrow> ('j, RevisionId) idb_op" where
  "resolve_conflict E repo to_value fresh now object_id ps resolved =
     (case ps of
        a # b # rest \<Rightarrow>
          and_then (client_get_heads E object_id)
            (\<lambda>heads. and_then (check_parents_are_heads heads ps)
               (\<lambda>_. case heads of
                  [] \<Rightarrow> err NotCached
                | h # _ \<Rightarrow>
                    and_then (case resolved of
                         Version_Active v \<Rightarrow> and_then (serialised (to_value v)) (\<lambda>d. ok (Active d))
                       | Version_Deleted \<Rightarrow> ok Deleted)
                      (\<lambda>content. and_then (store_new_head E
                           \<lparr> rev_id = fresh, rev_object_id = object_id, rev_object_type = head_object_type h,
                             rev_lineage = Merge a b rest, rev_created_at = now,
                             rev_created_by = repo_client_id repo, rev_content = content \<rparr>)
                         (\<lambda>_. ok fresh))))
      | _ \<Rightarrow> err (IndexedDb ''resolve_conflict requires at least 2 parent revisions''))"

definition save_file_data :: "('v, 'j) idb_env \<Rightarrow> ObjectId \<Rightarrow> 8 word list \<Rightarrow> ('j, unit) idb_op" where
  "save_file_data E object_id data = put_file E object_id data"

definition get_file_data :: "('v, 'j) idb_env \<Rightarrow> ObjectId \<Rightarrow> ('j, 8 word list option) idb_op" where
  "get_file_data E object_id = client_get_file E object_id"

definition delete_file_data :: "('v, 'j) idb_env \<Rightarrow> ObjectId \<Rightarrow> ('j, unit) idb_op" where
  "delete_file_data E object_id = client_delete_file E object_id"

definition repo_sync ::
  "('v, 'j) idb_env \<Rightarrow> ('v, 's) remote_server \<Rightarrow> string \<Rightarrow> 'v PullRequest \<Rightarrow> ('j, 's, SyncResult) client_op" where
  "repo_sync E srv server_url pull_params =
     and_then
       (if pull_since pull_params = None
        then and_then (on_db (read_sync_state E))
               (\<lambda>(_, _, last_txn). ok (pull_params\<lparr>pull_since := last_txn\<rparr>))
        else ok pull_params)
       (\<lambda>params. sync E srv server_url params)"

end
