(* ===== verification/ClientInv.thy ===== *)
theory ClientInv
  imports Repository
begin

text \<open>
  The invariant of the client's database and its preservation by every operation of the
  client, whichever IndexedDB requests fail and whatever the server answers: the stores are
  in key order, records are filed under their own keys, and every head has its revision in
  the store.
\<close>

section \<open>Rules for transactions\<close>

text \<open>Properties that do not look at the number of requests made\<close>

definition uncounted :: "('j client_db \<Rightarrow> bool) \<Rightarrow> bool" where
  "uncounted P \<longleftrightarrow> (\<forall>s n. P (s\<lparr>db_requests := n\<rparr>) = P s)"

lemma uncountedI: "(\<And>s n. P (s\<lparr>db_requests := n\<rparr>) = P s) \<Longrightarrow> uncounted P"
  by (simp add: uncounted_def)

lemma uncountedD: "uncounted P \<Longrightarrow> P (s\<lparr>db_requests := n\<rparr>) = P s"
  by (simp add: uncounted_def)

text \<open>No request fails.\<close>

definition idb_ok :: "('v, 'j) idb_env \<Rightarrow> bool" where
  "idb_ok E \<longleftrightarrow> (\<forall>n. \<not> idb_fault E n)"

lemma triple_idb_request:
  assumes "uncounted P" "\<And>s. P s \<Longrightarrow> Q (fst (f s)) (snd (f s))" "\<And>s. \<not> idb_ok E \<Longrightarrow> P s \<Longrightarrow> X Aborted s"
  shows "triple P (idb_request E f) Q X"
proof (rule tripleI)
  fix s
  assume "P s"
  with assms(1) have "P (s\<lparr>db_requests := Suc (db_requests s)\<rparr>)" by (simp add: uncounted_def)
  note here = assms(2)[OF this] assms(3)[OF _ this]
  show "Q a s'" if "idb_request E f s = (Inr a, s')" for a s'
    using that here(1) by (auto simp: idb_request_def Let_def split: if_splits prod.splits)
  show "X e s'" if "idb_request E f s = (Inl e, s')" for e s'
    using that here(2) by (auto simp: idb_request_def idb_ok_def Let_def split: if_splits prod.splits)
qed

lemma idb_tx_run:
  assumes "idb_ok E" "body (s\<lparr>db_requests := Suc (db_requests s)\<rparr>) = (Inr a, s')"
  shows "idb_tx E body s = (Inr a, s'\<lparr>db_requests := Suc (db_requests s')\<rparr>)"
  using assms by (simp add: idb_tx_def and_then_def idb_request_def ok_def idb_ok_def Let_def)

lemma triple_idb_tx_total:
  assumes "idb_ok E" "triple P body Q (\<lambda>_ _. False)" "uncounted P" "\<And>a. uncounted (Q a)"
  shows "triple P (idb_tx E body) Q (\<lambda>_ _. False)"
  unfolding triple_def
proof (intro allI impI)
  fix s
  assume "P s"
  with assms(3) have "P (s\<lparr>db_requests := Suc (db_requests s)\<rparr>)" by (simp add: uncounted_def)
  from triple_total[OF assms(2) this] obtain a s' where
    run: "body (s\<lparr>db_requests := Suc (db_requests s)\<rparr>) = (Inr a, s')" and Q: "Q a s'" by blast
  have "idb_tx E body s = (Inr a, s'\<lparr>db_requests := Suc (db_requests s')\<rparr>)"
    using assms(1) run by (rule idb_tx_run)
  with Q assms(4) show "case idb_tx E body s of (Inr a, s') \<Rightarrow> Q a s' | (Inl e, s') \<Rightarrow> False"
    by (simp add: uncounted_def)
qed

text \<open>The common case: a property that the transaction keeps, whatever happens\<close>

lemma triple_idb_tx_keeps:
  assumes "triple P body Q (\<lambda>e s. case e of Aborted \<Rightarrow> True | Left c \<Rightarrow> P s)"
    "uncounted P" "\<And>a. uncounted (Q a)"
  shows "triple P (idb_tx E body) Q (\<lambda>_. P)"
proof (rule tripleI)
  fix s
  assume P: "P s"
  let ?s = "s\<lparr>db_requests := Suc (db_requests s)\<rparr>"
  from P assms(2) have P1: "P ?s" by (simp add: uncounted_def)
  note body = triple_Inr[OF assms(1) P1] triple_Inl[OF assms(1) P1]
  show "Q a s'" if "idb_tx E body s = (Inr a, s')" for a s'
    using that body(1) assms(3)
    by (auto simp: idb_tx_def and_then_def idb_request_def ok_def uncounted_def Let_def
        split: if_splits sum.splits prod.splits tx_error.splits)
  show "P s'" if "idb_tx E body s = (Inl e, s')" for e s'
    using that body(2) P assms(2)
    by (auto simp: idb_tx_def and_then_def idb_request_def ok_def uncounted_def undo_def Let_def
        split: if_splits sum.splits prod.splits tx_error.splits)
qed

lemma triple_to_js:
  "(\<And>y s. P s \<Longrightarrow> conv (to_js_value E) x = Some y \<Longrightarrow> Q y s) \<Longrightarrow>
   (\<And>s. P s \<Longrightarrow> conv (to_js_value E) x = None \<Longrightarrow> X (IndexedDb (js_message E)) s) \<Longrightarrow>
   triple P (to_js E conv x) Q X"
  by (cases "conv (to_js_value E) x") (auto simp: to_js_def converted_def intro!: triple_ok triple_err)

lemma triple_from_js:
  "(\<And>y s. P s \<Longrightarrow> conv (from_js_value E) x = Some y \<Longrightarrow> Q y s) \<Longrightarrow>
   (\<And>s. P s \<Longrightarrow> conv (from_js_value E) x = None \<Longrightarrow> X (IndexedDb (js_message E)) s) \<Longrightarrow>
   triple P (from_js E conv x) Q X"
  by (cases "conv (from_js_value E) x") (auto simp: from_js_def converted_def intro!: triple_ok triple_err)

lemma triple_collect_keeps:
  "(\<And>x. triple P (f x) (\<lambda>_. P) X) \<Longrightarrow> triple P (collect f xs) (\<lambda>_. P) X"
  by (induction xs) (auto intro!: triple_ok triple_and_then)

section \<open>The invariant\<close>

definition client_inv :: "'j client_db \<Rightarrow> bool" where
  "client_inv s \<longleftrightarrow>
     sorted_store (db_revisions s) \<and> sorted_store (db_heads s) \<and> sorted_store (db_files s) \<and>
     (\<forall>(k, x) \<in> set (db_revisions s). rec_id x = k) \<and>
     (\<forall>(k, x) \<in> set (db_heads s). k = (head_object_id x, head_revision_id x) \<and>
        head_revision_id x \<in> fst ` set (db_revisions s))"

abbreviation stored_ids :: "'j client_db \<Rightarrow> RevisionId set" where
  "stored_ids s \<equiv> fst ` set (db_revisions s)"

text \<open>The invariant, with some revisions known to be stored\<close>

definition inv_with :: "RevisionId set \<Rightarrow> 'j client_db \<Rightarrow> bool" where
  "inv_with A s \<longleftrightarrow> client_inv s \<and> A \<subseteq> stored_ids s"

lemma uncounted_inv_with [simp, intro]: "uncounted (inv_with A)"
  by (rule uncountedI) (simp add: inv_with_def client_inv_def)

lemma uncounted_const [simp, intro]: "uncounted (\<lambda>_. c)"
  by (simp add: uncounted_def)

lemma inv_with_mono: "inv_with A s \<Longrightarrow> B \<subseteq> A \<Longrightarrow> inv_with B s"
  by (auto simp: inv_with_def)

lemma set_store_put: "set (store_put k r s) \<subseteq> insert (k, r) (set s)"
  by (induction k r s rule: store_put.induct) auto

lemma inv_with_put_record:
  assumes "inv_with A s"
  shows "inv_with (insert (rec_id x) A) (snd (put_record x s))"
  using assms set_store_put[of "rec_id x" x "db_revisions s"] set_store_put_keys[of "rec_id x" x "db_revisions s"]
  by (auto simp: inv_with_def client_inv_def put_record_def sorted_store_put)

lemma inv_with_put_head:
  assumes "inv_with A s" "head_revision_id x \<in> A"
  shows "inv_with A (snd (put_head x s))"
  using assms set_store_put[of "(head_object_id x, head_revision_id x)" x "db_heads s"]
  by (auto simp: inv_with_def client_inv_def put_head_def sorted_store_put)

lemma inv_with_delete_head:
  assumes "inv_with A s"
  shows "inv_with A (snd (delete_head ob i s))"
  using assms by (auto simp: inv_with_def client_inv_def delete_head_def store_delete_def sorted_store_filter)

lemma convert_record_id: "convert_record f x = Some y \<Longrightarrow> rec_id y = rec_id x"
  by (auto simp: convert_record_def)

lemma convert_head_ids:
  "convert_head f x = Some y \<Longrightarrow> head_object_id y = head_object_id x \<and> head_revision_id y = head_revision_id x"
  by (auto simp: convert_head_def split: option.splits)

section \<open>Every operation keeps it\<close>

lemma put_revision_keeps:
  "triple (inv_with A) (put_revision E x) (\<lambda>_. inv_with (insert (rec_id x) A)) (\<lambda>_. inv_with A)"
proof -
  have "triple (inv_with A) (idb_tx E (idb_request E (put_record y))) (\<lambda>_. inv_with (insert (rec_id y) A)) (\<lambda>_. inv_with A)"
    for y
    by (rule triple_idb_tx_keeps, rule triple_idb_request) (auto intro: inv_with_put_record)
  then have "triple (\<lambda>s. inv_with A s \<and> rec_id y = rec_id x) (idb_tx E (idb_request E (put_record y)))
      (\<lambda>_. inv_with (insert (rec_id x) A)) (\<lambda>_. inv_with A)" for y
    by (intro triple_pure) metis
  then show ?thesis
    unfolding put_revision_def
    by (intro triple_and_then[where R = "\<lambda>y s. inv_with A s \<and> rec_id y = rec_id x"] triple_to_js)
      (auto dest: convert_record_id)
qed

lemma set_status_keeps: "triple (inv_with A) (set_status E i st) (\<lambda>_. inv_with A) (\<lambda>_. inv_with A)"
proof -
  have put: "triple (inv_with A) (idb_request E (put_record y)) (\<lambda>_. inv_with A)
      (\<lambda>e s. case e of Aborted \<Rightarrow> True | Left c \<Rightarrow> inv_with A s)" for y
    by (rule triple_idb_request) (auto intro: inv_with_mono[OF inv_with_put_record])
  show ?thesis
    unfolding set_status_def
    by (intro triple_idb_tx_keeps triple_and_then[where R = "\<lambda>_. inv_with A"] triple_idb_request)
      (auto split: option.split
        intro!: triple_ok triple_and_then[where R = "\<lambda>_. inv_with A"] triple_map_err triple_to_js triple_from_js put)
qed

lemma get_heads_in_store_keeps:
  "triple (inv_with A) (get_heads_in_store E ob) (\<lambda>_. inv_with A)
     (\<lambda>e s. case e of Aborted \<Rightarrow> True | Left c \<Rightarrow> inv_with A s)"
  unfolding get_heads_in_store_def
  by (intro triple_and_then[where R = "\<lambda>_. inv_with A"] triple_idb_request triple_map_err triple_collect_keeps triple_from_js) auto

lemma put_heads_keeps:
  assumes "\<And>x. x \<in> set xs \<Longrightarrow> head_revision_id x \<in> A"
  shows "triple (inv_with A) (put_heads E xs) (\<lambda>_. inv_with A)
     (\<lambda>e s. case e of Aborted \<Rightarrow> True | Left c \<Rightarrow> inv_with A s)"
proof -
  have put: "triple (\<lambda>s. inv_with A s \<and> head_revision_id y \<in> A) (idb_request E (put_head y)) (\<lambda>_. inv_with A)
      (\<lambda>e s. case e of Aborted \<Rightarrow> True | Left c \<Rightarrow> inv_with A s)" for y
    by (intro triple_pure triple_idb_request) (auto intro: inv_with_put_head)
  show ?thesis
    unfolding put_heads_def
    by (intro triple_for_each_keeps triple_and_then[where R = "\<lambda>y s. inv_with A s \<and> head_revision_id y \<in> A"]
        triple_map_err triple_to_js put) (auto dest: convert_head_ids simp: assms)
qed

lemma heads_writes_keep:
  assumes "\<And>r. r \<in> set rs \<Longrightarrow> rev_id r \<in> A"
  shows "triple (inv_with A) (replace_heads E ob rs) (\<lambda>_. inv_with A) (\<lambda>_. inv_with A)"
    and "triple (inv_with A) (add_heads E rs) (\<lambda>_. inv_with A) (\<lambda>_. inv_with A)"
proof -
  have del: "triple (inv_with A) (idb_request E (delete_head ob i)) (\<lambda>_. inv_with A)
      (\<lambda>e s. case e of Aborted \<Rightarrow> True | Left c \<Rightarrow> inv_with A s)" for i
    by (rule triple_idb_request) (auto intro: inv_with_delete_head)
  show "triple (inv_with A) (replace_heads E ob rs) (\<lambda>_. inv_with A) (\<lambda>_. inv_with A)"
    unfolding replace_heads_def
    by (intro triple_idb_tx_keeps triple_and_then[where R = "\<lambda>_. inv_with A"] get_heads_in_store_keeps
        triple_for_each_keeps del put_heads_keeps) (auto simp: head_record_from_revision_def assms)
  show "triple (inv_with A) (add_heads E rs) (\<lambda>_. inv_with A) (\<lambda>_. inv_with A)"
    unfolding add_heads_def
    by (intro triple_idb_tx_keeps put_heads_keeps) (auto simp: head_record_from_revision_def assms)
qed

lemma store_new_head_keeps: "triple (inv_with A) (store_new_head E r) (\<lambda>_. inv_with A) (\<lambda>_. inv_with A)"
proof -
  have "triple (inv_with (insert (rev_id r) A)) (replace_heads E (rev_object_id r) [r]) (\<lambda>_. inv_with A) (\<lambda>_. inv_with A)"
    by (rule triple_weaken[OF heads_writes_keep(1)[of "[r]" "insert (rev_id r) A"]]) (auto intro: inv_with_mono)
  with put_revision_keeps[of A E "from_revision r Pending"] show ?thesis
    unfolding store_new_head_def
    by (intro triple_and_then[where R = "\<lambda>_. inv_with (insert (rev_id r) A)"]) (simp_all add: from_revision_def)
qed

text \<open>Operations that read, and operations on the other stores\<close>

lemma read_keeps:
  "triple (inv_with A) (idb_tx E (idb_request E (\<lambda>s. (f s, s)))) (\<lambda>_. inv_with A) (\<lambda>_. inv_with A)"
  by (intro triple_idb_tx_keeps triple_idb_request) auto

lemma client_get_heads_keeps:
  "triple (inv_with A) (client_get_heads E ob) (\<lambda>_. inv_with A) (\<lambda>_. inv_with A)"
  unfolding client_get_heads_def by (intro triple_idb_tx_keeps get_heads_in_store_keeps) auto

lemma other_writes_keep:
  "triple (inv_with A) (put_file E ob d) (\<lambda>_. inv_with A) (\<lambda>_. inv_with A)"
  "triple (inv_with A) (client_delete_file E ob) (\<lambda>_. inv_with A) (\<lambda>_. inv_with A)"
  "triple (inv_with A) (write_sync_state E c u t) (\<lambda>_. inv_with A) (\<lambda>_. inv_with A)"
proof -
  have sync: "triple (inv_with A) (idb_tx E (idb_request E (\<lambda>s. ((), s\<lparr>db_sync := x\<rparr>)))) (\<lambda>_. inv_with A) (\<lambda>_. inv_with A)" for x
    by (intro triple_idb_tx_keeps triple_idb_request) (auto simp: inv_with_def client_inv_def)
  show "triple (inv_with A) (write_sync_state E c u t) (\<lambda>_. inv_with A) (\<lambda>_. inv_with A)"
    unfolding write_sync_state_def converted_def
    by (intro triple_and_then[where R = "\<lambda>_. inv_with A"] sync) (auto split: option.split intro: triple_ok triple_err)
  show "triple (inv_with A) (put_file E ob d) (\<lambda>_. inv_with A) (\<lambda>_. inv_with A)"
    "triple (inv_with A) (client_delete_file E ob) (\<lambda>_. inv_with A) (\<lambda>_. inv_with A)"
    unfolding put_file_def client_delete_file_def
    by (intro triple_idb_tx_keeps triple_idb_request;
        auto simp: inv_with_def client_inv_def sorted_store_put store_delete_def sorted_store_filter)+
qed

lemmas keeps_inv_rules = triple_ok triple_err triple_map_err triple_to_js triple_from_js triple_collect_keeps
  store_new_head_keeps read_keeps client_get_heads_keeps other_writes_keep set_status_keeps

lemma serialised_keeps: "triple P (serialised x) (\<lambda>_. P) (\<lambda>_. P)"
  by (cases x) (auto simp: serialised_def intro: triple_ok triple_err)

lemma check_parents_keeps: "triple P (check_parents_are_heads hs ps) (\<lambda>_. P) (\<lambda>_. P)"
  by (auto simp: check_parents_are_heads_def intro: triple_ok triple_err)

lemma supersede_keeps:
  "triple (inv_with A) (supersede E repo fresh now ob parent c) (\<lambda>_. inv_with A) (\<lambda>_. inv_with A)"
  unfolding supersede_def
  by (intro triple_and_then[where R = "\<lambda>_. inv_with A"] client_get_heads_keeps)
    (auto split: list.split intro!: triple_and_then[where R = "\<lambda>_. inv_with A"] check_parents_keeps keeps_inv_rules)

lemma repository_writes_keep:
  "triple (inv_with A) (save E repo tv ob fresh now ty v) (\<lambda>_. inv_with A) (\<lambda>_. inv_with A)"
  "triple (inv_with A) (repo_update E repo tv fresh now ob parent v) (\<lambda>_. inv_with A) (\<lambda>_. inv_with A)"
  "triple (inv_with A) (repo_delete E repo fresh now ob parent) (\<lambda>_. inv_with A) (\<lambda>_. inv_with A)"
  "triple (inv_with A) (resolve_conflict E repo tv fresh now ob ps c) (\<lambda>_. inv_with A) (\<lambda>_. inv_with A)"
  unfolding save_def repo_update_def repo_delete_def resolve_conflict_def
  by (auto split: list.split VersionContent.split
      intro!: triple_and_then[where R = "\<lambda>_. inv_with A"] serialised_keeps supersede_keeps check_parents_keeps keeps_inv_rules)


section \<open>Synchronisation and opening\<close>

lemma triple_on_db:
  "triple P m Q X \<Longrightarrow>
   triple (\<lambda>w. P (local_db w)) (on_db m) (\<lambda>a w. Q a (local_db w)) (\<lambda>e w. X e (local_db w))"
  by (auto simp: triple_def on_db_def split: prod.splits sum.splits)

lemma triple_on_remote:
  "(\<And>w. P w \<Longrightarrow> Q (fst (f (remote w))) (w\<lparr>remote := snd (f (remote w))\<rparr>)) \<Longrightarrow> triple P (on_remote f) Q X"
  by (simp add: triple_def on_remote_def case_prod_beta)

lemma triple_answer:
  "(\<And>w a. P w \<Longrightarrow> res = Answer a \<Longrightarrow> Q a w) \<Longrightarrow> (\<And>w m. P w \<Longrightarrow> X (Network m) w) \<Longrightarrow>
   triple P (answer_or_network what res) Q X"
  by (cases res) (auto simp: answer_or_network_def intro: triple_ok triple_err)

text \<open>A loop whose steps each store some revisions\<close>

lemma fold_each_stores:
  assumes "\<And>A x acc. triple (inv_with A) (f x acc) (\<lambda>_. inv_with (A \<union> g x)) (\<lambda>_. inv_with A)"
  shows "triple (inv_with A) (fold_each f xs acc) (\<lambda>_. inv_with (A \<union> (\<Union>x \<in> set xs. g x))) (\<lambda>_. inv_with A)"
proof (induction xs arbitrary: A acc)
  case (Cons x xs)
  have "triple (inv_with (A \<union> g x)) (fold_each f xs b) (\<lambda>_. inv_with (A \<union> (\<Union>x \<in> set (x # xs). g x))) (\<lambda>_. inv_with A)" for b
    by (rule triple_weaken[OF Cons.IH[of "A \<union> g x"]]) (auto intro: inv_with_mono simp: Un_assoc)
  then show ?case unfolding fold_each.simps by (rule triple_and_then[OF assms])
qed (simp add: triple_ok)

lemma put_revisions_keep:
  "triple (inv_with A)
     (fold_each (\<lambda>r n. and_then (put_revision E (from_revision r st)) (\<lambda>_. ok (n + 1))) rs (n :: 32 word))
     (\<lambda>_. inv_with (A \<union> rev_id ` set rs)) (\<lambda>_. inv_with A)"
proof -
  have "triple (inv_with A) (and_then (put_revision E (from_revision r st)) (\<lambda>_. ok (m + 1)))
      (\<lambda>_. inv_with (A \<union> {rev_id r})) (\<lambda>_. inv_with A)" for A r and m :: "32 word"
    using put_revision_keeps[of A E "from_revision r st"]
    by (auto intro!: triple_and_then[where R = "\<lambda>_. inv_with (insert (rev_id r) A)"] triple_ok simp: from_revision_def)
  from fold_each_stores[of "\<lambda>r n. and_then (put_revision E (from_revision r st)) (\<lambda>_. ok (n + 1))" "\<lambda>r. {rev_id r}", OF this]
  show ?thesis by (simp add: UNION_singleton_eq_range)
qed

lemma apply_update_stores:
  "triple (inv_with A) (apply_update E u counts)
     (\<lambda>_. inv_with (A \<union> rev_id ` set (upd_heads u))) (\<lambda>_. inv_with A)"
proof -
  let ?B = "A \<union> rev_id ` set (upd_heads u)"
  have weaken: "triple (inv_with ?B) m (\<lambda>_. inv_with ?B) (\<lambda>_. inv_with A)"
    if "triple (inv_with ?B) m (\<lambda>_. inv_with ?B) (\<lambda>_. inv_with ?B)" for m :: "('j, 'c) idb_op"
    by (rule triple_weaken[OF that]) (auto intro: inv_with_mono)
  show ?thesis
    unfolding apply_update_def
    by (auto split: prod.split HeadAction.split
        intro!: triple_and_then[where R = "\<lambda>_. inv_with ?B"] put_revisions_keep weaken
          heads_writes_keep client_get_heads_keeps triple_ok)
qed

text \<open>Once all updates are applied, every revision they delivered is stored.\<close>

lemma apply_updates_stores:
  "triple (inv_with A) (apply_updates E us)
     (\<lambda>_. inv_with (A \<union> (\<Union>u \<in> set us. rev_id ` set (upd_heads u)))) (\<lambda>_. inv_with A)"
  unfolding apply_updates_def by (rule fold_each_stores) (rule apply_update_stores)

lemma apply_updates_keeps:
  "triple (inv_with A) (apply_updates E us) (\<lambda>_. inv_with A) (\<lambda>_. inv_with A)"
  by (rule triple_weaken[OF apply_updates_stores]) (auto intro: inv_with_mono)

lemma read_sync_state_keeps:
  "triple (inv_with A) (read_sync_state E) (\<lambda>_. inv_with A) (\<lambda>_. inv_with A)"
  unfolding read_sync_state_def
  by (intro triple_and_then[where R = "\<lambda>_. inv_with A"] read_keeps) (auto intro: triple_ok)

lemma advance_cursor_keeps:
  "triple (inv_with A) (advance_cursor E up_to) (\<lambda>_. inv_with A) (\<lambda>_. inv_with A)"
  unfolding advance_cursor_def
  by (intro triple_and_then[where R = "\<lambda>_. inv_with A"] read_sync_state_keeps)
    (auto split: option.split intro!: keeps_inv_rules)

abbreviation world_inv :: "RevisionId set \<Rightarrow> ('j, 's) world \<Rightarrow> bool" where
  "world_inv A w \<equiv> inv_with A (local_db w)"

lemma get_pending_revisions_keeps:
  "triple (inv_with A) (get_pending_revisions E) (\<lambda>_. inv_with A) (\<lambda>_. inv_with A)"
  unfolding get_pending_revisions_def
  by (intro triple_and_then[where R = "\<lambda>_. inv_with A"] read_keeps triple_collect_keeps triple_from_js)

lemma remote_keeps:
  "triple (world_inv A) (on_remote f) (\<lambda>_. world_inv A) (\<lambda>_. world_inv A)"
  "triple (world_inv A) (answer_or_network what res) (\<lambda>_. world_inv A) (\<lambda>_. world_inv A)"
  by (rule triple_on_remote, simp) (rule triple_answer)

lemma sync_keeps:
  "triple (world_inv A) (push_pending E srv url) (\<lambda>_. world_inv A) (\<lambda>_. world_inv A)"
  "triple (world_inv A) (pull_updates E srv url q) (\<lambda>_. world_inv A) (\<lambda>_. world_inv A)"
  "triple (world_inv A) (repo_sync E srv url q) (\<lambda>_. world_inv A) (\<lambda>_. world_inv A)"
proof -
  note db = triple_on_db[where P = "inv_with A" and Q = "\<lambda>_. inv_with A" and X = "\<lambda>_. inv_with A"]
  note step = triple_and_then[where R = "\<lambda>_. world_inv A"]
  show push: "triple (world_inv A) (push_pending E srv url) (\<lambda>_. world_inv A) (\<lambda>_. world_inv A)"
    unfolding push_pending_def mark_revision_synced_def mark_revision_error_def
    by (auto intro!: step db remote_keeps get_pending_revisions_keeps set_status_keeps triple_for_each_keeps triple_ok)
  show pull: "triple (world_inv A) (pull_updates E srv url q) (\<lambda>_. world_inv A) (\<lambda>_. world_inv A)" for q
    unfolding pull_updates_def
    by (auto intro!: step db remote_keeps apply_updates_keeps advance_cursor_keeps triple_ok)
  show "triple (world_inv A) (repo_sync E srv url q) (\<lambda>_. world_inv A) (\<lambda>_. world_inv A)"
    unfolding repo_sync_def sync_def
    by (auto split: prod.split intro!: step db read_sync_state_keeps push pull triple_ok)
qed

lemma open_database_inv:
  "client_inv s \<Longrightarrow> client_inv (snd (open_database E key_path_ok schema s))"
  by (auto simp: open_database_def on_upgrade_needed_def client_inv_def sorted_store_def Let_def split: option.split)

lemma open_database_keeps:
  "client_inv s \<Longrightarrow> db_version s \<noteq> 0 \<Longrightarrow>
   db_revisions (snd (open_database E key_path_ok schema s)) = db_revisions s"
  by (auto simp: open_database_def on_upgrade_needed_def Let_def split: option.split)

end
