(* ===== verification/ClientReach.thy ===== *)
theory ClientReach
  imports ClientInv
begin

text \<open>
  The states a client can get into: any sequence of calls of its public interface
  (\<^verbatim>\<open>repository.rs\<close>), each with its own faults of the browser and its own server, and any change
  at the server in between. The invariant of the database holds in all of them, and no call
  loses a revision.
\<close>

section \<open>Calls\<close>

datatype ('v, 't) client_call =
    Call_Open IndexSchema string
  | Call_Open_Offline IndexSchema ClientId UserId
  | Call_Save ObjectId RevisionId DateTime string 't
  | Call_Update RevisionId DateTime ObjectId RevisionId 't
  | Call_Delete RevisionId DateTime ObjectId RevisionId
  | Call_Get ObjectId
  | Call_Resolve RevisionId DateTime ObjectId "RevisionId list" "'t VersionContent"
  | Call_Save_File ObjectId "8 word list"
  | Call_Get_File ObjectId
  | Call_Delete_File ObjectId
  | Call_Sync string "'v PullRequest"

text \<open>What a call runs in: the browser, the server, the application's conversions, the repository\<close>

record ('v, 'j, 's, 't) client_env =
  ce_idb :: "('v, 'j) idb_env"
  ce_key_path_ok :: "string list \<Rightarrow> bool"
  ce_server :: "('v, 's) remote_server"
  ce_to_value :: "'t \<Rightarrow> string + 'v"
  ce_from_value :: "'v \<Rightarrow> string + 't"
  ce_repo :: Repository

text \<open>The state after a call, successful or not\<close>

fun after_call :: "('v, 'j, 's, 't) client_env \<Rightarrow> ('v, 't) client_call \<Rightarrow> ('j, 's) world \<Rightarrow> ('j, 's) world" where
  "after_call X (Call_Open schema url) w =
     snd (repo_open (ce_idb X) (ce_key_path_ok X) (ce_server X) schema url w)"
| "after_call X (Call_Open_Offline schema c u) w =
     snd (on_db_open (open_offline (ce_idb X) (ce_key_path_ok X) schema c u) w)"
| "after_call X (Call_Save ob fresh now ty v) w =
     snd (on_db (save (ce_idb X) (ce_repo X) (ce_to_value X) ob fresh now ty v) w)"
| "after_call X (Call_Update fresh now ob parent v) w =
     snd (on_db (repo_update (ce_idb X) (ce_repo X) (ce_to_value X) fresh now ob parent v) w)"
| "after_call X (Call_Delete fresh now ob parent) w =
     snd (on_db (repo_delete (ce_idb X) (ce_repo X) fresh now ob parent) w)"
| "after_call X (Call_Get ob) w = snd (on_db (repo_get (ce_idb X) (ce_from_value X) ob) w)"
| "after_call X (Call_Resolve fresh now ob ps c) w =
     snd (on_db (resolve_conflict (ce_idb X) (ce_repo X) (ce_to_value X) fresh now ob ps c) w)"
| "after_call X (Call_Save_File ob d) w = snd (on_db (save_file_data (ce_idb X) ob d) w)"
| "after_call X (Call_Get_File ob) w = snd (on_db (get_file_data (ce_idb X) ob) w)"
| "after_call X (Call_Delete_File ob) w = snd (on_db (delete_file_data (ce_idb X) ob) w)"
| "after_call X (Call_Sync url q) w = snd (repo_sync (ce_idb X) (ce_server X) url q w)"

text \<open>\<open>envs\<close> are the environments that calls may run in.\<close>

inductive client_reaches :: "('v, 'j, 's, 't) client_env set \<Rightarrow> ('j, 's) world \<Rightarrow> bool" for envs where
  start: "client_reaches envs \<lparr>local_db = empty_db, remote = s\<rparr>"
| called: "client_reaches envs w \<Longrightarrow> X \<in> envs \<Longrightarrow> client_reaches envs (after_call X c w)"
| elsewhere: "client_reaches envs w \<Longrightarrow> client_reaches envs (w\<lparr>remote := s\<rparr>)"

section \<open>Every call keeps the invariant\<close>

lemma triple_keeps_iff: "triple P m (\<lambda>_. Q) (\<lambda>_. Q) \<longleftrightarrow> (\<forall>s. P s \<longrightarrow> Q (snd (m s)))"
  by (auto simp: triple_def case_prod_beta split: sum.split)

lemma triple_snd: "triple P m (\<lambda>_. Q) (\<lambda>_. Q) \<Longrightarrow> P s \<Longrightarrow> Q (snd (m s))"
  by (simp add: triple_keeps_iff)

lemma on_db_inv:
  "triple (inv_with A) m (\<lambda>_. inv_with A) (\<lambda>_. inv_with A) \<Longrightarrow> world_inv A w \<Longrightarrow> world_inv A (snd (on_db m w))"
  by (rule triple_snd[OF triple_on_db])

lemma repo_get_keeps: "triple (inv_with A) (repo_get E fv ob) (\<lambda>_. inv_with A) (\<lambda>_. inv_with A)"
proof -
  have "triple (inv_with A) (version_content fv c) (\<lambda>_. inv_with A) (\<lambda>_. inv_with A)" for c
    by (cases c) (auto intro!: triple_and_then[where R = "\<lambda>_. inv_with A"] serialised_keeps triple_ok)
  then show ?thesis
    unfolding repo_get_def
    by (intro triple_and_then[where R = "\<lambda>_. inv_with A"] client_get_heads_keeps triple_collect_keeps) (auto intro: triple_ok)
qed

lemma file_data_keeps:
  "triple (inv_with A) (save_file_data E ob d) (\<lambda>_. inv_with A) (\<lambda>_. inv_with A)"
  "triple (inv_with A) (get_file_data E ob) (\<lambda>_. inv_with A) (\<lambda>_. inv_with A)"
  "triple (inv_with A) (delete_file_data E ob) (\<lambda>_. inv_with A) (\<lambda>_. inv_with A)"
  unfolding save_file_data_def get_file_data_def delete_file_data_def client_get_file_def
  by (rule other_writes_keep read_keeps)+

text \<open>Opening: after \<^verbatim>\<open>open_database\<close> the rest keeps the invariant.\<close>

lemma fetch_whoami_keeps:
  "triple (world_inv A) (fetch_whoami srv url) (\<lambda>_. world_inv A) (\<lambda>_. world_inv A)"
  unfolding fetch_whoami_def
  by (auto split: http_result.split intro!: triple_and_then[where R = "\<lambda>_. world_inv A"] remote_keeps triple_ok triple_err)

lemma with_identity_keeps:
  "triple (world_inv A) (with_identity E srv url known) (\<lambda>_. world_inv A) (\<lambda>_. world_inv A)"
proof -
  obtain c u t where known: "known = (c, u, t)" by (cases known)
  have wr: "triple (world_inv A) (and_then (on_db (write_sync_state E i j t)) (\<lambda>_. ok (i, j)))
      (\<lambda>_. world_inv A) (\<lambda>_. world_inv A)" for i j
    by (rule triple_and_then[where R = "\<lambda>_. world_inv A"], rule triple_on_db, rule other_writes_keep) (rule triple_ok)
  have "world_inv A (snd (with_identity E srv url known w))" if "world_inv A w" for w
  proof -
    obtain r w1 where run: "fetch_whoami srv url w = (r, w1)" by (cases "fetch_whoami srv url w")
    with triple_snd[OF fetch_whoami_keeps that, of srv url] have w1: "world_inv A w1" by simp
    show ?thesis
      using w1 triple_snd[OF wr w1]
      by (cases r) (auto simp: with_identity_def known run split: RustendClientError.split option.split)
  qed
  then show ?thesis by (simp add: triple_keeps_iff)
qed

lemma after_open_inv:
  assumes opened: "inv_with A (snd (open_database E key_path_ok schema (local_db w)))"
  shows "world_inv A (snd (repo_open E key_path_ok srv schema url w))"
    and "world_inv A (snd (on_db_open (open_offline E key_path_ok schema c u) w))"
proof -
  note step = triple_and_then[where R = "\<lambda>_. world_inv A"]
  have rest: "triple (world_inv A)
      (map_err Open_Failed (and_then (on_db (read_sync_state E)) (\<lambda>known. and_then (with_identity E srv url known)
        (\<lambda>(c, u). ok \<lparr> repo_client_id = c, repo_user_id = u, repo_schema = schema \<rparr>))))
      (\<lambda>_. world_inv A) (\<lambda>_. world_inv A)"
    by (auto split: prod.split
        intro!: step triple_map_err triple_on_db[OF read_sync_state_keeps] with_identity_keeps triple_ok)
  have offline: "triple (inv_with A)
      (map_err Open_Failed (and_then (write_sync_state E c u None)
        (\<lambda>_. ok \<lparr> repo_client_id = c, repo_user_id = u, repo_schema = schema \<rparr>)))
      (\<lambda>_. inv_with A) (\<lambda>_. inv_with A)"
    by (auto intro!: triple_and_then[where R = "\<lambda>_. inv_with A"] triple_map_err other_writes_keep triple_ok)
  obtain r d where run: "open_database E key_path_ok schema (local_db w) = (r, d)"
    by (cases "open_database E key_path_ok schema (local_db w)")
  with opened have d: "inv_with A d" by simp
  show "world_inv A (snd (repo_open E key_path_ok srv schema url w))"
    using triple_snd[OF rest, of "w\<lparr>local_db := d\<rparr>"] d run
    by (cases r) (simp_all add: repo_open_def and_then_def on_db_open_def)
  show "world_inv A (snd (on_db_open (open_offline E key_path_ok schema c u) w))"
    using triple_snd[OF offline d] d run
    by (cases r) (simp_all add: open_offline_def and_then_def on_db_open_def case_prod_beta)
qed

text \<open>A call keeps the invariant with any stored revisions; opening does where the database exists.\<close>

lemma after_call_inv:
  assumes "world_inv A w" "db_version (local_db w) = 0 \<Longrightarrow> A = {}"
  shows "world_inv A (after_call X c w)"
proof -
  have opened: "inv_with A (snd (open_database (ce_idb X) k schema (local_db w)))" for k schema
    using assms open_database_inv[of "local_db w" "ce_idb X" k schema] open_database_keeps[of "local_db w" "ce_idb X" k schema]
    by (cases "db_version (local_db w) = 0") (auto simp: inv_with_def)
  show ?thesis
    using assms(1) opened
    by (cases c) (simp_all add: on_db_inv repository_writes_keep repo_get_keeps file_data_keeps after_open_inv
        triple_snd[OF sync_keeps(3)])
qed

lemma empty_db_inv: "client_inv empty_db"
  by (simp add: client_inv_def empty_db_def sorted_store_def)

lemma client_reaches_keeps: "client_reaches envs w \<Longrightarrow> world_inv {} w"
proof (induction rule: client_reaches.induct)
  case (called w X c)
  from called.IH show ?case by (rule after_call_inv) simp
qed (simp_all add: inv_with_def empty_db_inv)

end
