(* ===== verification/ClientSpec.thy ===== *)
theory ClientSpec
  imports ClientReach
begin

text \<open>
  An abstract client: the same stores with the payloads themselves instead of JavaScript
  values, no faults and no transactions. Every operation of the client on a browser without
  faults refines its abstract counterpart: decoding the state commutes with the operation,
  and both return the same result or error. The operations of the repository refine the
  composition of the abstract ones, which the next theory reasons about.
\<close>

section \<open>Decoding the database\<close>

text \<open>A payload survives the way into the database and back; a content does if its payload does.\<close>

definition round_trips :: "('v, 'j) idb_env \<Rightarrow> 'v \<Rightarrow> bool" where
  "round_trips E v \<longleftrightarrow> (case to_js_value E v of Some j \<Rightarrow> from_js_value E j = Some v | None \<Rightarrow> False)"

definition content_ok :: "('v, 'j) idb_env \<Rightarrow> 'v Content \<Rightarrow> bool" where
  "content_ok E c \<longleftrightarrow> (case c of Active v \<Rightarrow> round_trips E v | Deleted \<Rightarrow> True)"

definition head_ok :: "('v, 'j) idb_env \<Rightarrow> 'v HeadRecord \<Rightarrow> bool" where
  "head_ok E x \<longleftrightarrow> content_ok E (head_content x) \<and> (case head_data x of Some v \<Rightarrow> round_trips E v | None \<Rightarrow> True)"

abbreviation decode_record :: "('v, 'j) idb_env \<Rightarrow> 'j RevisionRecord \<Rightarrow> 'v RevisionRecord" where
  "decode_record E x \<equiv> the (convert_record (from_js_value E) x)"

abbreviation decode_head :: "('v, 'j) idb_env \<Rightarrow> 'j HeadRecord \<Rightarrow> 'v HeadRecord" where
  "decode_head E x \<equiv> the (convert_head (from_js_value E) x)"

definition decoded_db :: "('v, 'j) idb_env \<Rightarrow> 'j client_db \<Rightarrow> 'v client_db" where
  "decoded_db E s = \<lparr> db_revisions = map (map_prod id (decode_record E)) (db_revisions s),
     db_heads = map (map_prod id (decode_head E)) (db_heads s), db_files = db_files s, db_sync = db_sync s,
     db_version = db_version s, db_indexes = db_indexes s, db_requests = 0 \<rparr>"

text \<open>Every stored record can be read, and what is read can be written again.\<close>

definition readable_record :: "('v, 'j) idb_env \<Rightarrow> 'j RevisionRecord \<Rightarrow> bool" where
  "readable_record E x \<longleftrightarrow>
     (case convert_record (from_js_value E) x of Some y \<Rightarrow> content_ok E (rec_content y) | None \<Rightarrow> False)"

definition readable_head :: "('v, 'j) idb_env \<Rightarrow> 'j HeadRecord \<Rightarrow> bool" where
  "readable_head E x \<longleftrightarrow> (case convert_head (from_js_value E) x of Some y \<Rightarrow> head_ok E y | None \<Rightarrow> False)"

definition readable :: "('v, 'j) idb_env \<Rightarrow> 'j client_db \<Rightarrow> bool" where
  "readable E s \<longleftrightarrow> (\<forall>x \<in> snd ` set (db_revisions s). readable_record E x) \<and>
     (\<forall>x \<in> snd ` set (db_heads s). readable_head E x)"

lemma readable_uncounted [simp]: "readable E (s\<lparr>db_requests := n\<rparr>) = readable E s"
  by (simp add: readable_def)

lemma decoded_uncounted [simp]: "decoded_db E (s\<lparr>db_requests := n\<rparr>) = decoded_db E s"
  by (simp add: decoded_db_def)

subsection \<open>Encoding and decoding records\<close>

lemma convert_content_encoded:
  "content_ok E c \<Longrightarrow> \<exists>d. convert_content (to_js_value E) c = Some d \<and> convert_content (from_js_value E) d = Some c"
  by (cases c) (auto simp: content_ok_def round_trips_def split: option.splits)

lemma encode_record:
  assumes "content_ok E (rec_content x)"
  obtains y where "convert_record (to_js_value E) x = Some y" "convert_record (from_js_value E) y = Some x"
    "readable_record E y" "rec_id y = rec_id x" "decode_record E y = x"
proof -
  obtain d where d: "convert_content (to_js_value E) (rec_content x) = Some d"
    "convert_content (from_js_value E) d = Some (rec_content x)"
    using convert_content_encoded[OF assms] by blast
  then have "convert_record (to_js_value E) x =
      Some \<lparr> rec_id = rec_id x, rec_object_id = rec_object_id x, rec_object_type = rec_object_type x,
        rec_lineage = rec_lineage x, rec_created_at = rec_created_at x, rec_created_by = rec_created_by x,
        rec_content = d, rec_sync_status = rec_sync_status x \<rparr>" (is "_ = Some ?y")
    by (simp add: convert_record_def)
  moreover have "convert_record (from_js_value E) ?y = Some x" using d by (simp add: convert_record_def)
  ultimately show ?thesis
    using assms by (intro that[of ?y]) (simp_all add: readable_record_def)
qed

lemma encode_head:
  assumes "head_ok E x"
  obtains y where "convert_head (to_js_value E) x = Some y" "convert_head (from_js_value E) y = Some x"
    "readable_head E y" "head_object_id y = head_object_id x" "head_revision_id y = head_revision_id x"
    "decode_head E y = x"
proof -
  obtain d where d: "convert_content (to_js_value E) (head_content x) = Some d"
    "convert_content (from_js_value E) d = Some (head_content x)"
    using assms convert_content_encoded unfolding head_ok_def by blast
  obtain y where y: "convert_head (to_js_value E) x = Some y" "convert_head (from_js_value E) y = Some x"
    using assms d by (cases "head_data x") (auto simp: convert_head_def head_ok_def round_trips_def split: option.splits)
  with assms convert_head_ids[OF y(1)] show ?thesis by (intro that[of y]) (simp_all add: readable_head_def)
qed

text \<open>Decoding commutes with the operations of the stores.\<close>

lemma store_put_map:
  "map (map_prod id f) (store_put k r s) = store_put k (f r) (map (map_prod id f) s)"
  by (induction k r s rule: store_put.induct) auto

lemma store_filter_map:
  "map (map_prod id f) (filter (\<lambda>(k, r). P k) s) = filter (\<lambda>(k, r). P k) (map (map_prod id f) s)"
  by (induction s) auto

lemma store_get_map: "store_get (map (map_prod id f) s) k = map_option f (store_get s k)"
  by (induction s) (auto simp: store_get_def)

section \<open>Refinement\<close>

definition refines ::
  "('v, 'j) idb_env \<Rightarrow> ('j client_db, 'e, 'a) fallible \<Rightarrow> ('v client_db, 'e, 'a) fallible \<Rightarrow> bool" where
  "refines E m f \<longleftrightarrow> (\<forall>s. readable E s \<longrightarrow> readable E (snd (m s)) \<and>
     fst (m s) = fst (f (decoded_db E s)) \<and> decoded_db E (snd (m s)) = snd (f (decoded_db E s)))"

lemma refinesI:
  assumes "\<And>s. readable E s \<Longrightarrow> readable E (snd (m s))"
    "\<And>s. readable E s \<Longrightarrow> fst (m s) = fst (f (decoded_db E s))"
    "\<And>s. readable E s \<Longrightarrow> decoded_db E (snd (m s)) = snd (f (decoded_db E s))"
  shows "refines E m f"
  using assms by (simp add: refines_def)

text \<open>A run of the abstract operation gives a run of the concrete one.\<close>

lemma refines_run:
  assumes "refines E m f" "readable E s" "f (decoded_db E s) = (r, t)"
  obtains s' where "m s = (r, s')" "readable E s'" "decoded_db E s' = t"
  using assms unfolding refines_def by (metis fst_conv snd_conv prod.collapse)

named_theorems refine \<open>operations and their abstract counterparts\<close>

lemma refines_ok [refine]: "refines E (ok a) (ok a)"
  by (simp add: refines_def ok_def)

lemma refines_err [refine]: "refines E (err e) (err e)"
  by (simp add: refines_def err_def)

lemma refines_and_then [refine]:
  assumes "refines E m f" "\<And>a. refines E (g a) (h a)"
  shows "refines E (and_then m g) (and_then f h)"
  unfolding refines_def
proof (intro allI impI)
  fix s
  assume "readable E s"
  obtain r t where f: "f (decoded_db E s) = (r, t)" by (cases "f (decoded_db E s)")
  obtain s' where m: "m s = (r, s')" "readable E s'" "decoded_db E s' = t"
    using refines_run[OF assms(1) \<open>readable E s\<close> f] .
  show "readable E (snd (and_then m g s)) \<and> fst (and_then m g s) = fst (and_then f h (decoded_db E s)) \<and>
      decoded_db E (snd (and_then m g s)) = snd (and_then f h (decoded_db E s))"
    using m assms(2) by (cases r) (auto simp: and_then_def f refines_def)
qed

lemma refines_fold_each [refine]:
  "(\<And>x acc. x \<in> set xs \<Longrightarrow> refines E (f x acc) (g x acc)) \<Longrightarrow> refines E (fold_each f xs acc) (fold_each g xs acc)"
  by (induction xs arbitrary: acc) (auto intro!: refine)

lemma refines_collect [refine]:
  "(\<And>x. refines E (f x) (g x)) \<Longrightarrow> refines E (collect f xs) (collect g xs)"
  by (induction xs) (auto intro!: refine)

text \<open>Abstract steps that cannot fail\<close>

definition plain :: "('s \<Rightarrow> 'a \<times> 's) \<Rightarrow> ('s, 'e, 'a) fallible" where
  "plain f = (\<lambda>s. (Inr (fst (f s)), snd (f s)))"

lemma plain_apply [simp]: "plain f s = (Inr (fst (f s)), snd (f s))"
  by (simp add: plain_def)

lemma refines_plain_run:
  assumes "refines E m (plain f)" "readable E s"
  obtains s' where "m s = (Inr (fst (f (decoded_db E s))), s')" "readable E s'" "decoded_db E s' = snd (f (decoded_db E s))"
  using refines_run[OF assms plain_apply] .

lemma and_then_plain: "and_then (plain f) g s = g (fst (f s)) (snd (f s))"
  by (simp add: and_then_def)

lemma refines_request:
  assumes "idb_ok E" "\<And>s. readable E s \<Longrightarrow> readable E (snd (f s))"
    "\<And>s. readable E s \<Longrightarrow> fst (f s) = fst (g (decoded_db E s))"
    "\<And>s. readable E s \<Longrightarrow> decoded_db E (snd (f s)) = snd (g (decoded_db E s))"
  shows "refines E (idb_request E f) (plain g)"
proof (rule refinesI)
  fix s
  assume s: "readable E s"
  let ?s = "s\<lparr>db_requests := Suc (db_requests s)\<rparr>"
  have run: "idb_request E f s = (Inr (fst (f ?s)), snd (f ?s))"
    using assms(1) by (simp add: idb_request_def idb_ok_def Let_def case_prod_beta)
  show "readable E (snd (idb_request E f s))" "fst (idb_request E f s) = fst (plain g (decoded_db E s))"
    "decoded_db E (snd (idb_request E f s)) = snd (plain g (decoded_db E s))"
    using s assms(2)[of ?s] assms(3)[of ?s] assms(4)[of ?s] by (simp_all add: run)
qed

lemma refines_tx:
  assumes "idb_ok E" "refines E body (plain g)"
  shows "refines E (idb_tx E body) (plain g)"
proof (rule refinesI)
  fix s
  assume s: "readable E s"
  let ?s = "s\<lparr>db_requests := Suc (db_requests s)\<rparr>"
  obtain s' where body: "body ?s = (Inr (fst (g (decoded_db E s))), s')" "readable E s'"
    "decoded_db E s' = snd (g (decoded_db E s))"
    using refines_run[OF assms(2), of ?s] s by auto
  note run = idb_tx_run[of E body s, OF assms(1) body(1)]
  show "readable E (snd (idb_tx E body s))" "fst (idb_tx E body s) = fst (plain g (decoded_db E s))"
    "decoded_db E (snd (idb_tx E body s)) = snd (plain g (decoded_db E s))"
    using body by (simp_all add: run)
qed

lemma refines_tx_request:
  assumes "idb_ok E" "\<And>s. readable E s \<Longrightarrow> readable E (snd (f s))"
    "\<And>s. readable E s \<Longrightarrow> fst (f s) = fst (g (decoded_db E s))"
    "\<And>s. readable E s \<Longrightarrow> decoded_db E (snd (f s)) = snd (g (decoded_db E s))"
  shows "refines E (idb_tx E (idb_request E f)) (plain g)"
  by (rule refines_tx[OF assms(1) refines_request[of E f g, OF assms]])


section \<open>The operations of the stores\<close>

lemma readable_put_record:
  "readable E s \<Longrightarrow> readable_record E y \<Longrightarrow> readable E (snd (put_record y s))"
  using set_store_put[of "rec_id y" y "db_revisions s"] by (auto simp: readable_def put_record_def image_iff)

lemma decoded_put_record:
  "decode_record E y = x \<Longrightarrow> rec_id y = rec_id x \<Longrightarrow>
   decoded_db E (snd (put_record y s)) = snd (put_record x (decoded_db E s))"
  by (simp add: put_record_def decoded_db_def store_put_map)

lemma readable_put_head:
  "readable E s \<Longrightarrow> readable_head E y \<Longrightarrow> readable E (snd (put_head y s))"
  using set_store_put[of "(head_object_id y, head_revision_id y)" y "db_heads s"]
  by (auto simp: readable_def put_head_def image_iff)

lemma decoded_put_head:
  "decode_head E y = x \<Longrightarrow> head_object_id y = head_object_id x \<Longrightarrow> head_revision_id y = head_revision_id x \<Longrightarrow>
   decoded_db E (snd (put_head y s)) = snd (put_head x (decoded_db E s))"
  by (simp add: put_head_def decoded_db_def store_put_map)

lemma refines_put_revision [refine]:
  assumes "idb_ok E" "content_ok E (rec_content x)"
  shows "refines E (put_revision E x) (plain (put_record x))"
proof -
  obtain y where y: "convert_record (to_js_value E) x = Some y" "readable_record E y" "rec_id y = rec_id x"
    "decode_record E y = x" using encode_record[OF assms(2)] by metis
  have "refines E (idb_tx E (idb_request E (put_record y))) (plain (put_record x))"
    using assms(1) y by (intro refines_tx_request) (auto simp: readable_put_record decoded_put_record)
  then show ?thesis
    by (simp add: put_revision_def to_js_def y(1) converted_def and_then_def ok_def)
qed

subsection \<open>Revisions\<close>

definition spec_pending :: "'v client_db \<Rightarrow> 'v RevisionRecord list \<times> 'v client_db" where
  "spec_pending s = (filter (\<lambda>x. rec_sync_status x = Pending) (map snd (db_revisions s)), s)"

definition spec_set_status :: "RevisionId \<Rightarrow> SyncStatus \<Rightarrow> 'v client_db \<Rightarrow> unit \<times> 'v client_db" where
  "spec_set_status i st s =
     (case store_get (db_revisions s) i of
        None \<Rightarrow> ((), s)
      | Some x \<Rightarrow> put_record (x\<lparr>rec_sync_status := st\<rparr>) s)"

lemma collect_total:
  "(\<And>x s. x \<in> set xs \<Longrightarrow> f x s = (Inr (g x), s)) \<Longrightarrow> collect f xs s = (Inr (map g xs), s)"
  by (induction xs) (simp_all add: and_then_def ok_def)

lemma readable_recordD:
  "readable_record E x \<Longrightarrow> convert_record (from_js_value E) x = Some (decode_record E x) \<and>
     content_ok E (rec_content (decode_record E x)) \<and> rec_sync_status (decode_record E x) = rec_sync_status x"
  by (auto simp: readable_record_def convert_record_def split: option.splits)

lemma readable_headD:
  "readable_head E x \<Longrightarrow> convert_head (from_js_value E) x = Some (decode_head E x)"
  by (auto simp: readable_head_def split: option.splits)

lemma collect_from_js:
  assumes "\<And>x. x \<in> set xs \<Longrightarrow> conv (from_js_value E) x = Some (g x)"
  shows "collect (from_js E conv) xs s = (Inr (map g xs), s)"
  by (rule collect_total) (simp add: from_js_def converted_def assms ok_def)

lemma filter_map_status:
  "\<forall>x \<in> set xs. rec_sync_status (f x) = rec_sync_status x \<Longrightarrow>
   filter (\<lambda>y. rec_sync_status y = Pending) (map f xs) = map f (filter (\<lambda>x. rec_sync_status x = Pending) xs)"
  by (induction xs) auto

lemma refines_get_pending_revisions [refine]:
  assumes "idb_ok E"
  shows "refines E (get_pending_revisions E) (plain spec_pending)"
proof (rule refinesI)
  fix s
  assume s: "readable E s"
  let ?xs = "map snd (db_revisions s)"
  have here: "\<forall>x \<in> set ?xs. readable_record E x" using s by (auto simp: readable_def)
  then have status: "\<forall>x \<in> set ?xs. rec_sync_status (decode_record E x) = rec_sync_status x"
    by (blast dest: readable_recordD)
  have collect: "collect (from_js E convert_record) (filter (\<lambda>x. rec_sync_status x = Pending) ?xs) t =
      (Inr (map (decode_record E) (filter (\<lambda>x. rec_sync_status x = Pending) ?xs)), t)" for t :: "'b client_db"
    using here readable_recordD by (intro collect_from_js) auto
  have decoded: "filter (\<lambda>x. rec_sync_status x = Pending) (map snd (db_revisions (decoded_db E s))) =
      map (decode_record E) (filter (\<lambda>x. rec_sync_status x = Pending) ?xs)"
    using filter_map_status[OF status] by (simp add: decoded_db_def comp_def)
  have "get_pending_revisions E s = (Inr (fst (spec_pending (decoded_db E s))), s\<lparr>db_requests := db_requests s + 3\<rparr>)"
    using assms collect
    by (simp add: get_pending_revisions_def and_then_def idb_tx_def idb_request_def idb_ok_def ok_def Let_def
        spec_pending_def decoded numeral_3_eq_3)
  then show "readable E (snd (get_pending_revisions E s))"
    "fst (get_pending_revisions E s) = fst (plain spec_pending (decoded_db E s))"
    "decoded_db E (snd (get_pending_revisions E s)) = snd (plain spec_pending (decoded_db E s))"
    using s by (simp_all add: spec_pending_def)
qed

lemma re_encode:
  fixes st :: SyncStatus
  assumes "readable_record E x"
  defines "r \<equiv> (decode_record E x)\<lparr>rec_sync_status := st\<rparr>"
  obtains y where "readable_record E y" "rec_id y = rec_id r" "decode_record E y = r"
    "and_then (map_err Left (from_js E convert_record x))
       (\<lambda>record. and_then (map_err Left (to_js E convert_record (record\<lparr>rec_sync_status := st\<rparr>)))
          (\<lambda>new_val. idb_request E (put_record new_val))) = idb_request E (put_record y)"
proof -
  have x: "convert_record (from_js_value E) x = Some (decode_record E x)" "content_ok E (rec_content r)"
    using readable_recordD[OF assms(1)] by (simp_all add: r_def)
  obtain z where z: "convert_record (from_js_value E) x = Some z" using x(1) by blast
  obtain y where y: "convert_record (to_js_value E) r = Some y" "readable_record E y" "rec_id y = rec_id r"
    "decode_record E y = r" using x(2) by (rule encode_record)
  show ?thesis
  proof (rule that[OF y(2,3,4)])
    show "and_then (map_err Left (from_js E convert_record x))
       (\<lambda>record. and_then (map_err Left (to_js E convert_record (record\<lparr>rec_sync_status := st\<rparr>)))
          (\<lambda>new_val. idb_request E (put_record new_val))) = idb_request E (put_record y)"
      unfolding from_js_def to_js_def z converted_def
      by (intro ext) (simp add: and_then_def map_err_def ok_def y(1)[unfolded r_def z option.sel])
  qed
qed

lemma refines_set_status [refine]:
  assumes "idb_ok E"
  shows "refines E (set_status E i st) (plain (spec_set_status i st))"
  unfolding set_status_def
proof (rule refines_tx[OF assms], rule refinesI)
  fix s
  assume s: "readable E s"
  let ?body = "and_then (idb_request E (\<lambda>s. (store_get (db_revisions s) i, s)))
     (\<lambda>found. case found of None \<Rightarrow> ok ()
        | Some val \<Rightarrow> and_then (map_err Left (from_js E convert_record val))
            (\<lambda>record. and_then (map_err Left (to_js E convert_record (record\<lparr>rec_sync_status := st\<rparr>)))
               (\<lambda>new_val. idb_request E (put_record new_val))))"
  let ?s = "s\<lparr>db_requests := Suc (db_requests s)\<rparr>"
  have found: "store_get (db_revisions (decoded_db E s)) i =
      map_option (decode_record E) (store_get (db_revisions s) i)"
    by (simp add: decoded_db_def store_get_map)
  have request: "idb_request E (\<lambda>s. (store_get (db_revisions s) i, s)) s = (Inr (store_get (db_revisions s) i), ?s)"
    using assms by (simp add: idb_request_def idb_ok_def)
  have "readable E (snd (?body s)) \<and> fst (?body s) = Inr () \<and>
      decoded_db E (snd (?body s)) = snd (spec_set_status i st (decoded_db E s))"
  proof (cases "store_get (db_revisions s) i")
    case None
    then have "?body s = (Inr (), ?s)" by (simp add: and_then_def request ok_def)
    then show ?thesis using s found None by (simp add: spec_set_status_def)
  next
    case (Some x)
    with s have x: "readable_record E x" by (force simp: readable_def store_get_def dest: map_of_SomeD)
    let ?r = "(decode_record E x)\<lparr>rec_sync_status := st\<rparr>"
    obtain y where y: "readable_record E y" "rec_id y = rec_id ?r" "decode_record E y = ?r"
      and rest: "and_then (map_err Left (from_js E convert_record x))
       (\<lambda>record. and_then (map_err Left (to_js E convert_record (record\<lparr>rec_sync_status := st\<rparr>)))
          (\<lambda>new_val. idb_request E (put_record new_val))) = idb_request E (put_record y)"
      using x by (rule re_encode)
    have "?body s = idb_request E (put_record y) ?s"
      by (simp add: and_then_def[of "idb_request E (\<lambda>s. (store_get (db_revisions s) i, s))"] request Some rest)
    moreover have "refines E (idb_request E (put_record y)) (plain (put_record ?r))"
      using assms y by (intro refines_request) (simp_all add: readable_put_record decoded_put_record)
    ultimately show ?thesis
      using s found Some unfolding refines_def by (simp add: spec_set_status_def)
  qed
  then show "readable E (snd (?body s))" "fst (?body s) = fst (plain (spec_set_status i st) (decoded_db E s))"
    "decoded_db E (snd (?body s)) = snd (plain (spec_set_status i st) (decoded_db E s))" by simp_all
qed

subsection \<open>Heads\<close>

definition spec_heads :: "ObjectId \<Rightarrow> 'v client_db \<Rightarrow> 'v HeadRecord list \<times> 'v client_db" where
  "spec_heads ob s = (map snd (store_get_all (head_range ob) (db_heads s)), s)"

definition spec_add_heads :: "'v HeadRecord list \<Rightarrow> 'v client_db \<Rightarrow> unit \<times> 'v client_db" where
  "spec_add_heads xs s = ((), fold (\<lambda>x s. snd (put_head x s)) xs s)"

definition spec_replace_heads ::
  "ObjectId \<Rightarrow> 'v HeadRecord list \<Rightarrow> 'v client_db \<Rightarrow> unit \<times> 'v client_db" where
  "spec_replace_heads ob xs s =
     spec_add_heads xs (fold (\<lambda>h s. snd (delete_head ob (head_revision_id h) s)) (fst (spec_heads ob s)) s)"

lemma refines_get_heads_in_store:
  assumes "idb_ok E"
  shows "refines E (get_heads_in_store E ob) (plain (spec_heads ob))"
proof (rule refinesI)
  fix s
  assume s: "readable E s"
  let ?xs = "map snd (store_get_all (head_range ob) (db_heads s))"
  have "collect (from_js E convert_head) ?xs t = (Inr (map (decode_head E) ?xs), t)" for t :: "'b client_db"
    using s by (intro collect_from_js readable_headD) (auto simp: readable_def store_get_all_def)
  moreover have "map snd (store_get_all (head_range ob) (db_heads (decoded_db E s))) = map (decode_head E) ?xs"
    by (simp add: decoded_db_def store_get_all_def flip: store_filter_map)
  ultimately have "get_heads_in_store E ob s = (Inr (fst (spec_heads ob (decoded_db E s))), s\<lparr>db_requests := Suc (db_requests s)\<rparr>)"
    using assms
    by (simp add: get_heads_in_store_def and_then_def idb_request_def idb_ok_def map_err_def Let_def spec_heads_def)
  then show "readable E (snd (get_heads_in_store E ob s))"
    "fst (get_heads_in_store E ob s) = fst (plain (spec_heads ob) (decoded_db E s))"
    "decoded_db E (snd (get_heads_in_store E ob s)) = snd (plain (spec_heads ob) (decoded_db E s))"
    using s by (simp_all add: spec_heads_def)
qed

lemma refines_client_get_heads [refine]:
  "idb_ok E \<Longrightarrow> refines E (client_get_heads E ob) (plain (spec_heads ob))"
  unfolding client_get_heads_def by (intro refines_tx refines_get_heads_in_store)

lemma refines_delete_head:
  assumes "idb_ok E"
  shows "refines E (idb_request E (delete_head ob i)) (plain (delete_head ob i))"
  using assms
  by (intro refines_request)
    (auto simp: readable_def delete_head_def store_delete_def decoded_db_def store_filter_map[of _ "\<lambda>k. k \<noteq> (ob, i)"])

lemma for_each_plain: "for_each (\<lambda>x. plain (\<lambda>s. ((), f x s))) xs = plain (\<lambda>s. ((), fold f xs s))"
proof -
  have "for_each (\<lambda>x. plain (\<lambda>s. ((), f x s))) xs s = (Inr (), fold f xs s)" for s
    by (induction xs arbitrary: s) (simp_all add: and_then_def ok_def)
  then show ?thesis by (intro ext) simp
qed

lemma refines_for_each [refine]:
  "(\<And>x. x \<in> set xs \<Longrightarrow> refines E (f x) (g x)) \<Longrightarrow> refines E (for_each f xs) (for_each g xs)"
  unfolding for_each_def by (rule refines_fold_each)

lemma refines_put_head:
  assumes "idb_ok E" "head_ok E x"
  shows "refines E (and_then (map_err Left (to_js E convert_head x)) (\<lambda>val. idb_request E (put_head val)))
     (plain (\<lambda>s. ((), snd (put_head x s))))"
proof -
  obtain y where y: "convert_head (to_js_value E) x = Some y" "readable_head E y" "head_object_id y = head_object_id x"
    "head_revision_id y = head_revision_id x" "decode_head E y = x"
    using assms(2) by (rule encode_head)
  have "and_then (map_err Left (to_js E convert_head x)) (\<lambda>val. idb_request E (put_head val)) = idb_request E (put_head y)"
    by (intro ext) (simp add: to_js_def converted_def y(1) map_err_def ok_def and_then_def)
  moreover have "refines E (idb_request E (put_head y)) (plain (\<lambda>s. ((), snd (put_head x s))))"
    using assms(1) y by (intro refines_request) (simp_all add: readable_put_head decoded_put_head)
  ultimately show ?thesis by simp
qed

lemma refines_put_heads:
  assumes "idb_ok E" "\<And>x. x \<in> set xs \<Longrightarrow> head_ok E x"
  shows "refines E (put_heads E xs) (plain (spec_add_heads xs))"
proof -
  have "refines E (put_heads E xs) (for_each (\<lambda>x. plain (\<lambda>s. ((), snd (put_head x s)))) xs)"
    unfolding put_heads_def using assms by (intro refines_for_each refines_put_head)
  then show ?thesis unfolding for_each_plain by (simp add: refines_def spec_add_heads_def)
qed

lemma head_ok_of_revision: "content_ok E (rev_content r) \<Longrightarrow> head_ok E (head_record_from_revision ob r)"
  by (cases "rev_content r") (auto simp: head_ok_def head_record_from_revision_def content_ok_def)

lemma refines_add_heads [refine]:
  assumes "idb_ok E" "\<And>r. r \<in> set rs \<Longrightarrow> content_ok E (rev_content r)"
  shows "refines E (add_heads E rs)
     (plain (spec_add_heads (map (\<lambda>r. head_record_from_revision (rev_object_id r) r) rs)))"
  unfolding add_heads_def using assms
  by (intro refines_tx refines_put_heads) (auto intro: head_ok_of_revision)

lemma refines_replace_heads [refine]:
  assumes "idb_ok E" "\<And>r. r \<in> set rs \<Longrightarrow> content_ok E (rev_content r)"
  shows "refines E (replace_heads E ob rs)
     (plain (spec_replace_heads ob (map (head_record_from_revision ob) rs)))"
proof -
  let ?xs = "map (head_record_from_revision ob) rs"
  let ?del = "\<lambda>existing. for_each (\<lambda>h. plain (\<lambda>s. ((), snd (delete_head ob (head_revision_id h) s)))) existing"
  have del: "refines E (idb_request E (delete_head ob i)) (plain (\<lambda>s. ((), snd (delete_head ob i s))))" for i
    using refines_delete_head[OF assms(1)] by (simp add: refines_def)
  have "refines E (and_then (get_heads_in_store E ob)
       (\<lambda>existing. and_then (for_each (\<lambda>h. idb_request E (delete_head ob (head_revision_id h))) existing)
          (\<lambda>_. put_heads E ?xs)))
     (and_then (plain (spec_heads ob)) (\<lambda>existing. and_then (?del existing) (\<lambda>_. plain (spec_add_heads ?xs))))"
    using assms
    by (intro refines_and_then refines_for_each refines_get_heads_in_store refines_put_heads del)
      (auto intro: head_ok_of_revision)
  also have "and_then (plain (spec_heads ob)) (\<lambda>existing. and_then (?del existing) (\<lambda>_. plain (spec_add_heads ?xs))) =
      plain (spec_replace_heads ob ?xs)"
    unfolding for_each_plain by (intro ext) (simp add: and_then_plain spec_replace_heads_def spec_heads_def)
  finally show ?thesis unfolding replace_heads_def by (rule refines_tx[OF assms(1)])
qed

subsection \<open>Files and sync state\<close>

lemma refines_files [refine]:
  assumes "idb_ok E"
  shows "refines E (put_file E ob d) (plain (\<lambda>s. ((), s\<lparr>db_files := store_put ob d (db_files s)\<rparr>)))"
    and "refines E (client_get_file E ob) (plain (\<lambda>s. (store_get (db_files s) ob, s)))"
    and "refines E (client_delete_file E ob) (plain (\<lambda>s. ((), s\<lparr>db_files := store_delete ob (db_files s)\<rparr>)))"
  unfolding put_file_def client_get_file_def client_delete_file_def
  by (intro refines_tx_request assms; simp add: readable_def decoded_db_def)+

definition spec_read_sync ::
  "'v client_db \<Rightarrow> (ClientId option \<times> UserId option \<times> TransactionId option) \<times> 'v client_db" where
  "spec_read_sync s = (case db_sync s of
      Some r \<Rightarrow> (ss_client_id r, ss_user_id r, ss_last_server_txn_id r) | None \<Rightarrow> (None, None, None), s)"

definition spec_write_sync ::
  "ClientId \<Rightarrow> UserId \<Rightarrow> TransactionId option \<Rightarrow> 'v client_db \<Rightarrow> unit \<times> 'v client_db" where
  "spec_write_sync c u t s =
     ((), s\<lparr>db_sync := Some \<lparr> ss_client_id = Some c, ss_user_id = Some u, ss_last_server_txn_id = t \<rparr>\<rparr>)"

lemma refines_read_sync_state [refine]:
  assumes "idb_ok E"
  shows "refines E (read_sync_state E) (plain spec_read_sync)"
proof -
  have "refines E (read_sync_state E)
      (and_then (plain (\<lambda>s. (db_sync s, s))) (\<lambda>val. ok (case val of
          Some r \<Rightarrow> (ss_client_id r, ss_user_id r, ss_last_server_txn_id r) | None \<Rightarrow> (None, None, None))))"
    unfolding read_sync_state_def
    by (intro refines_and_then refines_ok refines_tx_request assms) (auto simp: decoded_db_def)
  then show ?thesis by (simp add: refines_def and_then_def ok_def spec_read_sync_def)
qed

lemma refines_write_sync_state [refine]:
  assumes "idb_ok E" "\<And>i. t = Some i \<Longrightarrow> js_u64 E (transaction_u64 i)"
  shows "refines E (write_sync_state E c u t) (plain (spec_write_sync c u t))"
proof -
  have "refines E (idb_tx E (idb_request E (\<lambda>s. ((), s\<lparr>db_sync :=
          Some \<lparr> ss_client_id = Some c, ss_user_id = Some u, ss_last_server_txn_id = t \<rparr>\<rparr>)))) (plain (spec_write_sync c u t))"
    by (intro refines_tx_request assms(1)) (simp_all add: spec_write_sync_def readable_def decoded_db_def)
  with assms(2) show ?thesis by (cases t) (simp_all add: write_sync_state_def converted_def)
qed


section \<open>The operations of the repository\<close>

definition spec_store_head :: "'v Revision \<Rightarrow> 'v client_db \<Rightarrow> unit \<times> 'v client_db" where
  "spec_store_head r s =
     spec_replace_heads (rev_object_id r) [head_record_from_revision (rev_object_id r) r]
       (snd (put_record (from_revision r Pending) s))"

lemma refines_store_new_head [refine]:
  assumes "idb_ok E" "content_ok E (rev_content r)"
  shows "refines E (store_new_head E r) (plain (spec_store_head r))"
proof -
  have "refines E (store_new_head E r)
     (and_then (plain (put_record (from_revision r Pending)))
       (\<lambda>_. plain (spec_replace_heads (rev_object_id r) (map (head_record_from_revision (rev_object_id r)) [r]))))"
    unfolding store_new_head_def using assms
    by (intro refine) (auto simp: from_revision_def)
  then show ?thesis by (simp add: refines_def and_then_def spec_store_head_def)
qed

text \<open>
  \<^verbatim>\<open>update\<close> and \<^verbatim>\<open>delete\<close> on the abstract client: more than one head is a conflict, a parent that
  is not the head is stale, and otherwise the new revision becomes the only head.
\<close>

definition spec_supersede ::
  "Repository \<Rightarrow> RevisionId \<Rightarrow> DateTime \<Rightarrow> ObjectId \<Rightarrow> RevisionId \<Rightarrow> 'v Content \<Rightarrow> 'v client_db \<Rightarrow>
     (RustendClientError + RevisionId) \<times> 'v client_db" where
  "spec_supersede repo fresh now ob parent c s =
     (case fst (spec_heads ob s) of
        [h] \<Rightarrow>
          if head_revision_id h = parent then
            (Inr fresh, snd (spec_store_head
               \<lparr> rev_id = fresh, rev_object_id = ob, rev_object_type = head_object_type h,
                 rev_lineage = Update parent, rev_created_at = now, rev_created_by = repo_client_id repo,
                 rev_content = c \<rparr> s))
          else (Inl StaleParent, s)
      | [] \<Rightarrow> (Inl StaleParent, s)
      | _ \<Rightarrow> (Inl ConflictExists, s))"

lemma refines_check_parents [refine]:
  "refines E (check_parents_are_heads hs ps) (check_parents_are_heads hs ps)"
  by (simp add: check_parents_are_heads_def refines_ok refines_err)

lemma refines_supersede [refine]:
  assumes "idb_ok E" "content_ok E c"
  shows "refines E (supersede E repo fresh now ob parent c) (spec_supersede repo fresh now ob parent c)"
proof -
  let ?new = "\<lambda>h. \<lparr> rev_id = fresh, rev_object_id = ob, rev_object_type = head_object_type h,
      rev_lineage = Update parent, rev_created_at = now, rev_created_by = repo_client_id repo, rev_content = c \<rparr>"
  let ?rest = "\<lambda>store (heads :: 'a HeadRecord list). if length heads > 1 then err ConflictExists
        else and_then (check_parents_are_heads heads [parent]) (\<lambda>_. case heads of [] \<Rightarrow> err NotCached
          | h # _ \<Rightarrow> and_then (store (?new h)) (\<lambda>_. ok fresh))"
  have "refines E (?rest (store_new_head E) heads) (?rest (\<lambda>r. plain (spec_store_head r)) heads)" for heads
    using assms by (cases heads) (simp_all add: refine)
  then have "refines E (supersede E repo fresh now ob parent c)
     (and_then (plain (spec_heads ob)) (?rest (\<lambda>r. plain (spec_store_head r))))" (is "refines E _ ?spec")
    unfolding supersede_def by (intro refines_and_then refines_client_get_heads assms(1))
  moreover have "?spec s = spec_supersede repo fresh now ob parent c s" for s
  proof -
    have "?spec s = ?rest (\<lambda>r. plain (spec_store_head r)) (fst (spec_heads ob s)) s"
      by (simp only: and_then_plain) (simp add: spec_heads_def)
    also have "\<dots> = spec_supersede repo fresh now ob parent c s"
      unfolding spec_supersede_def
      by (cases "fst (spec_heads ob s)" rule: remdups_adj.cases)
        (simp_all add: check_parents_are_heads_def and_then_def ok_def err_def)
    finally show ?thesis .
  qed
  ultimately show ?thesis by (simp add: refines_def)
qed

definition new_revision ::
  "Repository \<Rightarrow> RevisionId \<Rightarrow> DateTime \<Rightarrow> ObjectId \<Rightarrow> string \<Rightarrow> Lineage \<Rightarrow> 'v Content \<Rightarrow> 'v Revision" where
  "new_revision repo fresh now ob ty l c =
     \<lparr> rev_id = fresh, rev_object_id = ob, rev_object_type = ty, rev_lineage = l,
       rev_created_at = now, rev_created_by = repo_client_id repo, rev_content = c \<rparr>"

lemma refines_save:
  assumes "idb_ok E" "to_value v = Inr data" "round_trips E data"
  shows "refines E (save E repo to_value ob fresh now ty v)
     (plain (\<lambda>s. ((ob, fresh), snd (spec_store_head (new_revision repo fresh now ob ty Root (Active data)) s))))"
proof -
  have "refines E (save E repo to_value ob fresh now ty v)
     (and_then (plain (spec_store_head (new_revision repo fresh now ob ty Root (Active data)))) (\<lambda>_. ok (ob, fresh)))"
    using assms by (simp add: save_def serialised_def new_revision_def) (intro refine, auto simp: content_ok_def)
  then show ?thesis by (simp add: refines_def and_then_def ok_def)
qed

text \<open>\<^verbatim>\<open>resolve_conflict\<close> with the content of the resolution already serialised\<close>

definition resolved_content :: "('t \<Rightarrow> string + 'v) \<Rightarrow> 't VersionContent \<Rightarrow> string + 'v Content" where
  "resolved_content to_value resolved =
     (case resolved of
        Version_Active v \<Rightarrow> (case to_value v of Inl m \<Rightarrow> Inl m | Inr d \<Rightarrow> Inr (Active d))
      | Version_Deleted \<Rightarrow> Inr Deleted)"

definition spec_resolve ::
  "Repository \<Rightarrow> RevisionId \<Rightarrow> DateTime \<Rightarrow> ObjectId \<Rightarrow> RevisionId \<Rightarrow> RevisionId \<Rightarrow> RevisionId list \<Rightarrow> 'v Content \<Rightarrow>
     'v client_db \<Rightarrow> (RustendClientError + RevisionId) \<times> 'v client_db" where
  "spec_resolve repo fresh now ob a b rest c s =
     (let heads = fst (spec_heads ob s) in
      if set (a # b # rest) \<subseteq> head_revision_id ` set heads then
        (Inr fresh, snd (spec_store_head
           (new_revision repo fresh now ob (head_object_type (hd heads)) (Merge a b rest) c) s))
      else (Inl StaleParent, s))"

lemma refines_resolve_conflict:
  assumes "idb_ok E" "resolved_content to_value resolved = Inr c" "content_ok E c"
  shows "refines E (resolve_conflict E repo to_value fresh now ob (a # b # rest) resolved)
     (spec_resolve repo fresh now ob a b rest c)"
proof -
  let ?new = "\<lambda>h. new_revision repo fresh now ob (head_object_type h) (Merge a b rest) c"
  let ?rest = "\<lambda>store (heads :: 'a HeadRecord list).
        and_then (check_parents_are_heads heads (a # b # rest)) (\<lambda>_. case heads of [] \<Rightarrow> err NotCached
          | h # _ \<Rightarrow> and_then (store (?new h)) (\<lambda>_. ok fresh))"
  have content: "(case resolved of
        Version_Active v \<Rightarrow> and_then (serialised (to_value v)) (\<lambda>d. ok (Active d))
      | Version_Deleted \<Rightarrow> ok Deleted) = ok c"
    using assms(2) by (auto simp: resolved_content_def serialised_def split: VersionContent.splits sum.splits)
  have "refines E (?rest (store_new_head E) heads) (?rest (\<lambda>r. plain (spec_store_head r)) heads)" for heads
    using assms by (cases heads) (simp_all add: refine new_revision_def)
  note rest = this[unfolded new_revision_def]
  have "refines E (resolve_conflict E repo to_value fresh now ob (a # b # rest) resolved)
     (and_then (plain (spec_heads ob)) (?rest (\<lambda>r. plain (spec_store_head r))))" (is "refines E _ ?spec")
    unfolding resolve_conflict_def content list.case and_then_ok new_revision_def
    by (rule refines_and_then[OF refines_client_get_heads[OF assms(1)] rest])
  moreover have "?spec s = spec_resolve repo fresh now ob a b rest c s" for s
  proof -
    have "?spec s = ?rest (\<lambda>r. plain (spec_store_head r)) (fst (spec_heads ob s)) s"
      by (simp only: and_then_plain) (simp add: spec_heads_def)
    also have "\<dots> = spec_resolve repo fresh now ob a b rest c s"
      unfolding spec_resolve_def Let_def
      by (cases "fst (spec_heads ob s)")
        (auto simp add: check_parents_are_heads_def and_then_def ok_def err_def list_all_iff)
    finally show ?thesis .
  qed
  ultimately show ?thesis by (simp add: refines_def)
qed

text \<open>
  The writing operations of the repository as a whole: where a value does not serialise nothing
  is looked at; a resolution needs two parents at least, which are checked before its value is
  serialised.
\<close>

definition spec_save ::
  "Repository \<Rightarrow> ('t \<Rightarrow> string + 'v) \<Rightarrow> ObjectId \<Rightarrow> RevisionId \<Rightarrow> DateTime \<Rightarrow> string \<Rightarrow> 't \<Rightarrow> 'v client_db \<Rightarrow>
     (RustendClientError + ObjectId \<times> RevisionId) \<times> 'v client_db" where
  "spec_save repo to_value ob fresh now ty v s =
     (case to_value v of
        Inl m \<Rightarrow> (Inl (Serialisation m), s)
      | Inr data \<Rightarrow>
          (Inr (ob, fresh), snd (spec_store_head (new_revision repo fresh now ob ty Root (Active data)) s)))"

definition spec_update ::
  "Repository \<Rightarrow> ('t \<Rightarrow> string + 'v) \<Rightarrow> RevisionId \<Rightarrow> DateTime \<Rightarrow> ObjectId \<Rightarrow> RevisionId \<Rightarrow> 't \<Rightarrow> 'v client_db \<Rightarrow>
     (RustendClientError + RevisionId) \<times> 'v client_db" where
  "spec_update repo to_value fresh now ob parent v s =
     (case to_value v of
        Inl m \<Rightarrow> (Inl (Serialisation m), s)
      | Inr data \<Rightarrow> spec_supersede repo fresh now ob parent (Active data) s)"

definition spec_resolve_conflict ::
  "Repository \<Rightarrow> ('t \<Rightarrow> string + 'v) \<Rightarrow> RevisionId \<Rightarrow> DateTime \<Rightarrow> ObjectId \<Rightarrow> RevisionId list \<Rightarrow> 't VersionContent \<Rightarrow>
     'v client_db \<Rightarrow> (RustendClientError + RevisionId) \<times> 'v client_db" where
  "spec_resolve_conflict repo to_value fresh now ob ps resolved s =
     (if length ps < 2 then (Inl (IndexedDb ''resolve_conflict requires at least 2 parent revisions''), s)
      else if \<not> set ps \<subseteq> head_revision_id ` set (fst (spec_heads ob s)) then (Inl StaleParent, s)
      else (case resolved_content to_value resolved of
              Inl m \<Rightarrow> (Inl (Serialisation m), s)
            | Inr c \<Rightarrow> spec_resolve repo fresh now ob (ps ! 0) (ps ! 1) (drop 2 ps) c s))"

lemma refines_save_full:
  assumes "idb_ok E" "\<And>data. to_value v = Inr data \<Longrightarrow> round_trips E data"
  shows "refines E (save E repo to_value ob fresh now ty v) (spec_save repo to_value ob fresh now ty v)"
proof (cases "to_value v")
  case (Inl m)
  then have "save E repo to_value ob fresh now ty v = err (Serialisation m)"
    "spec_save repo to_value ob fresh now ty v = err (Serialisation m)"
    by (simp_all add: save_def serialised_def spec_save_def err_def and_then_def fun_eq_iff)
  then show ?thesis by (simp add: refines_err)
next
  case (Inr data)
  have "spec_save repo to_value ob fresh now ty v =
      plain (\<lambda>s. ((ob, fresh), snd (spec_store_head (new_revision repo fresh now ob ty Root (Active data)) s)))"
    by (simp add: spec_save_def Inr fun_eq_iff)
  then show ?thesis using refines_save[of E to_value v, OF assms(1) Inr assms(2)[OF Inr]] by metis
qed

lemma refines_update_full:
  assumes "idb_ok E" "\<And>data. to_value v = Inr data \<Longrightarrow> round_trips E data"
  shows "refines E (repo_update E repo to_value fresh now ob parent v) (spec_update repo to_value fresh now ob parent v)"
proof (cases "to_value v")
  case (Inl m)
  then have "repo_update E repo to_value fresh now ob parent v = err (Serialisation m)"
    "spec_update repo to_value fresh now ob parent v = err (Serialisation m)"
    by (simp_all add: repo_update_def serialised_def spec_update_def err_def and_then_def fun_eq_iff)
  then show ?thesis by (simp add: refines_err)
next
  case (Inr data)
  have "spec_update repo to_value fresh now ob parent v = spec_supersede repo fresh now ob parent (Active data)"
    by (simp add: spec_update_def Inr fun_eq_iff)
  then show ?thesis
    using refines_supersede[OF assms(1), of "Active data"] assms(2)[OF Inr] Inr
    by (simp add: repo_update_def serialised_def content_ok_def)
qed

text \<open>A resolution whose value does not serialise fails after the check of the parents.\<close>

lemma refines_resolve_unserialised:
  assumes "idb_ok E" "resolved_content to_value resolved = Inl m"
  shows "refines E (resolve_conflict E repo to_value fresh now ob (a # b # rest) resolved)
     (\<lambda>s. if set (a # b # rest) \<subseteq> head_revision_id ` set (fst (spec_heads ob s))
          then (Inl (Serialisation m), s) else (Inl StaleParent, s))"
proof -
  let ?rest = "\<lambda>heads :: 'a HeadRecord list. if set (a # b # rest) \<subseteq> head_revision_id ` set heads
      then err (Serialisation m) else err StaleParent"
  have failing: "(case resolved of
        Version_Active v \<Rightarrow> and_then (serialised (to_value v)) (\<lambda>d. ok (Active d))
      | Version_Deleted \<Rightarrow> ok Deleted) = err (Serialisation m)"
    using assms(2) by (auto simp: resolved_content_def serialised_def split: VersionContent.splits sum.splits)
  have checked: "check_parents_are_heads heads (a # b # rest) =
      (if set (a # b # rest) \<subseteq> head_revision_id ` set heads then ok () else err StaleParent)" for heads :: "'a HeadRecord list"
    by (auto simp: check_parents_are_heads_def list_all_iff)
  have body: "resolve_conflict E repo to_value fresh now ob (a # b # rest) resolved =
      and_then (client_get_heads E ob) ?rest"
    unfolding resolve_conflict_def list.case failing checked
    by (rule arg_cong[where f = "and_then _"], rule ext) (simp split: list.split)
  have refined: "refines E (and_then (client_get_heads E ob) ?rest) (and_then (plain (spec_heads ob)) ?rest)"
    using assms(1) by (intro refines_and_then refines_client_get_heads) (simp_all add: refines_err)
  have spec: "and_then (plain (spec_heads ob)) ?rest =
      (\<lambda>s. if set (a # b # rest) \<subseteq> head_revision_id ` set (fst (spec_heads ob s))
          then (Inl (Serialisation m), s) else (Inl StaleParent, s))"
    by (simp add: fun_eq_iff and_then_plain spec_heads_def err_def)
  show ?thesis using refined unfolding body spec .
qed

lemma refines_resolve_full:
  assumes "idb_ok E" "\<And>c. resolved_content to_value resolved = Inr c \<Longrightarrow> content_ok E c"
  shows "refines E (resolve_conflict E repo to_value fresh now ob ps resolved)
     (spec_resolve_conflict repo to_value fresh now ob ps resolved)"
proof (cases "length ps < 2")
  case True
  then have "resolve_conflict E repo to_value fresh now ob ps resolved =
        err (IndexedDb ''resolve_conflict requires at least 2 parent revisions'')"
      "spec_resolve_conflict repo to_value fresh now ob ps resolved =
        err (IndexedDb ''resolve_conflict requires at least 2 parent revisions'')"
    by (auto simp: resolve_conflict_def spec_resolve_conflict_def err_def fun_eq_iff split: list.split)
  then show ?thesis by (simp add: refines_err)
next
  case False
  then obtain a b rest where ps: "ps = a # b # rest"
    by (metis One_nat_def Suc_1 Suc_leI length_Cons less_Suc_eq_0_disj list.exhaust list.size(3) not_less_eq)
  show ?thesis
  proof (cases "resolved_content to_value resolved")
    case (Inl m)
    have "spec_resolve_conflict repo to_value fresh now ob ps resolved =
        (\<lambda>s. if set ps \<subseteq> head_revision_id ` set (fst (spec_heads ob s))
             then (Inl (Serialisation m), s) else (Inl StaleParent, s))"
      by (simp add: spec_resolve_conflict_def Inl ps fun_eq_iff)
    then show ?thesis
      using refines_resolve_unserialised[of E to_value resolved m repo fresh now ob a b rest, OF assms(1) Inl] by (simp add: ps)
  next
    case (Inr c)
    have "spec_resolve_conflict repo to_value fresh now ob ps resolved = spec_resolve repo fresh now ob a b rest c"
      by (auto simp: spec_resolve_conflict_def Inr ps fun_eq_iff spec_resolve_def Let_def)
    then show ?thesis
      using refines_resolve_conflict[of E to_value resolved c repo fresh now ob a b rest, OF assms(1) Inr assms(2)[OF Inr]]
      by (simp add: ps)
  qed
qed

definition version_of :: "('v \<Rightarrow> string + 't) \<Rightarrow> ObjectId \<Rightarrow> 'v HeadRecord \<Rightarrow> ('w, RustendClientError, 't ObjectVersion) fallible" where
  "version_of from_value ob h = and_then (version_content from_value (head_content h))
     (\<lambda>content. ok \<lparr> ver_object_id = ob, ver_revision_id = head_revision_id h, ver_content = content \<rparr>)"

lemma refines_repo_get:
  assumes "idb_ok E"
  shows "refines E (repo_get E from_value ob) (and_then (plain (spec_heads ob)) (collect (version_of from_value ob)))"
proof -
  have "refines E (version_content from_value c) (version_content from_value c)" for c
    by (cases c) (auto simp: serialised_def split: sum.split intro!: refine)
  then show ?thesis
    unfolding repo_get_def version_of_def using assms by (intro refine)
qed

section \<open>Laws of the abstract stores\<close>

lemma head_range_iff: "head_range ob k \<longleftrightarrow> fst k = ob"
proof -
  have "fst k = ob" if "head_range ob k"
    using that by (cases k) (auto simp: head_range_def)
  moreover have "head_range (fst k) k"
    by (cases k) (auto simp: head_range_def less_eq_RevisionId_def word_order.extremum)
  ultimately show ?thesis by blast
qed

lemma decode_ids:
  "readable_record E x \<Longrightarrow> rec_id (decode_record E x) = rec_id x"
  "readable_head E y \<Longrightarrow> head_object_id (decode_head E y) = head_object_id y"
  "readable_head E y \<Longrightarrow> head_revision_id (decode_head E y) = head_revision_id y"
  using convert_record_id[of "from_js_value E" x] convert_head_ids[of "from_js_value E" y]
  by (auto simp: readable_record_def readable_head_def split: option.splits)

lemma client_inv_decoded:
  assumes "client_inv s" "readable E s"
  shows "client_inv (decoded_db E s)"
proof -
  let ?t = "decoded_db E s"
  have keys: "map fst (db_revisions ?t) = map fst (db_revisions s)" "map fst (db_heads ?t) = map fst (db_heads s)"
    "db_files ?t = db_files s" by (simp_all add: decoded_db_def)
  have ids: "stored_ids ?t = stored_ids s" using keys(1) by (metis list.set_map)
  have "rec_id y = k" if "(k, y) \<in> set (db_revisions ?t)" for k y
  proof -
    obtain x where x: "(k, x) \<in> set (db_revisions s)" "y = decode_record E x"
      using \<open>(k, y) \<in> set (db_revisions ?t)\<close> by (auto simp: decoded_db_def)
    with assms(2) have "readable_record E x" by (force simp: readable_def)
    with x assms(1) show ?thesis using decode_ids(1)[of E x] by (auto simp: client_inv_def)
  qed
  moreover have "k = (head_object_id y, head_revision_id y) \<and> head_revision_id y \<in> stored_ids s"
    if "(k, y) \<in> set (db_heads ?t)" for k y
  proof -
    obtain x where x: "(k, x) \<in> set (db_heads s)" "y = decode_head E x"
      using \<open>(k, y) \<in> set (db_heads ?t)\<close> by (auto simp: decoded_db_def)
    with assms(2) have "readable_head E x" by (force simp: readable_def)
    with x assms(1) show ?thesis using decode_ids(2,3)[of E x] by (fastforce simp: client_inv_def)
  qed
  ultimately show ?thesis
    using assms(1) unfolding client_inv_def sorted_store_def keys ids by blast
qed

lemma fold_heads:
  "fold (\<lambda>x s. snd (put_head x s)) xs s =
     s\<lparr>db_heads := fold (\<lambda>(k, r). store_put k r) (map (\<lambda>x. ((head_object_id x, head_revision_id x), x)) xs) (db_heads s)\<rparr>"
  "fold (\<lambda>h s. snd (delete_head ob (head_revision_id h) s)) xs s =
     s\<lparr>db_heads := fold store_delete (map (\<lambda>h. (ob, head_revision_id h)) xs) (db_heads s)\<rparr>"
  by (induction xs arbitrary: s) (simp_all add: put_head_def delete_head_def)

lemma range_keys:
  assumes "client_inv s"
  shows "map (\<lambda>h. (ob, head_revision_id h)) (fst (spec_heads ob s)) =
     map fst (store_get_all (\<lambda>k. fst k = ob) (db_heads s))"
  using assms unfolding spec_heads_def store_get_all_def client_inv_def
  by (auto simp: head_range_iff intro!: map_cong[OF refl])

text \<open>After a replacement an object has exactly the given heads; other objects keep theirs.\<close>

lemma spec_replace_heads_lookup:
  assumes "client_inv s" "\<And>x. x \<in> set xs \<Longrightarrow> head_object_id x = ob"
  defines "s' \<equiv> snd (spec_replace_heads ob xs s)"
  shows "sorted_store (db_heads s')"
    and "store_get (db_heads s') k =
      (if fst k = ob then map_of (rev (map (\<lambda>x. ((head_object_id x, head_revision_id x), x)) xs)) k
       else store_get (db_heads s) k)"
    and "s' = s\<lparr>db_heads := db_heads s'\<rparr>"
proof -
  let ?xs = "map (\<lambda>x. ((head_object_id x, head_revision_id x), x)) xs"
  have s': "s' = s\<lparr>db_heads := fold (\<lambda>(k, r). store_put k r) ?xs
      (fold store_delete (map fst (store_get_all (\<lambda>k. fst k = ob) (db_heads s))) (db_heads s))\<rparr>"
    by (simp add: s'_def spec_replace_heads_def spec_add_heads_def fold_heads range_keys[OF assms(1)])
  have sorted: "sorted_store (db_heads s)" using assms(1) by (simp add: client_inv_def)
  have keys: "fst k = ob" if "k \<in> fst ` set ?xs" for k using that assms(2) by auto
  note range = idb.replace_range[OF sorted, of ?xs "\<lambda>k. fst k = ob"]
  show "sorted_store (db_heads s')" using range keys by (simp add: s')
  show "store_get (db_heads s') k = (if fst k = ob then map_of (rev ?xs) k else store_get (db_heads s) k)"
    using range[of k] keys by (simp add: s')
  show "s' = s\<lparr>db_heads := db_heads s'\<rparr>" by (simp add: s')
qed

lemma get_all_single:
  assumes "sorted_store st" "P k" "\<And>k'. P k' \<Longrightarrow> store_get st k' = (if k' = k then Some x else None)"
  shows "store_get_all P st = [(k, x)]"
proof -
  have "set (store_get_all P st) = {(k, x)}"
    using assms by (auto simp: idb.get_all_iff split: if_splits)
  moreover have "distinct (store_get_all P st)"
    using idb.get_all_distinct[OF assms(1), of P] by (simp add: distinct_map)
  ultimately show ?thesis by (metis distinct_length_2_or_more distinct_singleton empty_not_insert insert_iff list.exhaust list.set_intros(1,2) list.set(1) set_ConsD singletonD)
qed

end
