(* ===== verification/ClientCorrect.thy ===== *)
theory ClientCorrect
  imports ClientSpec
begin

text \<open>
  What the client's operations achieve: the invariant in every reachable state, the outcome
  of every operation of the repository on a browser without faults, and the concrete inputs
  the properties are applied to.
\<close>

section \<open>Concrete inputs\<close>

definition sample_idb :: "(string, string) idb_env" where
  "sample_idb = \<lparr> idb_fault = (\<lambda>n. False), idb_message = ''quota'', to_js_value = Some, from_js_value = Some,
     js_u64 = (\<lambda>n. n < 2 ^ 53), js_message = ''not a safe integer'', drop_commits = True \<rparr>"

definition sample_repo :: Repository where
  "sample_repo = \<lparr> repo_client_id = ClientId 7, repo_user_id = UserId 1, repo_schema = IndexSchema_new \<rparr>"

definition sample_now :: DateTime where
  "sample_now = 1700000000000000000"

text \<open>A database with one object that has two heads and one that has one\<close>

definition sample_record :: "ObjectId \<Rightarrow> RevisionId \<Rightarrow> Lineage \<Rightarrow> SyncStatus \<Rightarrow> string RevisionRecord" where
  "sample_record ob i l st = \<lparr> rec_id = i, rec_object_id = ob, rec_object_type = ''note'', rec_lineage = l,
     rec_created_at = sample_now, rec_created_by = ClientId 7, rec_content = Active ''text'', rec_sync_status = st \<rparr>"

definition sample_head :: "ObjectId \<Rightarrow> RevisionId \<Rightarrow> Lineage \<Rightarrow> string HeadRecord" where
  "sample_head ob i l = \<lparr> head_object_id = ob, head_revision_id = i, head_object_type = ''note'',
     head_content = Active ''text'', head_lineage = l, head_data = Some ''text'' \<rparr>"

definition sample_db :: "string client_db" where
  "sample_db = \<lparr>
     db_revisions = [(RevisionId 1, sample_record (ObjectId 5) (RevisionId 1) Root Synced),
       (RevisionId 2, sample_record (ObjectId 5) (RevisionId 2) (Update (RevisionId 1)) Pending),
       (RevisionId 3, sample_record (ObjectId 5) (RevisionId 3) (Update (RevisionId 1)) Synced),
       (RevisionId 4, sample_record (ObjectId 6) (RevisionId 4) Root Synced)],
     db_heads = [((ObjectId 5, RevisionId 2), sample_head (ObjectId 5) (RevisionId 2) (Update (RevisionId 1))),
       ((ObjectId 5, RevisionId 3), sample_head (ObjectId 5) (RevisionId 3) (Update (RevisionId 1))),
       ((ObjectId 6, RevisionId 4), sample_head (ObjectId 6) (RevisionId 4) Root)],
     db_files = [], db_sync = Some \<lparr> ss_client_id = Some (ClientId 7), ss_user_id = Some (UserId 1),
       ss_last_server_txn_id = Some (TransactionId 3) \<rparr>,
     db_version = 1, db_indexes = [], db_requests = 0 \<rparr>"

lemma sample_idb_ok [simp]: "idb_ok sample_idb"
  by (simp add: idb_ok_def sample_idb_def)

lemma sample_round_trips [simp]: "round_trips sample_idb v"
  by (simp add: round_trips_def sample_idb_def)

lemma sample_content_ok [simp]: "content_ok sample_idb c"
  by (simp add: content_ok_def split: Content.split)

lemma sample_db_readable: "readable sample_idb sample_db"
  by code_simp

lemma sample_db_inv: "client_inv sample_db"
  by code_simp

section \<open>Reachable states\<close>

text \<open>
  C9: whatever the browser refuses, whatever the server answers and whichever operations are
  called in whichever order, the client's database keeps its stores in key order, every record
  is filed under its own key and every head names a revision that is stored.
\<close>

theorem client_reachable_inv: "client_reaches envs w \<Longrightarrow> client_inv (local_db w)"
  using client_reaches_keeps[of envs w] by (simp add: inv_with_def)

text \<open>The server of the concrete runs answers every request with a status of 503.\<close>

definition sample_env_503 :: "(string, string, nat, string) client_env" where
  "sample_env_503 = \<lparr> ce_idb = sample_idb, ce_key_path_ok = (\<lambda>p. True),
     ce_server = \<lparr> post_changes = (\<lambda>u q n. (Status 503, n)), post_changes_query = (\<lambda>u q n. (Status 503, n)),
       get_whoami = (\<lambda>u n. (Status 503, n)) \<rparr>,
     ce_to_value = Inr, ce_from_value = Inr, ce_repo = sample_repo \<rparr>"

text \<open>Opened offline, an object saved, a synchronisation that fails, then the object updated\<close>

definition sample_calls :: "(string, string) client_call list" where
  "sample_calls = [Call_Open_Offline IndexSchema_new (ClientId 7) (UserId 1),
     Call_Save (ObjectId 5) (RevisionId 9) sample_now ''note'' ''first'',
     Call_Sync ''http://server'' \<lparr> pull_since = None, pull_object_types = None, pull_created_at = None, pull_filter = None \<rparr>,
     Call_Update (RevisionId 3) sample_now (ObjectId 5) (RevisionId 9) ''second'']"

definition sample_world :: "(string, nat) world" where
  "sample_world = fold (after_call sample_env_503) sample_calls \<lparr>local_db = empty_db, remote = 0\<rparr>"

lemma sample_world_reached: "client_reaches {sample_env_503} sample_world"
  unfolding sample_world_def sample_calls_def fold_simps comp_def id_def
  by (intro client_reaches.intros) simp_all

theorem client_reachable_inv_witness:
  "client_reaches {sample_env_503} sample_world \<and> client_inv (local_db sample_world) \<and>
   map fst (db_heads (local_db sample_world)) = [(ObjectId 5, RevisionId 3)] \<and>
   map fst (db_revisions (local_db sample_world)) = [RevisionId 3, RevisionId 9]"
proof -
  have "map fst (db_heads (local_db sample_world)) = [(ObjectId 5, RevisionId 3)]"
    "map fst (db_revisions (local_db sample_world)) = [RevisionId 3, RevisionId 9]"
    by code_simp+
  with sample_world_reached client_reachable_inv[OF sample_world_reached] show ?thesis by simp
qed

text \<open>
  C10: no call of the client loses a revision, in whatever way it fails: what the
  database stored before a call is stored after it. So a change made offline stays until it
  has been pushed, and after.
\<close>

theorem revisions_never_lost:
  assumes "client_reaches envs w" "db_version (local_db w) \<noteq> 0"
  shows "stored_ids (local_db w) \<subseteq> stored_ids (local_db (after_call X c w))"
proof -
  have "client_inv (local_db w)" using client_reaches_keeps[OF assms(1)] by (simp add: inv_with_def)
  then have "world_inv (stored_ids (local_db w)) w" by (simp add: inv_with_def)
  then have "world_inv (stored_ids (local_db w)) (after_call X c w)"
    by (rule after_call_inv) (use assms(2) in simp)
  then show ?thesis by (simp add: inv_with_def)
qed

theorem revisions_never_lost_witness:
  "stored_ids (local_db sample_world) \<subseteq>
     stored_ids (local_db (after_call sample_env_503 (Call_Delete (RevisionId 4) sample_now (ObjectId 5) (RevisionId 3)) sample_world)) \<and>
   stored_ids (local_db sample_world) = {RevisionId 3, RevisionId 9}"
proof -
  have "db_version (local_db sample_world) \<noteq> 0" "stored_ids (local_db sample_world) = {RevisionId 3, RevisionId 9}"
    by code_simp+
  with revisions_never_lost[OF sample_world_reached] show ?thesis by blast
qed

section \<open>Writing objects\<close>

text \<open>The state after a write: the revision is pending and the only head; other objects keep theirs.\<close>

definition written :: "'v Revision \<Rightarrow> 'v client_db \<Rightarrow> 'v client_db \<Rightarrow> bool" where
  "written r s s' \<longleftrightarrow>
     (\<forall>i. store_get (db_revisions s') i =
        (if i = rev_id r then Some (from_revision r Pending) else store_get (db_revisions s) i)) \<and>
     (\<forall>k. store_get (db_heads s') k =
        (if fst k = rev_object_id r
         then (if snd k = rev_id r then Some (head_record_from_revision (rev_object_id r) r) else None)
         else store_get (db_heads s) k)) \<and>
     db_files s' = db_files s \<and> db_sync s' = db_sync s"

lemma spec_store_head_written:
  assumes "client_inv s"
  shows "written r s (snd (spec_store_head r s))"
    and "fst (spec_heads (rev_object_id r) (snd (spec_store_head r s))) = [head_record_from_revision (rev_object_id r) r]"
proof -
  let ?ob = "rev_object_id r" and ?x = "head_record_from_revision (rev_object_id r) r"
  let ?s1 = "snd (put_record (from_revision r Pending) s)"
  let ?s2 = "snd (spec_replace_heads ?ob [?x] ?s1)"
  have s1: "client_inv ?s1"
    using inv_with_put_record[of "{}" s "from_revision r Pending"] assms by (simp add: inv_with_def)
  have x: "\<And>x. x \<in> set [?x] \<Longrightarrow> head_object_id x = ?ob" by (simp add: head_record_from_revision_def)
  note look = spec_replace_heads_lookup[OF s1, of "[?x]" ?ob, OF x]
  have key: "head_object_id ?x = ?ob" "head_revision_id ?x = rev_id r"
    by (simp_all add: head_record_from_revision_def)
  have heads: "store_get (db_heads ?s2) k =
      (if fst k = ?ob then (if snd k = rev_id r then Some ?x else None) else store_get (db_heads s) k)" for k
    by (subst look(2), simp, cases k) (simp add: key put_record_def)
  have revs: "store_get (db_revisions ?s1) i =
      (if i = rev_id r then Some (from_revision r Pending) else store_get (db_revisions s) i)" for i
    using assms by (simp add: put_record_def idb.get_put client_inv_def from_revision_def)
  have rest: "db_revisions ?s2 = db_revisions ?s1" "db_files ?s2 = db_files s" "db_sync ?s2 = db_sync s"
    by (subst look(3); simp add: put_record_def)+
  show "written r s (snd (spec_store_head r s))"
    unfolding spec_store_head_def written_def rest heads revs by simp
  have "store_get_all (head_range ?ob) (db_heads ?s2) = [((?ob, rev_id r), ?x)]"
  proof (rule get_all_single[OF look(1)])
    show "store_get (db_heads ?s2) k' = (if k' = (?ob, rev_id r) then Some ?x else None)" if "head_range ?ob k'" for k'
      using that by (cases k') (auto simp: heads head_range_iff)
  qed (simp_all add: head_range_iff)
  then show "fst (spec_heads ?ob (snd (spec_store_head r s))) = [?x]"
    by (simp add: spec_store_head_def spec_heads_def)
qed

lemma collect_version_of:
  fixes s :: 'w
  assumes "version_content from_value (rev_content r) = (ok c :: ('w, RustendClientError, 't VersionContent) fallible)"
  shows "collect (version_of from_value ob) [head_record_from_revision ob r] s =
     (Inr [\<lparr> ver_object_id = ob, ver_revision_id = rev_id r, ver_content = c \<rparr>], s)"
proof -
  have "version_of from_value ob (head_record_from_revision ob r) =
      (ok \<lparr> ver_object_id = ob, ver_revision_id = rev_id r, ver_content = c \<rparr> :: ('w, RustendClientError, 't ObjectVersion) fallible)"
    unfolding version_of_def head_record_from_revision_def using assms by simp
  then show ?thesis by simp
qed

text \<open>
  C12: an object that is saved can be read back: \<^verbatim>\<open>save\<close> succeeds with the new ids, \<^verbatim>\<open>get\<close> then
  returns exactly one version, with the saved value under the new revision id, and the
  revision waits to be pushed. Nothing else in the database changes. The browser accepts the
  requests and the value survives serialisation and the way through IndexedDB.
\<close>

theorem save_get:
  assumes "idb_ok E" "client_inv s" "readable E s"
    and "to_value v = Inr data" "from_value data = Inr v" "round_trips E data"
  shows "\<exists>s1 s2. save E repo to_value ob fresh now ty v s = (Inr (ob, fresh), s1) \<and>
    repo_get E from_value ob s1 =
      (Inr [\<lparr> ver_object_id = ob, ver_revision_id = fresh, ver_content = Version_Active v \<rparr>], s2) \<and>
    written (new_revision repo fresh now ob ty Root (Active data)) (decoded_db E s) (decoded_db E s1) \<and>
    decoded_db E s2 = decoded_db E s1"
proof -
  let ?r = "new_revision repo fresh now ob ty Root (Active data)"
  let ?t = "snd (spec_store_head ?r (decoded_db E s))"
  have inv: "client_inv (decoded_db E s)" using assms(2,3) by (rule client_inv_decoded)
  note w = spec_store_head_written[OF inv, of ?r]
  have ob: "rev_object_id ?r = ob" "rev_id ?r = fresh" "version_content from_value (rev_content ?r) = ok (Version_Active v)"
    using assms(5) by (simp_all add: new_revision_def serialised_def)
  obtain s1 where s1: "save E repo to_value ob fresh now ty v s = (Inr (ob, fresh), s1)" "readable E s1"
    "decoded_db E s1 = ?t"
    by (rule refines_plain_run[OF refines_save[of E to_value v data repo ob fresh now ty, OF assms(1,4,6)] assms(3)])
      (simp_all)
  have "and_then (plain (spec_heads ob)) (collect (version_of from_value ob)) (decoded_db E s1) =
      (Inr [\<lparr> ver_object_id = ob, ver_revision_id = fresh, ver_content = Version_Active v \<rparr>], ?t)"
    unfolding and_then_plain s1(3) using w(2) collect_version_of[OF ob(3), of ob]
    by (simp add: ob spec_heads_def)
  then obtain s2 where "repo_get E from_value ob s1 =
      (Inr [\<lparr> ver_object_id = ob, ver_revision_id = fresh, ver_content = Version_Active v \<rparr>], s2)"
    "decoded_db E s2 = ?t"
    using refines_run[OF refines_repo_get[OF assms(1)] s1(2)] by metis
  with s1 w(1) show ?thesis by auto
qed

theorem save_get_witness:
  "\<exists>s1 s2. save sample_idb sample_repo Inr (ObjectId 9) (RevisionId 8) sample_now ''note'' ''hello'' sample_db =
      (Inr (ObjectId 9, RevisionId 8), s1) \<and>
    repo_get sample_idb Inr (ObjectId 9) s1 =
      (Inr [\<lparr> ver_object_id = ObjectId 9, ver_revision_id = RevisionId 8, ver_content = Version_Active ''hello'' \<rparr>], s2) \<and>
    written (new_revision sample_repo (RevisionId 8) sample_now (ObjectId 9) ''note'' Root (Active ''hello''))
      (decoded_db sample_idb sample_db) (decoded_db sample_idb s1) \<and>
    decoded_db sample_idb s2 = decoded_db sample_idb s1"
  using sample_db_inv sample_db_readable by (intro save_get) simp_all

text \<open>
  C11: on a browser without faults the writing operations of the repository behave like their
  abstract counterparts on the decoded database on every branch: the same result, the same error,
  the same effect. A value that does not serialise is reported and changes nothing; \<^verbatim>\<open>update\<close> and
  \<^verbatim>\<open>delete\<close> report a conflict for more than one head and a stale parent unless the parent is the
  only head; \<^verbatim>\<open>resolve_conflict\<close> refuses fewer than two parents before it looks at the database,
  then reports a stale parent unless all given parents are heads, then a value that does not
  serialise. \<^verbatim>\<open>NotCached\<close> is never reported. What the values serialise to survives the way through
  IndexedDB.
\<close>

theorem repository_refines:
  assumes "idb_ok E" "\<And>data. to_value v = Inr data \<Longrightarrow> round_trips E data"
  shows "refines E (save E repo to_value ob fresh now ty v) (spec_save repo to_value ob fresh now ty v) \<and>
    refines E (repo_update E repo to_value fresh now ob parent v) (spec_update repo to_value fresh now ob parent v) \<and>
    refines E (repo_delete E repo fresh now ob parent) (spec_supersede repo fresh now ob parent Deleted) \<and>
    refines E (resolve_conflict E repo to_value fresh now ob ps (Version_Active v))
      (spec_resolve_conflict repo to_value fresh now ob ps (Version_Active v)) \<and>
    refines E (resolve_conflict E repo to_value fresh now ob ps Version_Deleted)
      (spec_resolve_conflict repo to_value fresh now ob ps Version_Deleted)"
proof (intro conjI)
  show "refines E (save E repo to_value ob fresh now ty v) (spec_save repo to_value ob fresh now ty v)"
    "refines E (repo_update E repo to_value fresh now ob parent v) (spec_update repo to_value fresh now ob parent v)"
    by (rule refines_save_full refines_update_full; use assms in blast)+
  show "refines E (repo_delete E repo fresh now ob parent) (spec_supersede repo fresh now ob parent Deleted)"
    unfolding repo_delete_def using assms(1) by (rule refines_supersede) (simp add: content_ok_def)
  have "content_ok E c" if "resolved_content to_value resolved = Inr c" "resolved \<in> {Version_Active v, Version_Deleted}"
    for c resolved
    using that assms(2) by (auto simp: resolved_content_def content_ok_def split: sum.splits)
  then show "refines E (resolve_conflict E repo to_value fresh now ob ps (Version_Active v))
      (spec_resolve_conflict repo to_value fresh now ob ps (Version_Active v))"
    "refines E (resolve_conflict E repo to_value fresh now ob ps Version_Deleted)
      (spec_resolve_conflict repo to_value fresh now ob ps Version_Deleted)"
    by (intro refines_resolve_full[OF assms(1)]; blast)+
qed

theorem repository_refines_witness:
  "refines sample_idb (repo_update sample_idb sample_repo Inr (RevisionId 8) sample_now (ObjectId 6) (RevisionId 4) ''new'')
     (spec_update sample_repo Inr (RevisionId 8) sample_now (ObjectId 6) (RevisionId 4) ''new'') \<and>
   refines sample_idb (resolve_conflict sample_idb sample_repo Inr (RevisionId 8) sample_now (ObjectId 6) [RevisionId 4] (Version_Active ''new''))
     (spec_resolve_conflict sample_repo Inr (RevisionId 8) sample_now (ObjectId 6) [RevisionId 4] (Version_Active ''new'')) \<and>
   fst (repo_update sample_idb sample_repo Inr (RevisionId 8) sample_now (ObjectId 6) (RevisionId 4) ''new'' sample_db) =
     Inr (RevisionId 8) \<and>
   fst (repo_update sample_idb sample_repo Inr (RevisionId 8) sample_now (ObjectId 5) (RevisionId 2) ''new'' sample_db) =
     Inl ConflictExists \<and>
   fst (repo_delete sample_idb sample_repo (RevisionId 8) sample_now (ObjectId 6) (RevisionId 2) sample_db) = Inl StaleParent"
proof -
  have "fst (repo_update sample_idb sample_repo Inr (RevisionId 8) sample_now (ObjectId 6) (RevisionId 4) ''new'' sample_db) =
     Inr (RevisionId 8)" by code_simp
  moreover have "fst (repo_update sample_idb sample_repo Inr (RevisionId 8) sample_now (ObjectId 5) (RevisionId 2) ''new'' sample_db) =
     Inl ConflictExists" by code_simp
  moreover have "fst (repo_delete sample_idb sample_repo (RevisionId 8) sample_now (ObjectId 6) (RevisionId 2) sample_db) = Inl StaleParent"
    by code_simp
  ultimately show ?thesis
    using repository_refines[of sample_idb Inr "''new''" sample_repo "ObjectId 6" "RevisionId 8" sample_now
        "''note''" "RevisionId 4" "[RevisionId 4]"] by simp
qed

text \<open>
  C13: resolving a conflict ends it: where \<^verbatim>\<open>resolve_conflict\<close> is given heads of the object, it
  succeeds, and afterwards the object has exactly one head, the new merge revision with
  the given parents and content, which waits to be pushed.
\<close>

theorem resolve_conflict_single:
  assumes "idb_ok E" "client_inv s" "readable E s"
    and "resolved_content to_value resolved = Inr c" "content_ok E c"
    and "set (p # q # ps) \<subseteq> head_revision_id ` set (fst (spec_heads ob (decoded_db E s)))"
  shows "\<exists>s' ty. resolve_conflict E repo to_value fresh now ob (p # q # ps) resolved s = (Inr fresh, s') \<and>
    fst (client_get_heads E ob s') =
      Inr [head_record_from_revision ob (new_revision repo fresh now ob ty (Merge p q ps) c)] \<and>
    written (new_revision repo fresh now ob ty (Merge p q ps) c) (decoded_db E s) (decoded_db E s')"
proof -
  define ty where "ty = head_object_type (hd (fst (spec_heads ob (decoded_db E s))))"
  let ?r = "new_revision repo fresh now ob ty (Merge p q ps) c"
  have "spec_resolve repo fresh now ob p q ps c (decoded_db E s) =
      (Inr fresh, snd (spec_store_head ?r (decoded_db E s)))"
    using assms(6) by (simp add: spec_resolve_def ty_def Let_def)
  then obtain s' where s': "resolve_conflict E repo to_value fresh now ob (p # q # ps) resolved s = (Inr fresh, s')"
    "readable E s'" "decoded_db E s' = snd (spec_store_head ?r (decoded_db E s))"
    by (rule refines_run[OF refines_resolve_conflict[of E to_value resolved c, OF assms(1,4,5)] assms(3)])
  note w = spec_store_head_written[OF client_inv_decoded[OF assms(2,3)], of ?r]
  have ob: "rev_object_id ?r = ob" by (simp add: new_revision_def)
  have "fst (client_get_heads E ob s') = Inr (fst (spec_heads ob (decoded_db E s')))"
    by (rule refines_plain_run[OF refines_client_get_heads[OF assms(1), of ob] s'(2)]) simp
  then have "fst (client_get_heads E ob s') = Inr [head_record_from_revision ob ?r]"
    using w(2) by (simp add: s'(3) ob)
  with s' w(1) show ?thesis by auto
qed

theorem resolve_conflict_single_witness:
  "\<exists>s' ty. resolve_conflict sample_idb sample_repo Inr (RevisionId 8) sample_now (ObjectId 5)
      [RevisionId 2, RevisionId 3] (Version_Active ''merged'') sample_db = (Inr (RevisionId 8), s') \<and>
    fst (client_get_heads sample_idb (ObjectId 5) s') =
      Inr [head_record_from_revision (ObjectId 5) (new_revision sample_repo (RevisionId 8) sample_now (ObjectId 5) ty
        (Merge (RevisionId 2) (RevisionId 3) []) (Active ''merged''))] \<and>
    written (new_revision sample_repo (RevisionId 8) sample_now (ObjectId 5) ty
        (Merge (RevisionId 2) (RevisionId 3) []) (Active ''merged''))
      (decoded_db sample_idb sample_db) (decoded_db sample_idb s')"
proof (rule resolve_conflict_single[OF sample_idb_ok sample_db_inv sample_db_readable])
  show "set [RevisionId 2, RevisionId 3] \<subseteq>
      head_revision_id ` set (fst (spec_heads (ObjectId 5) (decoded_db sample_idb sample_db)))"
    by code_simp
qed (simp_all add: resolved_content_def)

section \<open>Files\<close>

text \<open>
  C38: file data that is saved is read back, replaces earlier data of the object, is gone after
  it is deleted, and none of it touches the data of another object.
\<close>

theorem file_round_trip:
  assumes "idb_ok E" "client_inv s" "readable E s" "other \<noteq> ob"
  shows "\<exists>s1 s2. save_file_data E ob d s = (Inr (), s1) \<and> delete_file_data E ob s1 = (Inr (), s2) \<and>
    fst (get_file_data E ob s1) = Inr (Some d) \<and> fst (get_file_data E ob s2) = Inr None \<and>
    fst (get_file_data E other s1) = fst (get_file_data E other s) \<and>
    fst (get_file_data E other s2) = fst (get_file_data E other s)"
proof -
  note unfold = save_file_data_def delete_file_data_def get_file_data_def
  have get: "fst (client_get_file E i t) = Inr (store_get (db_files (decoded_db E t)) i)" if "readable E t" for i t
    by (rule refines_plain_run[OF refines_files(2)[OF assms(1), of i] that]) simp
  obtain s1 where s1: "save_file_data E ob d s = (Inr (), s1)" "readable E s1"
    "db_files (decoded_db E s1) = store_put ob d (db_files (decoded_db E s))"
    unfolding unfold by (rule refines_plain_run[OF refines_files(1)[OF assms(1), of ob d] assms(3)]) simp
  obtain s2 where s2: "delete_file_data E ob s1 = (Inr (), s2)" "readable E s2"
    "db_files (decoded_db E s2) = store_delete ob (db_files (decoded_db E s1))"
    unfolding unfold by (rule refines_plain_run[OF refines_files(3)[OF assms(1), of ob] s1(2)]) simp
  have sorted: "sorted_store (db_files (decoded_db E s))"
    using client_inv_decoded[OF assms(2,3)] by (simp add: client_inv_def)
  have found: "fst (get_file_data E ob s1) = Inr (Some d)" "fst (get_file_data E ob s2) = Inr None"
    unfolding unfold using sorted by (simp_all add: get s1 s2 idb.get_put idb.get_del idb.valid_put)
  have others: "fst (get_file_data E other s1) = fst (get_file_data E other s)"
    "fst (get_file_data E other s2) = fst (get_file_data E other s)"
    unfolding unfold using sorted assms(3,4) by (simp_all add: get s1 s2 idb.get_put idb.get_del idb.valid_put)
  from s1(1) s2(1) found others show ?thesis by auto
qed

theorem file_round_trip_witness:
  "\<exists>s1 s2. save_file_data sample_idb (ObjectId 6) [1, 2] sample_db = (Inr (), s1) \<and>
    delete_file_data sample_idb (ObjectId 6) s1 = (Inr (), s2) \<and>
    fst (get_file_data sample_idb (ObjectId 6) s1) = Inr (Some [1, 2]) \<and>
    fst (get_file_data sample_idb (ObjectId 6) s2) = Inr None \<and>
    fst (get_file_data sample_idb (ObjectId 5) s1) = fst (get_file_data sample_idb (ObjectId 5) sample_db) \<and>
    fst (get_file_data sample_idb (ObjectId 5) s2) = fst (get_file_data sample_idb (ObjectId 5) sample_db)"
  by (rule file_round_trip[OF sample_idb_ok sample_db_inv sample_db_readable]) simp

end
