(* ===== verification/SyncCorrect.thy ===== *)
theory SyncCorrect
  imports ClientCorrect
begin

text \<open>
  What a round of synchronisation does to the client's database. With any faults: a pull drops
  a head only for a revision that replaces it, and a failing pull leaves the cursor. Without
  faults: the exact state after a push and after a pull.
\<close>

section \<open>Properties the writes keep\<close>

text \<open>
  A property that the single changes of a store keep is kept by the operation, whether it
  succeeds or fails.
\<close>

lemma put_revision_frame:
  assumes "uncounted P" "\<And>y s. P s \<Longrightarrow> P (snd (put_record y s))"
  shows "triple P (put_revision E x) (\<lambda>_. P) (\<lambda>_. P)"
  unfolding put_revision_def
  by (intro triple_and_then[where R = "\<lambda>_. P"] triple_to_js triple_idb_tx_keeps triple_idb_request assms(1)) (auto simp: assms)

lemma put_heads_frame:
  assumes "uncounted P" "\<And>y s. P s \<Longrightarrow> P (snd (put_head y s))"
  shows "triple P (put_heads E xs) (\<lambda>_. P) (\<lambda>e s. case e of Aborted \<Rightarrow> True | Left _ \<Rightarrow> P s)"
  unfolding put_heads_def
  by (intro triple_for_each_keeps triple_and_then[where R = "\<lambda>_. P"] triple_map_err triple_to_js
      triple_idb_request assms(1)) (auto simp: assms)

lemma add_heads_frame:
  assumes "uncounted P" "\<And>y s. P s \<Longrightarrow> P (snd (put_head y s))"
  shows "triple P (add_heads E rs) (\<lambda>_. P) (\<lambda>_. P)"
  unfolding add_heads_def by (intro triple_idb_tx_keeps put_heads_frame assms)

lemma client_get_heads_frame:
  assumes "uncounted P"
  shows "triple P (get_heads_in_store E ob) (\<lambda>_. P) (\<lambda>e s. case e of Aborted \<Rightarrow> True | Left _ \<Rightarrow> P s)"
    and "triple P (client_get_heads E ob) (\<lambda>_. P) (\<lambda>_. P)"
proof -
  show "triple P (get_heads_in_store E ob) (\<lambda>_. P) (\<lambda>e s. case e of Aborted \<Rightarrow> True | Left _ \<Rightarrow> P s)"
    unfolding get_heads_in_store_def
    by (intro triple_and_then[where R = "\<lambda>_. P"] triple_idb_request triple_map_err triple_collect_keeps triple_from_js assms) auto
  then show "triple P (client_get_heads E ob) (\<lambda>_. P) (\<lambda>_. P)"
    unfolding client_get_heads_def by (rule triple_idb_tx_keeps) (rule assms)+
qed

lemma replace_heads_frame:
  assumes "uncounted P" "\<And>y s. P s \<Longrightarrow> P (snd (put_head y s))" "\<And>i s. P s \<Longrightarrow> P (snd (delete_head ob i s))"
  shows "triple P (replace_heads E ob rs) (\<lambda>_. P) (\<lambda>_. P)"
  unfolding replace_heads_def
  by (intro triple_idb_tx_keeps triple_and_then[where R = "\<lambda>_. P"] triple_idb_request triple_for_each_keeps
      client_get_heads_frame put_heads_frame assms(1,2)) (auto simp: assms(3))

lemma apply_updates_frame:
  assumes "uncounted P" "\<And>x s. P s \<Longrightarrow> P (snd (put_record x s))" "\<And>y s. P s \<Longrightarrow> P (snd (put_head y s))"
    "\<And>ob i s. P s \<Longrightarrow> P (snd (delete_head ob i s))"
  shows "triple P (apply_updates E us) (\<lambda>_. P) (\<lambda>_. P)"
proof -
  have "triple P (apply_update E u counts) (\<lambda>_. P) (\<lambda>_. P)" for u counts
    unfolding apply_update_def
    by (auto split: prod.split HeadAction.split
        intro!: triple_and_then[where R = "\<lambda>_. P"] triple_fold_each[where I = "\<lambda>_ _. P"] triple_ok put_revision_frame
          add_heads_frame replace_heads_frame client_get_heads_frame assms)
  then show ?thesis
    unfolding apply_updates_def by (rule triple_fold_each[where I = "\<lambda>_ _. P"])
qed

section \<open>A pull keeps what it does not supersede\<close>

abbreviation head_keys :: "'j client_db \<Rightarrow> (ObjectId \<times> RevisionId) set" where
  "head_keys s \<equiv> fst ` set (db_heads s)"

text \<open>The update delivers the revision or a child of it for its object.\<close>

definition replaces :: "'v ObjectUpdate \<Rightarrow> ObjectId \<Rightarrow> RevisionId \<Rightarrow> bool" where
  "replaces u ob i \<longleftrightarrow> upd_action u = Replace \<and> upd_object_id u = ob \<and>
     (\<exists>r \<in> set (upd_heads u). i = rev_id r \<or> i \<in> set (rev_parents r))"

text \<open>The head is there, or something may have replaced it.\<close>

definition kept_head :: "bool \<Rightarrow> ObjectId \<times> RevisionId \<Rightarrow> 'j client_db \<Rightarrow> bool" where
  "kept_head c k s \<longleftrightarrow> k \<in> head_keys s \<or> c"

lemma uncounted_kept_head [simp, intro]: "uncounted (kept_head c k)"
  by (rule uncountedI) (simp add: kept_head_def)

lemma kept_head_steps:
  "kept_head c k s \<Longrightarrow> kept_head c k (snd (put_record x s))"
  "kept_head c k s \<Longrightarrow> kept_head c k (snd (put_head y s))"
  "kept_head c k s \<Longrightarrow> (fst k = ob \<Longrightarrow> c) \<Longrightarrow> kept_head c k (snd (delete_head ob i s))"
  using set_store_put_keys[of "(head_object_id y, head_revision_id y)" y "db_heads s"]
  by (auto simp: kept_head_def put_record_def put_head_def delete_head_def store_delete_def image_iff)

lemmas kept_put_revision = put_revision_frame[OF uncounted_kept_head kept_head_steps(1)]
  and kept_add_heads = add_heads_frame[OF uncounted_kept_head kept_head_steps(2)]

lemma kept_replace_heads:
  assumes "fst k = ob \<Longrightarrow> c"
  shows "triple (kept_head c k) (replace_heads E ob rs) (\<lambda>_. kept_head c k) (\<lambda>_. kept_head c k)"
  by (rule replace_heads_frame[OF uncounted_kept_head kept_head_steps(2)]) (auto intro: kept_head_steps(3) assms)

text \<open>The heads that are read include every head of the object.\<close>

lemma triple_collect_ids:
  "triple P (collect (from_js E convert_head) xs)
     (\<lambda>ys s. P s \<and> map head_revision_id ys = map head_revision_id xs) (\<lambda>_. P)"
proof (induction xs)
  case (Cons x xs)
  have "triple P (from_js E convert_head x) (\<lambda>y s. P s \<and> head_revision_id y = head_revision_id x) (\<lambda>_. P)"
    by (rule triple_from_js) (auto dest: convert_head_ids)
  moreover have "triple (\<lambda>s. P s \<and> head_revision_id y = head_revision_id x)
      (and_then (collect (from_js E convert_head) xs) (\<lambda>ys. ok (y # ys)))
      (\<lambda>ys s. P s \<and> map head_revision_id ys = map head_revision_id (x # xs)) (\<lambda>_. P)" for y
    by (intro triple_pure triple_and_then[OF Cons.IH]) (auto intro: triple_ok)
  ultimately show ?case unfolding collect.simps by (rule triple_and_then)
qed (simp add: triple_ok)

definition covered :: "bool \<Rightarrow> ObjectId \<times> RevisionId \<Rightarrow> ObjectId \<Rightarrow> 'v HeadRecord list \<Rightarrow> bool" where
  "covered c k ob hs \<longleftrightarrow> c \<or> fst k \<noteq> ob \<or> snd k \<in> head_revision_id ` set hs"

lemma uncounted_conj: "uncounted P \<Longrightarrow> uncounted (\<lambda>s. P s \<and> d)"
  by (auto simp: uncounted_def)

lemma client_get_heads_all:
  "triple (\<lambda>s. client_inv s \<and> kept_head c k s) (client_get_heads E ob)
     (\<lambda>hs s. (client_inv s \<and> kept_head c k s) \<and> covered c k ob hs)
     (\<lambda>_ s. client_inv s \<and> kept_head c k s)"
proof -
  let ?P = "\<lambda>s. client_inv s \<and> kept_head c k s"
  let ?found = "\<lambda>xs. c \<or> fst k \<noteq> ob \<or> snd k \<in> set (map head_revision_id xs)"
  have unc: "uncounted ?P" by (rule uncountedI) (simp add: client_inv_def kept_head_def)
  define F where "F s = map snd (store_get_all (head_range ob) (db_heads s))" for s :: "'a client_db"
  have "?found (F s)" if "?P s" for s
    using that unfolding F_def by (cases k) (force simp: client_inv_def kept_head_def store_get_all_def head_range_iff image_iff)
  then have "triple ?P (idb_request E (\<lambda>s. (F s, s)))
      (\<lambda>xs s. ?P s \<and> ?found xs) (\<lambda>e s. case e of Aborted \<Rightarrow> True | Left _ \<Rightarrow> ?P s)"
    by (intro triple_idb_request unc) auto
  moreover have "triple (\<lambda>s. ?P s \<and> ?found xs) (map_err Left (collect (from_js E convert_head) xs))
      (\<lambda>hs s. ?P s \<and> ?found hs) (\<lambda>e s. case e of Aborted \<Rightarrow> True | Left _ \<Rightarrow> ?P s)" for xs
    by (intro triple_map_err triple_pure triple_weaken[OF triple_collect_ids[of ?P E xs]]) (auto simp flip: set_map)
  ultimately have "triple ?P (get_heads_in_store E ob) (\<lambda>hs s. ?P s \<and> ?found hs)
      (\<lambda>e s. case e of Aborted \<Rightarrow> True | Left _ \<Rightarrow> ?P s)"
    unfolding get_heads_in_store_def F_def by (rule triple_and_then)
  then have "triple ?P (client_get_heads E ob) (\<lambda>hs s. ?P s \<and> ?found hs) (\<lambda>_. ?P)"
    unfolding client_get_heads_def
    by (rule triple_idb_tx_keeps[OF _ unc]) (rule uncounted_conj[OF unc])
  then show ?thesis by (simp add: covered_def)
qed

lemma triple_conj:
  assumes "triple P m Q X" "triple P' m Q' X'"
  shows "triple (\<lambda>s. P s \<and> P' s) m (\<lambda>a s. Q a s \<and> Q' a s) (\<lambda>e s. X e s \<and> X' e s)"
  using triple_Inr[OF assms(1)] triple_Inr[OF assms(2)] triple_Inl[OF assms(1)] triple_Inl[OF assms(2)]
  by (intro tripleI) blast+

lemma client_inv_keeps: "triple (inv_with {}) m (\<lambda>_. inv_with {}) (\<lambda>_. inv_with {}) \<Longrightarrow>
   triple client_inv m (\<lambda>_. client_inv) (\<lambda>_. client_inv)"
  by (simp add: inv_with_def[abs_def])

text \<open>The heads that a pull replaces have not diverged: each is delivered again or is a parent.\<close>

lemma not_diverged_replaces:
  assumes "\<not> has_diverged hs (upd_heads u)" "i \<in> head_revision_id ` set hs" "upd_action u = Replace"
  shows "replaces u (upd_object_id u) i"
  using assms by (auto simp: has_diverged_def list_ex_iff replaces_def Let_def)

lemma kept_apply_update:
  assumes "replaces u (fst k) (snd k) \<Longrightarrow> c"
  shows "triple (\<lambda>s. client_inv s \<and> kept_head c k s) (apply_update E u counts)
     (\<lambda>_ s. client_inv s \<and> kept_head c k s) (\<lambda>_ s. client_inv s \<and> kept_head c k s)"
proof -
  let ?P = "\<lambda>s. client_inv s \<and> kept_head c k s"
  obtain n m where counts: "counts = (n, m)" by (cases counts)
  have put: "triple ?P (put_revision E x) (\<lambda>_. ?P) (\<lambda>_. ?P)" for x
    by (rule triple_weaken[OF triple_conj[OF put_revision_keeps[of "{}"] kept_put_revision]]) (auto simp: inv_with_def)
  have puts: "triple ?P (fold_each (\<lambda>r n. and_then (put_revision E (from_revision r Synced)) (\<lambda>_. ok (n + 1)))
      (upd_heads u) n) (\<lambda>_. ?P) (\<lambda>_. kept_head c k)"
    by (rule triple_weaken[OF triple_fold_each[where I = "\<lambda>_ _. ?P" and X = "\<lambda>_. ?P"]])
      (auto intro!: triple_and_then[OF put] triple_ok)
  have add: "triple ?P (and_then (add_heads E (upd_heads u)) (\<lambda>_. ok b)) (\<lambda>_. kept_head c k) (\<lambda>_. kept_head c k)"
    for b :: "32 word \<times> 32 word"
    by (rule triple_weaken[OF triple_and_then[OF kept_add_heads]]) (auto intro: triple_ok)
  have replace: "triple (\<lambda>s. ?P s \<and> covered c k (upd_object_id u) hs)
      (and_then (replace_heads E (upd_object_id u) (upd_heads u)) (\<lambda>_. ok b)) (\<lambda>_. kept_head c k) (\<lambda>_. kept_head c k)"
    if "\<not> has_diverged hs (upd_heads u)" "upd_action u = Replace" for hs and b :: "32 word \<times> 32 word"
  proof (rule triple_pure)
    assume "covered c k (upd_object_id u) hs"
    then have "fst k = upd_object_id u \<Longrightarrow> c"
      using assms not_diverged_replaces[OF that(1) _ that(2)] unfolding covered_def by metis
    then show "triple ?P (and_then (replace_heads E (upd_object_id u) (upd_heads u)) (\<lambda>_. ok b))
        (\<lambda>_. kept_head c k) (\<lambda>_. kept_head c k)"
      by (intro triple_weaken[OF triple_and_then[OF kept_replace_heads]]) (auto intro: triple_ok)
  qed
  have rest: "triple ?P (client_get_heads E (upd_object_id u))
      (\<lambda>hs s. ?P s \<and> covered c k (upd_object_id u) hs) (\<lambda>_. kept_head c k)"
    by (rule triple_weaken[OF client_get_heads_all]) auto
  have diverged: "triple (\<lambda>s. ?P s \<and> D) (and_then (add_heads E (upd_heads u)) (\<lambda>_. ok b))
      (\<lambda>_. kept_head c k) (\<lambda>_. kept_head c k)" for b :: "32 word \<times> 32 word" and D
    using add by (rule triple_pure)
  have "triple ?P (apply_update E u counts) (\<lambda>_. kept_head c k) (\<lambda>_. kept_head c k)"
    unfolding apply_update_def counts prod.case
    by (rule triple_and_then[OF puts])
      (auto split: HeadAction.split intro!: add triple_and_then[OF rest] diverged replace simp flip: conj_assoc)
  from triple_conj[OF apply_update_stores[of "{}"] this] show ?thesis
    by (rule triple_weaken) (auto simp: inv_with_def)
qed

text \<open>
  C8: a pull drops no head of the client unless the server sent something for it. Whatever
  requests fail and wherever the updates stop being applied, a head the client had is still
  a head, or an update of its object that asks for replacement delivered this very revision
  or a direct child of it. A local change the server does not know is never dropped.
\<close>

theorem pull_keeps_heads:
  assumes "client_inv s" "(ob, i) \<in> head_keys s"
  shows "(ob, i) \<in> head_keys (snd (apply_updates E us s)) \<or> (\<exists>u \<in> set us. replaces u ob i)"
proof -
  let ?c = "\<exists>u \<in> set us. replaces u ob i"
  let ?P = "\<lambda>s :: 'a client_db. client_inv s \<and> kept_head ?c (ob, i) s"
  have "triple ?P (fold_each (apply_update E) vs acc) (\<lambda>_. ?P) (\<lambda>_. ?P)" if "set vs \<subseteq> set us" for vs acc
    using that
  proof (induction vs arbitrary: acc)
    case (Cons v vs)
    then have "replaces v ob i \<Longrightarrow> ?c" by auto
    then show ?case using Cons by (auto intro!: triple_and_then[OF kept_apply_update])
  qed (simp add: triple_ok)
  from triple_snd[OF this[of us "(0, 0)"], of s] show ?thesis
    using assms unfolding apply_updates_def kept_head_def by blast
qed

definition pulled_update :: "string ObjectUpdate" where
  "pulled_update = \<lparr> upd_object_id = ObjectId 5, upd_action = Replace, upd_heads = [record_revision
       (sample_record (ObjectId 5) (RevisionId 10) (Update (RevisionId 3)) Synced)] \<rparr>"

theorem pull_keeps_heads_witness:
  "(ObjectId 5, RevisionId 2) \<in> head_keys (snd (apply_updates sample_idb [pulled_update] sample_db)) \<and>
   \<not> replaces pulled_update (ObjectId 5) (RevisionId 2)"
proof -
  have "(ObjectId 5, RevisionId 2) \<in> head_keys sample_db" "\<not> replaces pulled_update (ObjectId 5) (RevisionId 2)"
    by code_simp+
  with pull_keeps_heads[OF sample_db_inv this(1), of sample_idb "[pulled_update]"] show ?thesis by simp
qed

section \<open>The cursor\<close>

text \<open>Writing the sync state touches nothing else.\<close>

lemma advance_cursor_frame:
  assumes "uncounted P" "\<And>x s. P (s\<lparr>db_sync := x\<rparr>) = P s"
  shows "triple P (advance_cursor E up_to) (\<lambda>_. P) (\<lambda>_. P)"
  unfolding advance_cursor_def read_sync_state_def write_sync_state_def converted_def
  by (intro triple_and_then[where R = "\<lambda>_. P"] triple_idb_tx_keeps triple_idb_request assms(1))
    (auto simp: assms split: option.split intro!: triple_and_then[where R = "\<lambda>_. P"] triple_idb_tx_keeps triple_idb_request
      triple_ok triple_err)

text \<open>The sync state after a pull that reported \<open>up_to\<close>: only a state with an identity moves.\<close>

definition advanced :: "TransactionId \<Rightarrow> SyncStateRecord option \<Rightarrow> SyncStateRecord option" where
  "advanced up_to st =
     (case st of
        None \<Rightarrow> None
      | Some r \<Rightarrow> if ss_client_id r \<noteq> None \<and> ss_user_id r \<noteq> None then Some (r\<lparr>ss_last_server_txn_id := Some up_to\<rparr>)
                  else Some r)"

lemma uncounted_sync [simp, intro]: "uncounted (\<lambda>s. db_sync s = x)" "uncounted (\<lambda>s. db_sync s = x \<and> d)"
  by (simp_all add: uncounted_def)

lemma read_sync_state_result:
  "triple (\<lambda>s. db_sync s = x) (read_sync_state E)
     (\<lambda>v s. db_sync s = x \<and> v = (case x of Some r \<Rightarrow> (ss_client_id r, ss_user_id r, ss_last_server_txn_id r)
        | None \<Rightarrow> (None, None, None))) (\<lambda>_ s. db_sync s = x)"
proof -
  have "triple (\<lambda>s. db_sync s = x) (idb_tx E (idb_request E (\<lambda>s. (db_sync s, s)))) (\<lambda>v s. db_sync s = x \<and> v = x) (\<lambda>_ s. db_sync s = x)"
    by (intro triple_idb_tx_keeps triple_idb_request) auto
  then show ?thesis
    unfolding read_sync_state_def by (rule triple_and_then) (auto intro: triple_ok)
qed

lemma write_sync_state_result:
  "triple (\<lambda>s. db_sync s = x) (write_sync_state E c u t)
     (\<lambda>_ s. db_sync s = Some \<lparr> ss_client_id = Some c, ss_user_id = Some u, ss_last_server_txn_id = t \<rparr>)
     (\<lambda>_ s. db_sync s = x)"
  unfolding write_sync_state_def converted_def
  by (intro triple_and_then[where R = "\<lambda>_ s. db_sync s = x"] triple_idb_tx_keeps triple_idb_request)
    (auto split: option.split intro: triple_ok triple_err)

lemma advance_cursor_result:
  "triple (\<lambda>s. db_sync s = x) (advance_cursor E up_to) (\<lambda>_ s. db_sync s = advanced up_to x) (\<lambda>_ s. db_sync s = x)"
proof -
  let ?v = "case x of Some r \<Rightarrow> (ss_client_id r, ss_user_id r, ss_last_server_txn_id r) | None \<Rightarrow> (None, None, None)"
  have wr: "triple (\<lambda>s. db_sync s = Some r) (write_sync_state E c u (Some up_to))
      (\<lambda>_ s. db_sync s = Some (r\<lparr>ss_last_server_txn_id := Some up_to\<rparr>)) (\<lambda>_ s. db_sync s = Some r)"
    if "ss_client_id r = Some c" "ss_user_id r = Some u" for r c u
    by (rule triple_weaken[OF write_sync_state_result]) (auto simp flip: that)
  have "triple (\<lambda>s. db_sync s = x \<and> v = ?v)
      (case v of (client_id, user_id, _) \<Rightarrow> case (client_id, user_id) of
            (Some cid, Some uid) \<Rightarrow> write_sync_state E cid uid (Some up_to) | _ \<Rightarrow> ok ())
      (\<lambda>_ s. db_sync s = advanced up_to x) (\<lambda>_ s. db_sync s = x)" for v
    by (rule triple_pure) (auto simp: advanced_def split: option.split intro!: triple_ok wr)
  then show ?thesis
    unfolding advance_cursor_def by (rule triple_and_then[OF read_sync_state_result])
qed

text \<open>
  C30: the cursor moves only past what is stored. A pull that fails, in whatever way, leaves
  the sync state as it was, so the next pull asks for the same changes again. A pull that
  succeeds had an answer from the server, has stored every revision of it, and moves the
  cursor to the transaction the answer names (where the client has an identity).
\<close>

theorem pull_cursor:
  fixes E :: "('v, 'j) idb_env" and w :: "('j, 's) world"
  assumes "client_inv (local_db w)" "pull_updates E srv url q w = (r, w')"
  shows "case r of
      Inl e \<Rightarrow> db_sync (local_db w') = db_sync (local_db w)
    | Inr counts \<Rightarrow> (\<exists>resp.
        fst (post_changes_query srv (url_of url ''/changes/query'') q (remote w)) = Answer resp \<and>
        db_sync (local_db w') = advanced (up_to_transaction resp) (db_sync (local_db w)) \<and>
        (\<Union>u \<in> set (object_updates resp). rev_id ` set (upd_heads u)) \<subseteq> stored_ids (local_db w'))"
proof -
  define x where "x = db_sync (local_db w)"
  define ans where "ans = fst (post_changes_query srv (url_of url ''/changes/query'') q (remote w))"
  let ?ids = "\<lambda>resp. \<Union>u \<in> set (object_updates resp). rev_id ` set (upd_heads u)"
  let ?P = "\<lambda>w. world_inv {} w \<and> db_sync (local_db w) = x"
  let ?Q = "\<lambda>resp w. world_inv (?ids resp) w \<and> db_sync (local_db w) = advanced (up_to_transaction resp) x"
  let ?X = "\<lambda>_ w. db_sync (local_db w) = x"
  have applied: "triple ?P (on_db (apply_updates E (object_updates resp)))
      (\<lambda>_ w. world_inv (?ids resp) w \<and> db_sync (local_db w) = x) ?X" for resp
    by (rule triple_weaken[OF triple_on_db[OF triple_conj[OF apply_updates_stores[of "{}"]
          apply_updates_frame[where P = "\<lambda>s. db_sync s = x"]]]])
      (auto simp: put_record_def put_head_def delete_head_def)
  have advance: "triple (\<lambda>w. world_inv (?ids resp) w \<and> db_sync (local_db w) = x)
      (on_db (advance_cursor E (up_to_transaction resp))) (\<lambda>_. ?Q resp) ?X" for resp
    by (rule triple_weaken[OF triple_on_db[OF triple_conj[OF advance_cursor_keeps advance_cursor_result]]]) auto
  have "triple (\<lambda>w'. ?P w' \<and> w' = w) (pull_updates E srv url q) (\<lambda>_ w. \<exists>resp. ans = Answer resp \<and> ?Q resp w) ?X"
    unfolding pull_updates_def
  proof (rule triple_and_then[where R = "\<lambda>res w. ?P w \<and> res = ans"])
    show "triple (\<lambda>w'. ?P w' \<and> w' = w) (on_remote (post_changes_query srv (url_of url ''/changes/query'') q))
        (\<lambda>res w. ?P w \<and> res = ans) ?X"
      by (rule triple_on_remote) (simp add: ans_def)
    fix res :: "'v PullResponse http_result"
    have rest: "triple ?P (and_then (on_db (apply_updates E (object_updates resp)))
        (\<lambda>counts. and_then (on_db (advance_cursor E (up_to_transaction resp))) (\<lambda>_. ok counts))) (\<lambda>_. ?Q resp) ?X" for resp
      by (rule triple_and_then[OF applied], rule triple_and_then[OF advance]) (rule triple_ok)
    have answered: "triple ?P (answer_or_network ''pull'' res) (\<lambda>resp w. ?P w \<and> res = Answer resp) ?X"
      by (rule triple_answer) simp_all
    show "triple (\<lambda>w. ?P w \<and> res = ans) (and_then (answer_or_network ''pull'' res)
        (\<lambda>pull_resp. and_then (on_db (apply_updates E (object_updates pull_resp)))
          (\<lambda>counts. and_then (on_db (advance_cursor E (up_to_transaction pull_resp))) (\<lambda>_. ok counts))))
        (\<lambda>_ w. \<exists>resp. ans = Answer resp \<and> ?Q resp w) ?X"
      by (rule triple_pure, rule triple_and_then[OF answered], rule triple_pure)
        (rule triple_weaken[OF rest], auto)
  qed
  note pulled = this
  have start: "?P w \<and> w = w" using assms(1) by (simp add: x_def inv_with_def)
  show ?thesis
  proof (cases r)
    case (Inl e)
    from triple_Inl[OF pulled start assms(2)[unfolded Inl]] show ?thesis by (simp add: Inl x_def)
  next
    case (Inr counts)
    from triple_Inr[OF pulled start assms(2)[unfolded Inr]] obtain resp where
      "ans = Answer resp" "?Q resp w'" by blast
    then show ?thesis unfolding Inr ans_def x_def inv_with_def by auto
  qed
qed

definition sample_server :: "(string, nat) remote_server" where
  "sample_server = \<lparr> post_changes = (\<lambda>u q n. (Status 503, n)),
     post_changes_query = (\<lambda>u q n. (Answer \<lparr> up_to_transaction = TransactionId 4, object_updates = [pulled_update] \<rparr>, Suc n)),
     get_whoami = (\<lambda>u n. (Status 401, n)) \<rparr>"

definition sample_pull :: "string PullRequest" where
  "sample_pull = \<lparr> pull_since = Some (TransactionId 3), pull_object_types = None, pull_created_at = None, pull_filter = None \<rparr>"

abbreviation sample_start :: "(string, nat) world" where
  "sample_start \<equiv> \<lparr>local_db = sample_db, remote = 0\<rparr>"

theorem pull_cursor_witness:
  "\<exists>w'. pull_updates sample_idb sample_server ''http://server/'' sample_pull sample_start = (Inr (1, 1), w') \<and>
   db_sync (local_db w') = advanced (TransactionId 4) (db_sync sample_db) \<and> RevisionId 10 \<in> stored_ids (local_db w')"
proof -
  let ?run = "pull_updates sample_idb sample_server ''http://server/'' sample_pull sample_start"
  have "fst ?run = Inr (1, 1)" by code_simp
  then have run: "?run = (Inr (1, 1), snd ?run)" by (metis prod.collapse)
  have inv: "client_inv (local_db sample_start)" using sample_db_inv by simp
  have ids: "(\<Union>u \<in> set [pulled_update]. rev_id ` set (upd_heads u)) = {RevisionId 10}" by code_simp
  from pull_cursor[OF inv run] have "db_sync (local_db (snd ?run)) = advanced (TransactionId 4) (db_sync sample_db) \<and>
      (\<Union>u \<in> set [pulled_update]. rev_id ` set (upd_heads u)) \<subseteq> stored_ids (local_db (snd ?run))"
    by (auto simp: sample_server_def)
  with run ids show ?thesis by auto
qed

section \<open>What a push does\<close>

text \<open>The verdicts of an answer in the order the client records them\<close>

definition verdict_list :: "PushResponse \<Rightarrow> (RevisionId \<times> SyncStatus) list" where
  "verdict_list resp = map (\<lambda>i. (i, Synced)) (resp_accepted resp) @
     map (\<lambda>x. (rejected_revision_id x, SyncError (rejected_reason x))) (resp_rejected resp)"

definition mark_all :: "(RevisionId \<times> SyncStatus) list \<Rightarrow> 'v client_db \<Rightarrow> 'v client_db" where
  "mark_all vs = fold (\<lambda>(i, st) s. snd (spec_set_status i st s)) vs"

lemma spec_set_status_step:
  fixes i st
  assumes "client_inv s"
  defines "s' \<equiv> snd (spec_set_status i st s)"
  shows "client_inv s'"
    and "store_get (db_revisions s') j =
      map_option (\<lambda>x. if j = i then x\<lparr>rec_sync_status := st\<rparr> else x) (store_get (db_revisions s) j)"
    and "db_heads s' = db_heads s \<and> db_files s' = db_files s \<and> db_sync s' = db_sync s"
proof -
  have keyed: "rec_id x = i" if "store_get (db_revisions s) i = Some x" for x
    using that assms(1) by (force simp: client_inv_def store_get_def dest: map_of_SomeD)
  have sorted: "sorted_store (db_revisions s)" using assms(1) by (simp add: client_inv_def)
  have inv: "client_inv (snd (put_record y s))" for y
    using inv_with_put_record[of "{}" s y] assms(1) by (simp add: inv_with_def)
  show "client_inv s'" using assms(1) inv by (simp add: s'_def spec_set_status_def split: option.split)
  show "store_get (db_revisions s') j =
      map_option (\<lambda>x. if j = i then x\<lparr>rec_sync_status := st\<rparr> else x) (store_get (db_revisions s) j)"
    using sorted keyed
    by (cases "store_get (db_revisions s) i"; cases "j = i")
      (auto simp: s'_def spec_set_status_def put_record_def idb.get_put option.map_ident)
  show "db_heads s' = db_heads s \<and> db_files s' = db_files s \<and> db_sync s' = db_sync s"
    by (simp add: s'_def spec_set_status_def put_record_def split: option.split)
qed

lemma mark_all_lookup:
  assumes "client_inv s"
  shows "client_inv (mark_all vs s) \<and>
    store_get (db_revisions (mark_all vs s)) j =
      map_option (\<lambda>x. case map_of (rev vs) j of Some st \<Rightarrow> x\<lparr>rec_sync_status := st\<rparr> | None \<Rightarrow> x)
        (store_get (db_revisions s) j) \<and>
    db_heads (mark_all vs s) = db_heads s \<and> db_files (mark_all vs s) = db_files s \<and>
    db_sync (mark_all vs s) = db_sync s"
  using assms
proof (induction vs arbitrary: s)
  case Nil
  then show ?case by (simp add: mark_all_def option.map_ident)
next
  case (Cons v vs)
  obtain i st where v: "v = (i, st)" by (cases v)
  let ?s = "snd (spec_set_status i st s)"
  note step = spec_set_status_step[OF Cons.prems, of i st]
  have fold: "mark_all (v # vs) s = mark_all vs ?s" by (simp add: mark_all_def v)
  note IH = Cons.IH[OF step(1)]
  have look: "store_get (db_revisions (mark_all vs ?s)) j =
      map_option (\<lambda>x. case map_of (rev vs) j of Some st \<Rightarrow> x\<lparr>rec_sync_status := st\<rparr> | None \<Rightarrow> x)
        (map_option (\<lambda>x. if j = i then x\<lparr>rec_sync_status := st\<rparr> else x) (store_get (db_revisions s) j))"
    using IH unfolding step(2) by blast
  have "store_get (db_revisions (mark_all vs ?s)) j =
      map_option (\<lambda>x. case map_of (rev (v # vs)) j of Some st \<Rightarrow> x\<lparr>rec_sync_status := st\<rparr> | None \<Rightarrow> x)
        (store_get (db_revisions s) j)"
    unfolding look by (cases "store_get (db_revisions s) j") (auto simp: v map_add_def split: option.split)
  with IH step(3) show ?case unfolding fold by simp
qed

lemma for_each_on_db: "for_each (\<lambda>x. on_db (f x)) xs = on_db (for_each f xs)"
proof -
  have "for_each (\<lambda>x. on_db (f x)) xs w = on_db (for_each f xs) w" for w
    by (induction xs arbitrary: w)
      (auto simp: on_db_def and_then_def ok_def split: prod.split sum.split)
  then show ?thesis by blast
qed

lemma refines_mark:
  assumes "idb_ok E"
  shows "refines E (for_each (\<lambda>(i, st). set_status E i st) vs) (plain (\<lambda>s. ((), mark_all vs s)))"
proof -
  have "refines E (for_each (\<lambda>(i, st). set_status E i st) vs)
      (for_each (\<lambda>v. plain (\<lambda>s. ((), snd (spec_set_status (fst v) (snd v) s)))) vs)"
  proof (rule refines_for_each)
    fix v
    from refines_set_status[OF assms, of "fst v" "snd v"]
    show "refines E (case v of (i, st) \<Rightarrow> set_status E i st) (plain (\<lambda>s. ((), snd (spec_set_status (fst v) (snd v) s))))"
      by (simp add: case_prod_beta refines_def)
  qed
  then show ?thesis unfolding for_each_plain mark_all_def case_prod_unfold .
qed

lemma for_each_append: "for_each f (xs @ ys) = and_then (for_each f xs) (\<lambda>_. for_each f ys)"
  by (induction xs) (simp_all add: and_then_assoc)

lemma for_each_map: "for_each f (map g xs) = for_each (\<lambda>x. f (g x)) xs"
  by (induction xs) simp_all

lemma on_db_and_then: "and_then (on_db m) (\<lambda>a. on_db (g a)) = on_db (and_then m g)"
  by (intro ext) (auto simp: on_db_def and_then_def split: prod.split sum.split)

text \<open>The revisions a client has to push, in the order it sends them\<close>

definition unsynced :: "('v, 'j) idb_env \<Rightarrow> 'j client_db \<Rightarrow> 'v RevisionRecord list" where
  "unsynced E s = fst (spec_pending (decoded_db E s))"

lemma record_verdicts:
  "and_then (for_each (\<lambda>i. on_db (mark_revision_synced E i)) (resp_accepted resp))
      (\<lambda>_. and_then (for_each (\<lambda>x. on_db (mark_revision_error E (rejected_revision_id x) (rejected_reason x)))
            (resp_rejected resp)) f) =
   and_then (on_db (for_each (\<lambda>(i, st). set_status E i st) (verdict_list resp))) f"
  unfolding verdict_list_def for_each_append for_each_map mark_revision_synced_def mark_revision_error_def
    for_each_on_db prod.case
  by (simp add: and_then_assoc flip: on_db_and_then)

lemma push_pending_run:
  assumes "idb_ok E" "readable E (local_db w)" "unsynced E (local_db w) \<noteq> []"
    and "post_changes srv (url_of url ''/changes'')
      \<lparr>push_req_revisions = map record_revision (unsynced E (local_db w))\<rparr> (remote w) = (Answer resp, rem)"
  obtains d where
    "push_pending E srv url w =
      (Inr (word_of_nat (length (resp_accepted resp)), resp_rejected resp), \<lparr>local_db = d, remote = rem\<rparr>)"
    "readable E d" "decoded_db E d = mark_all (verdict_list resp) (decoded_db E (local_db w))"
proof -
  obtain d0 where d0: "get_pending_revisions E (local_db w) = (Inr (unsynced E (local_db w)), d0)" "readable E d0"
    "decoded_db E d0 = decoded_db E (local_db w)"
    using refines_plain_run[OF refines_get_pending_revisions[OF assms(1)] assms(2)]
    by (auto simp: unsynced_def spec_pending_def)
  obtain d where d: "for_each (\<lambda>(i, st). set_status E i st) (verdict_list resp) d0 = (Inr (), d)" "readable E d"
    "decoded_db E d = mark_all (verdict_list resp) (decoded_db E d0)"
    by (rule refines_plain_run[OF refines_mark[OF assms(1), of "verdict_list resp"] d0(2)]) simp
  have "push_pending E srv url w =
      (Inr (word_of_nat (length (resp_accepted resp)), resp_rejected resp), \<lparr>local_db = d, remote = rem\<rparr>)"
    unfolding push_pending_def record_verdicts
    using d0(1) assms(3,4) d(1)
    by (simp add: and_then_def[of "on_db _"] on_db_def and_then_def[of "on_remote _"] on_remote_def
        answer_or_network_def ok_def and_then_def)
  then show thesis using that d d0(3) by simp
qed

lemma stored_iff:
  "client_inv s \<Longrightarrow> x \<in> set (map snd (db_revisions s)) \<longleftrightarrow> store_get (db_revisions s) (rec_id x) = Some x"
proof -
  assume s: "client_inv s"
  then have d: "distinct (map fst (db_revisions s))" by (auto simp: client_inv_def dest: sorted_store_distinct)
  have "x \<in> set (map snd (db_revisions s)) \<longleftrightarrow> (rec_id x, x) \<in> set (db_revisions s)"
    using s by (force simp: client_inv_def)
  then show ?thesis by (simp add: store_get_def map_of_eq_Some_iff[OF d])
qed

lemma nothing_unsynced:
  assumes "client_inv s" "\<And>x. x \<in> set (fst (spec_pending s)) \<Longrightarrow> rec_id x \<in> fst ` set vs" "Pending \<notin> snd ` set vs"
  shows "fst (spec_pending (mark_all vs s)) = []"
proof -
  let ?t = "mark_all vs s"
  note t = mark_all_lookup[OF assms(1), of vs]
  have False if x: "x \<in> set (map snd (db_revisions ?t))" "rec_sync_status x = Pending" for x
  proof -
    from t x(1) have "store_get (db_revisions ?t) (rec_id x) = Some x" using stored_iff by blast
    with t obtain y where y: "store_get (db_revisions s) (rec_id x) = Some y"
      "x = (case map_of (rev vs) (rec_id x) of Some st \<Rightarrow> y\<lparr>rec_sync_status := st\<rparr> | None \<Rightarrow> y)"
      by (metis (no_types, lifting) map_option_eq_Some)
    show False
    proof (cases "map_of (rev vs) (rec_id x)")
      case None
      with y have "x \<in> set (fst (spec_pending s))"
        using x(2) stored_iff[OF assms(1), of x] by (auto simp: spec_pending_def)
      with assms(2) None show False by (auto simp: map_of_eq_None_iff)
    next
      case (Some st)
      with y x(2) have "st = Pending" by simp
      with Some have "(rec_id x, Pending) \<in> set vs" by (auto dest: map_of_SomeD)
      with assms(3) show False by force
    qed
  qed
  then show ?thesis by (auto simp: spec_pending_def filter_empty_conv)
qed

lemma verdict_list_final: "Pending \<notin> snd ` set (verdict_list resp)"
  by (auto simp: verdict_list_def)

text \<open>
  C31: a push records the verdicts. Without faults, where the server answers, every revision the
  answer names has the status the answer gives it (the last rejection, if any, or
  synchronised), every other revision keeps its status, no revision is added or removed, heads,
  files and cursor stay. When the answer names every revision that was sent, nothing is
  left to push.
\<close>

theorem push_records_verdicts:
  assumes "idb_ok E" "client_inv (local_db w)" "readable E (local_db w)" "unsynced E (local_db w) \<noteq> []"
    and "post_changes srv (url_of url ''/changes'')
      \<lparr>push_req_revisions = map record_revision (unsynced E (local_db w))\<rparr> (remote w) = (Answer resp, rem)"
  shows "\<exists>d. push_pending E srv url w =
      (Inr (word_of_nat (length (resp_accepted resp)), resp_rejected resp), \<lparr>local_db = d, remote = rem\<rparr>) \<and>
    (\<forall>i. store_get (db_revisions (decoded_db E d)) i =
      map_option (\<lambda>x. case map_of (rev (verdict_list resp)) i of Some st \<Rightarrow> x\<lparr>rec_sync_status := st\<rparr> | None \<Rightarrow> x)
        (store_get (db_revisions (decoded_db E (local_db w))) i)) \<and>
    db_heads (decoded_db E d) = db_heads (decoded_db E (local_db w)) \<and>
    db_files d = db_files (local_db w) \<and> db_sync d = db_sync (local_db w) \<and>
    (rec_id ` set (unsynced E (local_db w)) \<subseteq> fst ` set (verdict_list resp) \<longrightarrow> unsynced E d = [])"
proof -
  obtain d where d: "push_pending E srv url w =
      (Inr (word_of_nat (length (resp_accepted resp)), resp_rejected resp), \<lparr>local_db = d, remote = rem\<rparr>)"
    "decoded_db E d = mark_all (verdict_list resp) (decoded_db E (local_db w))"
    using push_pending_run[OF assms(1,3,4,5)] by metis
  note inv = client_inv_decoded[OF assms(2,3)]
  note marks = mark_all_lookup[OF inv, of "verdict_list resp", folded d(2)]
  have same: "db_files (decoded_db E s) = db_files s" "db_sync (decoded_db E s) = db_sync s" for s
    by (simp_all add: decoded_db_def)
  have "unsynced E d = []" if "rec_id ` set (unsynced E (local_db w)) \<subseteq> fst ` set (verdict_list resp)"
    unfolding unsynced_def d(2) using that
    by (intro nothing_unsynced[OF inv _ verdict_list_final]) (auto simp: unsynced_def)
  with d(1) marks show ?thesis unfolding same by blast
qed

definition rejecting_server :: "(string, nat) remote_server" where
  "rejecting_server = sample_server\<lparr>post_changes := (\<lambda>u q n.
     (Answer \<lparr> resp_transaction_id = TransactionId 3, resp_accepted = [],
        resp_rejected = map (\<lambda>r. \<lparr> rejected_revision_id = rev_id r, rejected_reason = UnknownParent \<rparr>)
          (push_req_revisions q) \<rparr>, Suc n))\<rparr>"

theorem push_records_verdicts_witness:
  "\<exists>d. push_pending sample_idb rejecting_server ''http://server/'' sample_start =
      (Inr (0, [\<lparr> rejected_revision_id = RevisionId 2, rejected_reason = UnknownParent \<rparr>]), \<lparr>local_db = d, remote = 1\<rparr>) \<and>
    map_option rec_sync_status (store_get (db_revisions (decoded_db sample_idb d)) (RevisionId 2)) = Some (SyncError UnknownParent) \<and>
    unsynced sample_idb d = []"
proof -
  let ?resp = "\<lparr> resp_transaction_id = TransactionId 3, resp_accepted = [],
        resp_rejected = [\<lparr> rejected_revision_id = RevisionId 2, rejected_reason = UnknownParent \<rparr>] \<rparr>"
  have "map rec_id (unsynced sample_idb sample_db) = [RevisionId 2]" by code_simp
  then have pending: "unsynced sample_idb sample_db \<noteq> []" "rec_id ` set (unsynced sample_idb sample_db) = {RevisionId 2}"
    by (auto simp flip: set_map)
  have post: "post_changes rejecting_server (url_of ''http://server/'' ''/changes'')
      \<lparr>push_req_revisions = map record_revision (unsynced sample_idb (local_db sample_start))\<rparr> (remote sample_start) = (Answer ?resp, 1)"
    by code_simp
  have old: "store_get (db_revisions (decoded_db sample_idb sample_db)) (RevisionId 2) =
      Some (sample_record (ObjectId 5) (RevisionId 2) (Update (RevisionId 1)) Pending)" by code_simp
  have verdicts: "verdict_list ?resp = [(RevisionId 2, SyncError UnknownParent)]" by code_simp
  from push_records_verdicts[OF sample_idb_ok _ _ _ post] sample_db_inv sample_db_readable pending
  show ?thesis by (auto simp: verdicts old)
qed

section \<open>What a pull does\<close>

abbreviation store_synced :: "'v Revision list \<Rightarrow> 'v client_db \<Rightarrow> 'v client_db" where
  "store_synced rs \<equiv> fold (\<lambda>r s. snd (put_record (from_revision r Synced) s)) rs"

text \<open>The update replaces the heads: the server says so and no head of the client diverged.\<close>

definition takes_over :: "'v ObjectUpdate \<Rightarrow> 'v client_db \<Rightarrow> bool" where
  "takes_over u s \<longleftrightarrow> upd_action u = Replace \<and>
     \<not> has_diverged (fst (spec_heads (upd_object_id u) s)) (upd_heads u)"

definition spec_apply_update :: "'v ObjectUpdate \<Rightarrow> 'v client_db \<Rightarrow> 'v client_db" where
  "spec_apply_update u s =
     (let s1 = store_synced (upd_heads u) s in
      if takes_over u s
      then snd (spec_replace_heads (upd_object_id u) (map (head_record_from_revision (upd_object_id u)) (upd_heads u)) s1)
      else snd (spec_add_heads (map (\<lambda>r. head_record_from_revision (rev_object_id r) r) (upd_heads u)) s1))"

lemma refines_cong: "refines E m f \<Longrightarrow> (\<And>s. f s = g s) \<Longrightarrow> refines E m g"
  by (simp add: refines_def)

lemma refines_store_synced:
  assumes "idb_ok E" "\<And>r. r \<in> set rs \<Longrightarrow> content_ok E (rev_content r)"
  shows "refines E (fold_each (\<lambda>r n. and_then (put_revision E (from_revision r Synced)) (\<lambda>_. ok (n + 1))) rs (n :: 32 word))
     (plain (\<lambda>s. (n + of_nat (length rs), store_synced rs s)))"
proof -
  let ?step = "\<lambda>r (n :: 32 word). and_then (plain (put_record (from_revision r Synced))) (\<lambda>_. ok (n + 1))"
  have "refines E (fold_each (\<lambda>r n. and_then (put_revision E (from_revision r Synced)) (\<lambda>_. ok (n + 1))) rs n)
      (fold_each ?step rs n)"
    using assms by (intro refines_fold_each refines_and_then refines_put_revision refines_ok) (auto simp: from_revision_def)
  then show ?thesis
  proof (rule refines_cong)
    show "fold_each ?step rs n s = plain (\<lambda>s. (n + of_nat (length rs), store_synced rs s)) s" for s
      by (induction rs arbitrary: n s) (simp_all add: and_then_def ok_def add.assoc)
  qed
qed

lemma store_synced_heads: "db_heads (store_synced rs s) = db_heads s"
  by (induction rs arbitrary: s) (simp_all add: put_record_def)

lemma spec_heads_synced: "fst (spec_heads ob (store_synced rs s)) = fst (spec_heads ob s)"
  by (simp add: spec_heads_def store_synced_heads)

lemma refines_apply_update:
  assumes "idb_ok E" "\<And>r. r \<in> set (upd_heads u) \<Longrightarrow> content_ok E (rev_content r)"
  shows "refines E (apply_update E u (n, m)) (plain (\<lambda>s.
     ((n + of_nat (length (upd_heads u)), if takes_over u s then m else m + 1), spec_apply_update u s)))"
proof -
  let ?ob = "upd_object_id u" and ?hs = "upd_heads u"
  let ?add = "plain (spec_add_heads (map (\<lambda>r. head_record_from_revision (rev_object_id r) r) ?hs))"
  let ?replace = "plain (spec_replace_heads ?ob (map (head_record_from_revision ?ob) ?hs))"
  let ?spec = "and_then (plain (\<lambda>s. (n + of_nat (length ?hs), store_synced ?hs s))) (\<lambda>n'.
     case upd_action u of
       Replace \<Rightarrow> and_then (plain (spec_heads ?ob)) (\<lambda>existing.
           if has_diverged existing ?hs then and_then ?add (\<lambda>_. ok (n', m + 1)) else and_then ?replace (\<lambda>_. ok (n', m)))
     | Conflict \<Rightarrow> and_then ?add (\<lambda>_. ok (n', m + 1)))"
  have "refines E (apply_update E u (n, m)) ?spec"
    unfolding apply_update_def prod.case using assms
    by (auto split: HeadAction.split
        intro!: refines_and_then refines_store_synced refines_client_get_heads refines_add_heads refines_replace_heads refines_ok)
  then show ?thesis
  proof (rule refines_cong)
    show "?spec s = plain (\<lambda>s. ((n + of_nat (length ?hs), if takes_over u s then m else m + 1), spec_apply_update u s)) s" for s
      by (cases "upd_action u") (auto simp: and_then_def ok_def spec_apply_update_def takes_over_def spec_heads_def
          store_synced_heads Let_def)
  qed
qed

text \<open>The heads an update delivers, by key; the last of two under one id counts.\<close>

definition delivered :: "'v ObjectUpdate \<Rightarrow> ObjectId \<times> RevisionId \<rightharpoonup> 'v HeadRecord" where
  "delivered u = map_of (rev (map (\<lambda>r. ((upd_object_id u, rev_id r), head_record_from_revision (upd_object_id u) r))
     (upd_heads u)))"

lemma spec_apply_update_heads:
  assumes "client_inv s" "\<And>r. r \<in> set (upd_heads u) \<Longrightarrow> rev_object_id r = upd_object_id u"
  shows "store_get (db_heads (spec_apply_update u s)) k =
     (if fst k = upd_object_id u \<and> takes_over u s then delivered u k
      else (case delivered u k of Some x \<Rightarrow> Some x | None \<Rightarrow> store_get (db_heads s) k))"
proof -
  let ?ob = "upd_object_id u" and ?s1 = "store_synced (upd_heads u) s"
  have s1: "client_inv ?s1"
  proof -
    have "inv_with {} (store_synced rs t)" if "inv_with {} t" for rs and t :: "'a client_db"
      using that
    proof (induction rs arbitrary: t)
      case (Cons r rs)
      from Cons.IH[OF inv_with_mono[OF inv_with_put_record[OF Cons.prems, of "from_revision r Synced"] empty_subsetI]]
      show ?case by simp
    qed simp
    then show ?thesis using assms(1) by (simp add: inv_with_def)
  qed
  let ?rec = "head_record_from_revision ?ob"
  have recs: "map (\<lambda>r. head_record_from_revision (rev_object_id r) r) (upd_heads u) = map ?rec (upd_heads u)"
    using assms(2) by simp
  have keys: "map (\<lambda>x. ((head_object_id x, head_revision_id x), x)) (map ?rec (upd_heads u)) =
      map (\<lambda>r. ((?ob, rev_id r), ?rec r)) (upd_heads u)"
    by (simp add: head_record_from_revision_def)
  have ob: "\<And>x. x \<in> set (map ?rec (upd_heads u)) \<Longrightarrow> head_object_id x = ?ob"
    by (auto simp: head_record_from_revision_def)
  show ?thesis
  proof (cases "takes_over u s")
    case True
    have "store_get (db_heads (spec_apply_update u s)) k =
        (if fst k = ?ob then delivered u k else store_get (db_heads ?s1) k)"
      using True spec_replace_heads_lookup(2)[OF s1, of "map ?rec (upd_heads u)" ?ob k, OF ob]
      by (simp add: spec_apply_update_def delivered_def keys del: map_map)
    moreover have "delivered u k = None" if "fst k \<noteq> ?ob"
      using that by (auto simp: delivered_def map_of_eq_None_iff)
    ultimately show ?thesis using True by (simp add: store_synced_heads)
  next
    case False
    have "sorted_store (db_heads ?s1)" using s1 by (simp add: client_inv_def)
    from idb.fold_put[OF this[unfolded store_synced_heads]] False show ?thesis
      by (simp add: spec_apply_update_def spec_add_heads_def recs fold_heads keys delivered_def store_synced_heads
          del: map_map)
  qed
qed

text \<open>
  An update follows on from the heads of the client: the server has a single head, and each head
  the client has for the object is a delivered revision or a parent of one.
\<close>

definition follows_on :: "'v ObjectUpdate \<Rightarrow> 'v client_db \<Rightarrow> bool" where
  "follows_on u s \<longleftrightarrow> upd_action u = Replace \<and>
     (\<forall>(ob, i) \<in> head_keys s. ob = upd_object_id u \<longrightarrow>
        (\<exists>r \<in> set (upd_heads u). i = rev_id r \<or> i \<in> set (rev_parents r)))"

lemma spec_heads_ids:
  assumes "client_inv s"
  shows "head_revision_id ` set (fst (spec_heads ob s)) = {i. (ob, i) \<in> head_keys s}"
proof -
  have "head_revision_id x = snd k" if "(k, x) \<in> set (db_heads s)" for k x
    using that assms by (force simp: client_inv_def)
  then show ?thesis
    by (force simp: spec_heads_def store_get_all_def head_range_iff)
qed

lemma takes_over_follows_on:
  assumes "client_inv s"
  shows "takes_over u s \<longleftrightarrow> follows_on u s"
proof -
  let ?hs = "fst (spec_heads (upd_object_id u) s)"
  have "has_diverged ?hs (upd_heads u) \<longleftrightarrow>
      (\<exists>i \<in> head_revision_id ` set ?hs. \<forall>r \<in> set (upd_heads u). i \<noteq> rev_id r \<and> i \<notin> set (rev_parents r))"
    by (auto simp: has_diverged_def list_ex_iff Let_def)
  also have "\<dots> \<longleftrightarrow> \<not> (\<forall>(ob, i) \<in> head_keys s. ob = upd_object_id u \<longrightarrow>
      (\<exists>r \<in> set (upd_heads u). i = rev_id r \<or> i \<in> set (rev_parents r)))"
    unfolding spec_heads_ids[OF assms] by blast
  finally show ?thesis by (simp add: takes_over_def follows_on_def)
qed

text \<open>
  C32: what one update of a pull does to the heads, on a browser without faults. Where the server
  has a single head and every head the client has for the object is a delivered revision or a
  direct parent of one, the object has exactly the delivered heads; otherwise the delivered heads
  are added to the client's and the update counts as a conflict. Other objects keep their heads,
  and each delivered revision counts as pulled.
\<close>

theorem update_applied:
  assumes "idb_ok E" "client_inv s" "readable E s"
    and "\<forall>r \<in> set (upd_heads u). rev_object_id r = upd_object_id u \<and> content_ok E (rev_content r)"
  shows "\<exists>s'. apply_update E u (pulled, conflicted) s =
      (Inr (pulled + of_nat (length (upd_heads u)),
            if follows_on u (decoded_db E s) then conflicted else conflicted + 1), s') \<and>
    (\<forall>k. store_get (db_heads (decoded_db E s')) k =
       (if fst k = upd_object_id u \<and> follows_on u (decoded_db E s) then delivered u k
        else (case delivered u k of Some x \<Rightarrow> Some x | None \<Rightarrow> store_get (db_heads (decoded_db E s)) k)))"
proof -
  note inv = client_inv_decoded[OF assms(2,3)]
  note same = takes_over_follows_on[OF inv, of u]
  have ok: "\<And>r. r \<in> set (upd_heads u) \<Longrightarrow> content_ok E (rev_content r)"
    "\<And>r. r \<in> set (upd_heads u) \<Longrightarrow> rev_object_id r = upd_object_id u" using assms(4) by auto
  obtain s' where run: "apply_update E u (pulled, conflicted) s =
      (Inr (pulled + of_nat (length (upd_heads u)),
            if takes_over u (decoded_db E s) then conflicted else conflicted + 1), s')"
    "decoded_db E s' = spec_apply_update u (decoded_db E s)"
    by (rule refines_plain_run[OF refines_apply_update[of E u pulled conflicted, OF assms(1) ok(1)] assms(3)]) simp_all
  with spec_apply_update_heads[OF inv ok(2)] show ?thesis by (auto simp: same)
qed

theorem update_applied_witness:
  "(\<exists>s'. apply_update sample_idb pulled_update (0, 0) sample_db = (Inr (1, 1), s') \<and>
    store_get (db_heads (decoded_db sample_idb s')) (ObjectId 5, RevisionId 2) =
      Some (sample_head (ObjectId 5) (RevisionId 2) (Update (RevisionId 1)))) \<and>
   \<not> follows_on pulled_update (decoded_db sample_idb sample_db)"
proof -
  have t: "\<not> follows_on pulled_update (decoded_db sample_idb sample_db)"
    "delivered pulled_update (ObjectId 5, RevisionId 2) = None" "length (upd_heads pulled_update) = 1"
    "store_get (db_heads (decoded_db sample_idb sample_db)) (ObjectId 5, RevisionId 2) =
      Some (sample_head (ObjectId 5) (RevisionId 2) (Update (RevisionId 1)))"
    by code_simp+
  have "\<forall>r \<in> set (upd_heads pulled_update). rev_object_id r = upd_object_id pulled_update \<and> content_ok sample_idb (rev_content r)"
    by code_simp
  from update_applied[OF sample_idb_ok sample_db_inv sample_db_readable this, of 0 0] t show ?thesis by auto
qed

end
