(* ===== verification/OpenCorrect.thy ===== *)
theory OpenCorrect
  imports SyncCorrect
begin

text \<open>
  Opening a repository: what an upgrade of the database creates, and under which identity
  the client works.
\<close>

section \<open>Upgrades\<close>

lemma create_indexes_Some:
  "create_indexes kp es idx = Some r \<longleftrightarrow>
     distinct (map entry_name es) \<and> set (map entry_name es) \<inter> set (map fst idx) = {} \<and>
     (\<forall>e \<in> set es. kp (index_key_path e)) \<and> r = idx @ map (\<lambda>e. (entry_name e, index_key_path e)) es"
  by (induction kp es idx rule: create_indexes.induct) auto

lemma create_indexes_None:
  "create_indexes kp es idx = None \<longleftrightarrow>
     \<not> (distinct (map entry_name es) \<and> set (map entry_name es) \<inter> set (map fst idx) = {} \<and>
        (\<forall>e \<in> set es. kp (index_key_path e)))"
  by (induction kp es idx rule: create_indexes.induct) auto

text \<open>
  C34: opening with a newer version of the schema succeeds exactly when the index names are
  distinct and the browser takes their key paths (the program panics otherwise). Afterwards
  the database has the version of the schema, an index under every name of the schema with the
  key path for its JSON path, and the indexes of other names as before: an index that the schema
  no longer names stays, since only the names of the schema are dropped and created (a comment of
  the code says that all application indexes are). The objects, files and sync state of an
  existing database are untouched. With the version it has, a database is opened as it is; with
  an older version or the version 0 opening fails.
\<close>

theorem open_database_outcome:
  fixes schema :: IndexSchema
  assumes "idb_ok E"
  defines "version \<equiv> unat (schema_version schema)"
  shows "case open_database E key_path_ok schema s of (r, s') \<Rightarrow>
    (db_version s < version \<longrightarrow>
       (r = Inr () \<longleftrightarrow> distinct (map entry_name (schema_entries schema)) \<and>
          (\<forall>e \<in> set (schema_entries schema). key_path_ok (index_key_path e))) \<and>
       (r \<noteq> Inr () \<longrightarrow> r = Inl Panicked)) \<and>
    (db_version s < version \<and> r = Inr () \<longrightarrow> db_version s' = version \<and>
       (\<forall>e \<in> set (schema_entries schema). map_of (db_indexes s') (entry_name e) = Some (index_key_path e)) \<and>
       (\<forall>name. name \<notin> set (map entry_name (schema_entries schema)) \<and> db_version s \<noteq> 0 \<longrightarrow>
          map_of (db_indexes s') name = map_of (db_indexes s) name)) \<and>
    (0 < version \<and> db_version s = version \<longrightarrow> r = Inr () \<and> db_indexes s' = db_indexes s) \<and>
    (version = 0 \<or> version < db_version s \<longrightarrow> r = Inl (Open_Failed (IndexedDb (idb_message E)))) \<and>
    (db_version s \<noteq> 0 \<longrightarrow> db_revisions s' = db_revisions s \<and> db_heads s' = db_heads s \<and>
       db_files s' = db_files s \<and> db_sync s' = db_sync s)"
proof -
  let ?es = "schema_entries schema" and ?s1 = "s\<lparr>db_requests := Suc (db_requests s)\<rparr>"
  let ?old = "if db_version s = 0 then [] else db_indexes s"
  let ?kept = "filter (\<lambda>(name, path). name \<notin> set (map entry_name ?es)) ?old"
  obtain r s' where run: "open_database E key_path_ok schema s = (r, s')" by (cases "open_database E key_path_ok schema s")
  have upgrade: "on_upgrade_needed key_path_ok schema ?s1 =
      map_option (\<lambda>idx. (if db_version s = 0
          then ?s1\<lparr>db_revisions := [], db_heads := [], db_files := [], db_sync := None, db_indexes := []\<rparr> else ?s1)
        \<lparr>db_indexes := idx, db_version := version\<rparr>) (create_indexes key_path_ok ?es ?kept)"
    by (simp add: on_upgrade_needed_def version_def Let_def split: option.split)
  have disjoint: "set (map entry_name ?es) \<inter> set (map fst ?kept) = {}" by auto
  have new: "map_of (map (\<lambda>e. (entry_name e, index_key_path e)) ?es) (entry_name e) = Some (index_key_path e)"
    if "distinct (map entry_name ?es)" "e \<in> set ?es" for e
    using that by (intro map_of_is_SomeI) (auto simp: comp_def)
  have none: "map_of (map (\<lambda>e. (entry_name e, index_key_path e)) ?es) name = None" if "name \<notin> set (map entry_name ?es)" for name
    using that by (auto simp: map_of_eq_None_iff)
  have kept: "map_of ?kept name = (if name \<in> set (map entry_name ?es) then None else map_of ?old name)" for name
    by (rule trans[OF map_of_filter_key]) simp
  show ?thesis
  proof (cases "db_version s < version")
    case True
    then have open_run: "(r, s') = (case on_upgrade_needed key_path_ok schema ?s1 of None \<Rightarrow> (Inl Panicked, ?s1) | Some s2 \<Rightarrow> (Inr (), s2))"
      using run assms(1) by (simp add: open_database_def idb_ok_def Let_def version_def split: option.splits)
    show ?thesis
    proof (cases "create_indexes key_path_ok ?es ?kept")
      case None
      with open_run have "r = Inl Panicked" "s' = ?s1" by (simp_all add: upgrade)
      with True None disjoint show ?thesis by (auto simp: run create_indexes_None)
    next
      case (Some idx)
      then have c: "distinct (map entry_name ?es)" "\<forall>e \<in> set ?es. key_path_ok (index_key_path e)"
        "idx = ?kept @ map (\<lambda>e. (entry_name e, index_key_path e)) ?es"
        by (simp_all add: create_indexes_Some)
      have "map_of idx (entry_name e) = Some (index_key_path e)" if "e \<in> set ?es" for e
        using that c kept new by (auto simp: map_add_def)
      moreover have "map_of idx name = map_of (db_indexes s) name" if "name \<notin> set (map entry_name ?es)" "db_version s \<noteq> 0" for name
        using that c(3) kept none[OF that(1)] by (simp add: map_add_def split: option.split)
      ultimately show ?thesis
        using True open_run c(1,2) Some by (auto simp: run upgrade)
    qed
  next
    case False
    with assms(1) run show ?thesis
      by (auto simp: open_database_def idb_ok_def Let_def version_def split: if_splits)
  qed
qed

definition sample_schema :: IndexSchema where
  "sample_schema = with_version (add_index IndexSchema_new ''by_text'' ''note'' ''$.text'') 2"

theorem open_database_outcome_witness:
  "fst (open_database sample_idb (\<lambda>p. True) sample_schema sample_db) = Inr () \<and>
   map_of (db_indexes (snd (open_database sample_idb (\<lambda>p. True) sample_schema sample_db))) ''by_text'' =
     Some [''object_type'', ''data.text''] \<and>
   db_revisions (snd (open_database sample_idb (\<lambda>p. True) sample_schema sample_db)) = db_revisions sample_db"
proof -
  let ?run = "open_database sample_idb (\<lambda>p. True) sample_schema sample_db"
  let ?e = "\<lparr> entry_name = ''by_text'', entry_object_type = ''note'', entry_json_path = ''$.text'' \<rparr>"
  have "db_version sample_db < unat (schema_version sample_schema)" "db_version sample_db \<noteq> 0"
    "schema_entries sample_schema = [?e]" "index_key_path ?e = [''object_type'', ''data.text'']"
    "distinct (map entry_name (schema_entries sample_schema))"
    by code_simp+
  with open_database_outcome[OF sample_idb_ok, where key_path_ok = "\<lambda>p. True" and schema = sample_schema and s = sample_db] show ?thesis
    by (cases ?run) simp
qed

section \<open>Identity\<close>

text \<open>
  C35: who the client is after opening online. An answer of the server decides: its client and
  user are returned and stored, and the cursor is kept. Where the server cannot be reached or
  its answer cannot be read, the stored identity is used and nothing is written, and without
  one opening fails. A status that is not a success, such as 401, fails even with a stored
  identity.
\<close>

theorem open_identity:
  assumes "idb_ok E" "open_database E key_path_ok schema (local_db w) = (Inr (), d)"
    and "get_whoami srv (url_of url ''/whoami'') (remote w) = (ans, rem)"
    and "fst (spec_read_sync d) = (c, u, t)" "\<And>i. t = Some i \<Longrightarrow> js_u64 E (transaction_u64 i)"
  shows "case repo_open E key_path_ok srv schema url w of (r, w') \<Rightarrow> remote w' = rem \<and>
    (case ans of
       Answer who \<Rightarrow> r = Inr \<lparr> repo_client_id = who_client_id who, repo_user_id = who_user_id who, repo_schema = schema \<rparr> \<and>
         fst (spec_read_sync (local_db w')) = (Some (who_client_id who), Some (who_user_id who), t)
     | Status n \<Rightarrow> r = Inl (Open_Failed (Not_Authenticated (''whoami returned HTTP '' @ show_nat n))) \<and>
         db_sync (local_db w') = db_sync d
     | _ \<Rightarrow> db_sync (local_db w') = db_sync d \<and>
         (case (c, u) of
            (Some cid, Some uid) \<Rightarrow> r = Inr \<lparr> repo_client_id = cid, repo_user_id = uid, repo_schema = schema \<rparr>
          | _ \<Rightarrow> r = Inl (Open_Failed (Network ''whoami failed and no cached identity found''))))"
proof -
  have read: "read_sync_state E d = (Inr (c, u, t), d\<lparr>db_requests := db_requests d + 3\<rparr>)"
    using assms(1,4) by (simp add: read_sync_state_def and_then_def idb_tx_def idb_request_def idb_ok_def ok_def
        Let_def spec_read_sync_def numeral_3_eq_3)
  let ?w1 = "w\<lparr>local_db := d\<lparr>db_requests := db_requests d + 3\<rparr>, remote := rem\<rparr>"
  have wr: "write_sync_state E i j t (local_db ?w1) =
      (Inr (), (local_db ?w1)\<lparr>db_sync := Some \<lparr> ss_client_id = Some i, ss_user_id = Some j, ss_last_server_txn_id = t \<rparr>,
         db_requests := db_requests d + 6\<rparr>)" for i j
    using assms(1,5) by (cases t) (simp_all add: write_sync_state_def converted_def and_then_def idb_tx_def idb_request_def
        idb_ok_def ok_def Let_def eval_nat_numeral)
  have opened: "repo_open E key_path_ok srv schema url w =
      map_err Open_Failed (and_then (with_identity E srv url (c, u, t)) (\<lambda>(client_id, user_id).
         ok \<lparr> repo_client_id = client_id, repo_user_id = user_id, repo_schema = schema \<rparr>))
        (w\<lparr>local_db := d\<lparr>db_requests := db_requests d + 3\<rparr>\<rparr>)"
    using assms(2) read by (simp add: repo_open_def and_then_def on_db_open_def on_db_def map_err_def)
  have asked: "fetch_whoami srv url (w\<lparr>local_db := d\<lparr>db_requests := db_requests d + 3\<rparr>\<rparr>) =
      ((case ans of Send_Failed m \<Rightarrow> Inl (Network m) | Status n \<Rightarrow> Inl (Not_Authenticated (''whoami returned HTTP '' @ show_nat n))
        | Bad_Json m \<Rightarrow> Inl (Network m) | Answer who \<Rightarrow> Inr who), ?w1)"
    using assms(3) by (cases ans) (simp_all add: fetch_whoami_def and_then_def on_remote_def ok_def err_def)
  show ?thesis
    unfolding opened using assms(4) wr
    by (cases ans; cases c; cases u)
      (auto simp: map_err_def and_then_def with_identity_def asked on_db_def ok_def spec_read_sync_def split: option.splits)
qed

definition whoami_server :: "(string, nat) remote_server" where
  "whoami_server = sample_server\<lparr>get_whoami :=
     (\<lambda>u n. (if u = ''http://server/whoami''
            then Answer \<lparr> who_client_id = ClientId 8, who_user_id = UserId 2, who_roles = [] \<rparr> else Status 404, Suc n))\<rparr>"

theorem open_identity_witness:
  "fst (repo_open sample_idb (\<lambda>p. True) whoami_server IndexSchema_new ''http://server/'' sample_start) =
     Inr \<lparr> repo_client_id = ClientId 8, repo_user_id = UserId 2, repo_schema = IndexSchema_new \<rparr> \<and>
   fst (spec_read_sync (local_db (snd (repo_open sample_idb (\<lambda>p. True) whoami_server IndexSchema_new ''http://server/'' sample_start)))) =
     (Some (ClientId 8), Some (UserId 2), Some (TransactionId 3))"
proof -
  let ?open = "open_database sample_idb (\<lambda>p. True) IndexSchema_new (local_db sample_start)"
  let ?run = "repo_open sample_idb (\<lambda>p. True) whoami_server IndexSchema_new ''http://server/'' sample_start"
  have "fst ?open = Inr ()" by code_simp
  then have opened: "?open = (Inr (), snd ?open)" by (metis prod.collapse)
  have asked: "get_whoami whoami_server (url_of ''http://server/'' ''/whoami'') (remote sample_start) =
      (Answer \<lparr> who_client_id = ClientId 8, who_user_id = UserId 2, who_roles = [] \<rparr>, 1)" by code_simp
  have known: "fst (spec_read_sync (snd ?open)) = (Some (ClientId 7), Some (UserId 1), Some (TransactionId 3))" by code_simp
  have fits: "js_u64 sample_idb (transaction_u64 i)" if "Some (TransactionId 3) = Some i" for i
    using that by (auto simp: sample_idb_def)
  from open_identity[OF sample_idb_ok opened asked known fits] show ?thesis by (cases ?run) simp
qed

end
