(* ===== verification/IndexQuery.thy ===== *)
theory IndexQuery
  imports ClientCorrect "HOL-Library.List_Lexorder" "HOL-Library.Char_ord"
begin

text \<open>
  \<^verbatim>\<open>query_by_index\<close> (repository.rs) over the application's indexes that \<^verbatim>\<open>open.rs\<close> creates on the
  heads. The key of a record in such an index is the array of its object type and the value
  found in its data; a record without that value, a tombstone above all, is not in the index.
  How a value is found and turned into a key, which bounds the browser takes for a range and
  the direct conversion of a record are arguments.
\<close>

section \<open>Index keys and ranges\<close>

record ('v, 'j, 'k) index_env =
  ix_value :: "string \<Rightarrow> 'j \<Rightarrow> 'k option"
  ix_to_key :: "'v \<Rightarrow> string + 'k"
  ix_bound_ok :: "string \<times> 'k \<Rightarrow> bool \<Rightarrow> string \<times> 'k \<Rightarrow> bool \<Rightarrow> bool"
  ix_range_message :: string
  ix_from_js :: "'j \<Rightarrow> 'v option"

definition index_key ::
  "('v, 'j, 'k) index_env \<Rightarrow> string list \<Rightarrow> 'j HeadRecord \<Rightarrow> (string \<times> 'k) option" where
  "index_key I path x =
     (case (path, head_data x) of
        ([ty, p], Some j) \<Rightarrow> map_option (\<lambda>k. (head_object_type x, k)) (ix_value I p j)
      | _ \<Rightarrow> None)"

text \<open>The key range of a query; \<open>None\<close> stands for no range.\<close>

definition key_of ::
  "('v, 'j, 'k) index_env \<Rightarrow> string \<Rightarrow> 'v \<Rightarrow> ('s, RustendClientError, string \<times> 'k) fallible" where
  "key_of I object_type v =
     (case ix_to_key I v of Inr k \<Rightarrow> ok (object_type, k) | Inl m \<Rightarrow> err (IndexedDb m))"

fun idb_range ::
  "('v, 'j, 'k::linorder) index_env \<Rightarrow> string \<Rightarrow> 'v IndexRange \<Rightarrow>
     ('s, RustendClientError, (string \<times> 'k \<Rightarrow> bool) option) fallible" where
  "idb_range I object_type Range_All = ok None"
| "idb_range I object_type (Range_Eq v) =
     and_then (key_of I object_type v) (\<lambda>key. ok (Some (\<lambda>k. k = key)))"
| "idb_range I object_type (Range_Bounds lower lower_inclusive upper upper_inclusive) =
     and_then (key_of I object_type lower) (\<lambda>lk. and_then (key_of I object_type upper) (\<lambda>uk.
       if ix_bound_ok I lk (\<not> lower_inclusive) uk (\<not> upper_inclusive)
       then ok (Some (\<lambda>k. (if lower_inclusive then lk \<le> k else lk < k) \<and> (if upper_inclusive then k \<le> uk else k < uk)))
       else err (IndexedDb (ix_range_message I))))"

text \<open>The records of an index in a range, in the order of their keys there and then of their own keys\<close>

definition index_get_all ::
  "('v, 'j, 'k::linorder) index_env \<Rightarrow> string list \<Rightarrow> (string \<times> 'k \<Rightarrow> bool) option \<Rightarrow> 'j HeadRecord list \<Rightarrow>
     'j HeadRecord list" where
  "index_get_all I path key_range xs =
     map snd (sort_key fst (List.map_filter (\<lambda>x. case index_key I path x of
        Some k \<Rightarrow> if (case key_range of None \<Rightarrow> True | Some P \<Rightarrow> P k) then Some (k, x) else None
      | None \<Rightarrow> None) xs))"

section \<open>The query\<close>

text \<open>\<^verbatim>\<open>.filter_map(f).collect()\<close>: the first error, or what \<open>f\<close> keeps\<close>

fun filter_collect :: "('x \<Rightarrow> ('s, 'e, 'y option) fallible) \<Rightarrow> 'x list \<Rightarrow> ('s, 'e, 'y list) fallible" where
  "filter_collect f [] = ok []"
| "filter_collect f (x # xs) =
     and_then (f x) (\<lambda>y. and_then (filter_collect f xs) (\<lambda>ys. ok (case y of Some a \<Rightarrow> a # ys | None \<Rightarrow> ys)))"

definition query_version ::
  "('v, 'j) idb_env \<Rightarrow> ('v, 'j, 'k) index_env \<Rightarrow> ('v \<Rightarrow> string + 't) \<Rightarrow> bool \<Rightarrow> string \<Rightarrow> 'j HeadRecord \<Rightarrow>
     ('s, RustendClientError, 't ObjectVersion option) fallible" where
  "query_version E I from_value needs_type_filter object_type v =
     and_then (converted E (convert_head (ix_from_js I) v))
       (\<lambda>head. if needs_type_filter \<and> head_object_type head \<noteq> object_type then ok None
          else and_then (version_content from_value (head_content head))
            (\<lambda>content. ok (Some \<lparr> ver_object_id = head_object_id head,
               ver_revision_id = head_revision_id head, ver_content = content \<rparr>)))"

definition open_index ::
  "('v, 'j) idb_env \<Rightarrow> string \<Rightarrow> ('j client_db, tx_error, string list) fallible" where
  "open_index E index_name = (\<lambda>s.
     case map_of (db_indexes s) index_name of
       Some path \<Rightarrow> (Inr path, s)
     | None \<Rightarrow> (Inl (Left (IndexedDb (idb_message E))), s))"

text \<open>\<^verbatim>\<open>matches!(&range, IndexRange::All)\<close>\<close>

fun is_all :: "'v IndexRange \<Rightarrow> bool" where
  "is_all Range_All = True"
| "is_all _ = False"

definition query_by_index ::
  "('v, 'j) idb_env \<Rightarrow> ('v, 'j, 'k::linorder) index_env \<Rightarrow> Repository \<Rightarrow> ('v \<Rightarrow> string + 't) \<Rightarrow> string \<Rightarrow>
     'v IndexRange \<Rightarrow> ('j, 't ObjectVersion list) idb_op" where
  "query_by_index E I repo from_value index_name rng =
     (case find (\<lambda>e. entry_name e = index_name) (schema_entries (repo_schema repo)) of
        None \<Rightarrow> err (IndexedDb (''unknown index: '' @ index_name))
      | Some entry \<Rightarrow>
          and_then
            (idb_tx E (and_then (open_index E index_name)
               (\<lambda>path. and_then (map_err Left (idb_range I (entry_object_type entry) rng))
                  (\<lambda>key_range. idb_request E
                     (\<lambda>s. (index_get_all I path key_range (map snd (db_heads s)), s))))))
            (filter_collect (query_version E I from_value (is_all rng) (entry_object_type entry))))"

section \<open>What a query returns\<close>

text \<open>A key lies in the range that was asked for.\<close>

fun in_index_range :: "('v, 'j, 'k::linorder) index_env \<Rightarrow> 'v IndexRange \<Rightarrow> 'k \<Rightarrow> bool" where
  "in_index_range I Range_All k = True"
| "in_index_range I (Range_Eq v) k = (ix_to_key I v = Inr k)"
| "in_index_range I (Range_Bounds lower lower_inclusive upper upper_inclusive) k =
     (case (ix_to_key I lower, ix_to_key I upper) of
        (Inr l, Inr u) \<Rightarrow> (if lower_inclusive then l \<le> k else l < k) \<and> (if upper_inclusive then k \<le> u else k < u)
      | _ \<Rightarrow> False)"

text \<open>The range is one the browser accepts.\<close>

fun range_ok :: "('v, 'j, 'k) index_env \<Rightarrow> string \<Rightarrow> 'v IndexRange \<Rightarrow> bool" where
  "range_ok I ty Range_All = True"
| "range_ok I ty (Range_Eq v) = (case ix_to_key I v of Inr k \<Rightarrow> True | Inl m \<Rightarrow> False)"
| "range_ok I ty (Range_Bounds lower lower_inclusive upper upper_inclusive) =
     (case (ix_to_key I lower, ix_to_key I upper) of
        (Inr l, Inr u) \<Rightarrow> ix_bound_ok I (ty, l) (\<not> lower_inclusive) (ty, u) (\<not> upper_inclusive)
      | _ \<Rightarrow> False)"

text \<open>Among the keys of an index, a range other than all selects the object type too.\<close>

lemma idb_range_selects:
  fixes I :: "('v, 'j, 'k::linorder) index_env"
  assumes "range_ok I ty rng"
  obtains key_range where "idb_range I ty rng = (ok key_range :: ('s, RustendClientError, (string \<times> 'k \<Rightarrow> bool) option) fallible)"
    "\<forall>ty' k. (case key_range of None \<Rightarrow> True | Some P \<Rightarrow> P (ty', k)) \<and> (is_all rng \<longrightarrow> ty' = ty) \<longleftrightarrow>
        ty' = ty \<and> in_index_range I rng k"
proof (cases rng)
  case Range_All
  then show thesis by (intro that[of None]) auto
next
  case (Range_Eq v)
  with assms obtain k where "ix_to_key I v = Inr k" by (auto split: sum.splits)
  with Range_Eq show thesis by (intro that[of "Some (\<lambda>k'. k' = (ty, k))"]) (auto simp: key_of_def)
next
  case (Range_Bounds lower li upper ui)
  with assms obtain l u where "ix_to_key I lower = Inr l" "ix_to_key I upper = Inr u"
    "ix_bound_ok I (ty, l) (\<not> li) (ty, u) (\<not> ui)" by (auto split: sum.splits)
  with Range_Bounds show thesis
    by (intro that[of "Some (\<lambda>k. (if li then (ty, l) \<le> k else (ty, l) < k) \<and> (if ui then k \<le> (ty, u) else k < (ty, u)))"])
      (auto simp: key_of_def)
qed

lemma set_map_filter: "set (List.map_filter f xs) = {y. \<exists>x \<in> set xs. f x = Some y}"
  by (induction xs) (auto simp: map_filter_simps split: option.splits)

lemma set_index_get_all:
  "set (index_get_all I path key_range xs) = {x \<in> set xs. \<exists>k. index_key I path x = Some k \<and>
     (case key_range of None \<Rightarrow> True | Some P \<Rightarrow> P k)}"
proof -
  let ?in = "\<lambda>k. case key_range of None \<Rightarrow> True | Some P \<Rightarrow> P k"
  have kept: "(case index_key I path x of Some k \<Rightarrow> if ?in k then Some (k, x) else None | None \<Rightarrow> None) = Some y \<longleftrightarrow>
      (\<exists>k. index_key I path x = Some k \<and> ?in k \<and> y = (k, x))" for x y
    by (cases "index_key I path x") auto
  show ?thesis
    unfolding index_get_all_def by (simp add: set_map_filter kept) force
qed

lemma filter_collect_total:
  "(\<And>x s. x \<in> set xs \<Longrightarrow> f x s = (Inr (g x), s)) \<Longrightarrow> filter_collect f xs s = (Inr (List.map_filter g xs), s)"
  by (induction xs) (auto simp: and_then_def ok_def map_filter_simps split: option.split)

text \<open>What a record becomes in the answer, where every conversion succeeds\<close>

definition answer_version :: "('v, 'j, 'k) index_env \<Rightarrow> ('v \<Rightarrow> string + 't) \<Rightarrow> 'j HeadRecord \<Rightarrow> 't ObjectVersion option" where
  "answer_version I from_value x =
     (case convert_head (ix_from_js I) x of
        None \<Rightarrow> None
      | Some h \<Rightarrow>
          (case (head_content h) of
             Deleted \<Rightarrow> Some \<lparr> ver_object_id = head_object_id h, ver_revision_id = head_revision_id h, ver_content = Version_Deleted \<rparr>
           | Active v \<Rightarrow> (case from_value v of Inl m \<Rightarrow> None
               | Inr t \<Rightarrow> Some \<lparr> ver_object_id = head_object_id h, ver_revision_id = head_revision_id h,
                                ver_content = Version_Active t \<rparr>)))"

lemma query_version_total:
  assumes "answer_version I from_value x = Some v"
  shows "query_version E I from_value needs ty x s =
     (Inr (if needs \<and> head_object_type x \<noteq> ty then None else Some v), s)"
proof -
  obtain h where h: "convert_head (ix_from_js I) x = Some h"
    using assms by (auto simp: answer_version_def split: option.splits)
  then have "head_object_type h = head_object_type x"
    by (auto simp: convert_head_def split: option.splits)
  with assms h show ?thesis
    by (auto simp: query_version_def answer_version_def converted_def ok_def and_then_def serialised_def
        split: Content.splits sum.splits)
qed

lemma query_run:
  fixes s :: "'j client_db" and E :: "('v, 'j) idb_env" and I :: "('v, 'j, 'k::linorder) index_env"
  assumes "idb_ok E" "find (\<lambda>e. entry_name e = name) (schema_entries (repo_schema repo)) = Some entry"
    and "map_of (db_indexes s) name = Some path" "idb_range I (entry_object_type entry) rng =
      (ok key_range :: ('j client_db, RustendClientError, (string \<times> 'k \<Rightarrow> bool) option) fallible)"
    and "\<And>x. x \<in> set (map snd (db_heads s)) \<Longrightarrow> answer_version I from_value x \<noteq> None"
  shows "query_by_index E I repo from_value name rng s =
     (Inr (List.map_filter (\<lambda>x. if is_all rng \<and> head_object_type x \<noteq> entry_object_type entry then None
            else answer_version I from_value x) (index_get_all I path key_range (map snd (db_heads s)))),
      s\<lparr>db_requests := db_requests s + 3\<rparr>)"
proof -
  let ?ty = "entry_object_type entry"
  let ?xs = "index_get_all I path key_range (map snd (db_heads s))"
  let ?g = "\<lambda>x. if is_all rng \<and> head_object_type x \<noteq> ?ty then None else answer_version I from_value x"
  have version: "query_version E I from_value (is_all rng) ?ty x t = (Inr (?g x), t)" if "x \<in> set ?xs" for x t
  proof -
    from that assms(5) obtain v where "answer_version I from_value x = Some v"
      unfolding set_index_get_all by blast
    then show ?thesis by (simp add: query_version_total)
  qed
  have "idb_tx E (and_then (open_index E name)
               (\<lambda>path. and_then (map_err Left (idb_range I ?ty rng))
                  (\<lambda>key_range. idb_request E (\<lambda>s. (index_get_all I path key_range (map snd (db_heads s)), s))))) s =
      (Inr ?xs, s\<lparr>db_requests := db_requests s + 3\<rparr>)"
    using assms(1,3) by (simp add: assms(4) idb_tx_def and_then_def idb_request_def open_index_def map_err_def ok_def
        idb_ok_def Let_def numeral_3_eq_3)
  moreover have "filter_collect (query_version E I from_value (is_all rng) ?ty) ?xs t = (Inr (List.map_filter ?g ?xs), t)" for t
    using version by (rule filter_collect_total)
  ultimately show ?thesis
    unfolding query_by_index_def assms(2) option.case by (simp add: and_then_def)
qed

text \<open>The order and the multiplicity of the records of an index\<close>

lemma index_get_all_list:
  fixes I :: "('v, 'j, 'k::linorder) index_env"
  shows "mset (index_get_all I path key_range xs) = mset (filter (\<lambda>x. \<exists>k. index_key I path x = Some k \<and>
      (case key_range of None \<Rightarrow> True | Some P \<Rightarrow> P k)) xs)"
    and "sorted (map (\<lambda>x. the (index_key I path x)) (index_get_all I path key_range xs))"
proof -
  let ?in = "\<lambda>k. case key_range of None \<Rightarrow> True | Some P \<Rightarrow> P k"
  let ?L = "List.map_filter (\<lambda>x. case index_key I path x of
        Some k \<Rightarrow> if ?in k then Some (k, x) else None | None \<Rightarrow> None) xs"
  have get: "index_get_all I path key_range xs = map snd (sort_key fst ?L)" by (simp add: index_get_all_def)
  have L: "map snd ?L = filter (\<lambda>x. \<exists>k. index_key I path x = Some k \<and> ?in k) xs"
    by (induction xs) (auto simp: map_filter_simps split: option.split)
  have "mset (map snd (sort_key fst ?L)) = mset (map snd ?L)" by simp
  then show "mset (index_get_all I path key_range xs) = mset (filter (\<lambda>x. \<exists>k. index_key I path x = Some k \<and> ?in k) xs)"
    unfolding get L .
  have "index_key I path x = Some k" if "(k, x) \<in> set ?L" for k x
    using that by (auto simp: set_map_filter split: option.splits if_splits)
  then have "map (\<lambda>x. the (index_key I path x)) (map snd (sort_key fst ?L)) = map fst (sort_key fst ?L)"
    by (auto simp: map_eq_conv)
  then show "sorted (map (\<lambda>x. the (index_key I path x)) (index_get_all I path key_range xs))"
    unfolding get by (simp only:) (rule sorted_sort_key)
qed

text \<open>A version of the answer is that of a stored head: its ids and its content, converted.\<close>

definition version_of_head ::
  "('v, 'j, 'k) index_env \<Rightarrow> ('v \<Rightarrow> string + 't) \<Rightarrow> 'j HeadRecord \<Rightarrow> 't ObjectVersion \<Rightarrow> bool" where
  "version_of_head I from_value x v \<longleftrightarrow>
     ver_object_id v = head_object_id x \<and> ver_revision_id v = head_revision_id x \<and>
     (case head_content x of
        Deleted \<Rightarrow> ver_content v = Version_Deleted
      | Active j \<Rightarrow> (\<exists>d t. ix_from_js I j = Some d \<and> from_value d = Inr t \<and> ver_content v = Version_Active t))"

lemma answer_version_of_head:
  "answer_version I from_value x = Some v \<Longrightarrow> version_of_head I from_value x v"
  by (cases "head_content x") (auto simp: answer_version_def version_of_head_def convert_head_def
      split: option.splits Content.splits sum.splits)

lemma map_filter_list_all2:
  "(\<And>x v. x \<in> set xs \<Longrightarrow> g x = Some v \<Longrightarrow> R x v) \<Longrightarrow>
     list_all2 R (filter (\<lambda>x. g x \<noteq> None) xs) (List.map_filter g xs)"
  by (induction xs) (auto simp: map_filter_simps split: option.split)

text \<open>
  C33: a query by index returns exactly the heads it should, one version for each, with its ids
  and its content, in the order of the values in the index, and changes nothing: the heads whose
  object type is the type of the index and whose value lies in the range asked for. A head
  without the value, such as a tombstone, is never returned. It makes no difference when a head
  was stored: an index that an upgrade creates covers the heads stored before it, as
  \<^verbatim>\<open>createIndex\<close> does (a comment of the tests says otherwise). The browser has no fault, knows the
  index and accepts the range, and the stored heads convert.
\<close>

theorem query_exact:
  fixes s :: "'j client_db" and E :: "('v, 'j) idb_env" and I :: "('v, 'j, 'k::linorder) index_env"
  assumes "idb_ok E" "client_inv s" "find (\<lambda>e. entry_name e = name) (schema_entries (repo_schema repo)) = Some entry"
    and "map_of (db_indexes s) name = Some path" "range_ok I (entry_object_type entry) rng"
    and "\<forall>x \<in> set (map snd (db_heads s)). answer_version I from_value x \<noteq> None"
  shows "\<exists>xs vs. query_by_index E I repo from_value name rng s = (Inr vs, s\<lparr>db_requests := db_requests s + 3\<rparr>) \<and>
    list_all2 (version_of_head I from_value) xs vs \<and> distinct xs \<and>
    set xs = {x \<in> set (map snd (db_heads s)). \<exists>k. index_key I path x = Some (entry_object_type entry, k) \<and>
      in_index_range I rng k} \<and>
    sorted (map (\<lambda>x. the (index_key I path x)) xs) \<and>
    distinct (map (\<lambda>v. (ver_object_id v, ver_revision_id v)) vs)"
proof -
  let ?ty = "entry_object_type entry" and ?heads = "map snd (db_heads s)"
  obtain key_range where range: "idb_range I ?ty rng =
      (ok key_range :: ('j client_db, RustendClientError, (string \<times> 'k \<Rightarrow> bool) option) fallible)"
    and selects: "\<forall>ty' k. (case key_range of None \<Rightarrow> True | Some P \<Rightarrow> P (ty', k)) \<and> (is_all rng \<longrightarrow> ty' = ?ty) \<longleftrightarrow>
        ty' = ?ty \<and> in_index_range I rng k"
    using assms(5) by (rule idb_range_selects[where 's = "'j client_db"])
  let ?g = "\<lambda>x. if is_all rng \<and> head_object_type x \<noteq> ?ty then None else answer_version I from_value x"
  let ?all = "index_get_all I path key_range ?heads"
  let ?xs = "filter (\<lambda>x. ?g x \<noteq> None) ?all" and ?vs = "List.map_filter ?g ?all"
  have key_type: "ty' = head_object_type x" if "index_key I path x = Some (ty', k)" for x ty' k
    using that by (auto simp: index_key_def split: list.splits option.splits)
  have keyed: "k = (head_object_id x, head_revision_id x)" if "(k, x) \<in> set (db_heads s)" for k x
    using that assms(2) by (auto simp: client_inv_def)
  then have "map (\<lambda>x. (head_object_id x, head_revision_id x)) ?heads = map fst (db_heads s)" by auto
  moreover have "distinct (map fst (db_heads s))"
    using assms(2) by (simp add: client_inv_def sorted_store_def strict_sorted_iff)
  ultimately have ids: "distinct (map (\<lambda>x. (head_object_id x, head_revision_id x)) ?heads)" by (simp only:)
  let ?id = "\<lambda>x :: 'j HeadRecord. (head_object_id x, head_revision_id x)"
  have "mset (map ?id ?all) = mset (map ?id (filter (\<lambda>x. \<exists>k. index_key I path x = Some k \<and>
      (case key_range of None \<Rightarrow> True | Some P \<Rightarrow> P k)) ?heads))"
    unfolding mset_map[of ?id] index_get_all_list(1) ..
  then have "distinct (map ?id ?all)"
    using distinct_map_filter[OF ids] mset_eq_imp_distinct_iff by blast
  then have ids_xs: "distinct (map (\<lambda>x. (head_object_id x, head_revision_id x)) ?xs)"
    by (rule distinct_map_filter)
  have versions: "list_all2 (version_of_head I from_value) ?xs ?vs"
    by (rule map_filter_list_all2) (auto intro: answer_version_of_head split: if_splits)
  have "map (\<lambda>v. (ver_object_id v, ver_revision_id v)) ?vs = map (\<lambda>x. (head_object_id x, head_revision_id x)) ?xs"
    using versions by (induction rule: list_all2_induct) (simp_all add: version_of_head_def)
  with ids_xs have "distinct (map (\<lambda>v. (ver_object_id v, ver_revision_id v)) ?vs)" by (simp only:)
  moreover have "distinct ?xs" using ids_xs by (rule distinct_map[THEN iffD1, THEN conjunct1])
  moreover have "set ?xs = {x \<in> set ?heads. \<exists>k. index_key I path x = Some (?ty, k) \<and> in_index_range I rng k}"
  proof -
    have "x \<in> set ?all \<and> ?g x \<noteq> None \<longleftrightarrow>
        x \<in> set ?heads \<and> (\<exists>k. index_key I path x = Some (?ty, k) \<and> in_index_range I rng k)" for x
      unfolding set_index_get_all using assms(6) key_type[of x] selects by auto metis+
    then show ?thesis by auto
  qed
  moreover have "sorted (map (\<lambda>x. the (index_key I path x)) ?xs)"
    using sorted_filter[OF index_get_all_list(2)] .
  moreover have "query_by_index E I repo from_value name rng s = (Inr ?vs, s\<lparr>db_requests := db_requests s + 3\<rparr>)"
    using assms(6) by (intro query_run[OF assms(1,3,4) range]) blast
  ultimately show ?thesis using versions by blast
qed

definition sample_index :: "(string, string, string) index_env" where
  "sample_index = \<lparr> ix_value = (\<lambda>p j. Some j), ix_to_key = Inr, ix_bound_ok = (\<lambda>l lo u uo. l \<le> u),
     ix_range_message = ''DataError'', ix_from_js = Some \<rparr>"

definition indexed_repo :: Repository where
  "indexed_repo = sample_repo\<lparr>repo_schema := add_index IndexSchema_new ''by_text'' ''note'' ''$.text''\<rparr>"

definition indexed_db :: "string client_db" where
  "indexed_db = sample_db\<lparr>db_indexes := [(''by_text'', [''object_type'', ''data.text''])]\<rparr>"

text \<open>Two heads of another type and a tombstone are not in the answer.\<close>

theorem query_exact_witness:
  "\<exists>vs. query_by_index sample_idb sample_index indexed_repo Inr ''by_text'' (Range_Eq ''text'') indexed_db =
      (Inr vs, indexed_db\<lparr>db_requests := db_requests indexed_db + 3\<rparr>) \<and>
    (\<exists>v \<in> set vs. ver_object_id v = ObjectId 6 \<and> ver_revision_id v = RevisionId 4 \<and> ver_content v = Version_Active ''text'')"
proof -
  let ?entry = "\<lparr> entry_name = ''by_text'', entry_object_type = ''note'', entry_json_path = ''$.text'' \<rparr>"
  let ?head = "sample_head (ObjectId 6) (RevisionId 4) Root"
  let ?path = "[''object_type'', ''data.text'']"
  have "client_inv indexed_db"
    "find (\<lambda>e. entry_name e = ''by_text'') (schema_entries (repo_schema indexed_repo)) = Some ?entry"
    "map_of (db_indexes indexed_db) ''by_text'' = Some ?path"
    "range_ok sample_index (entry_object_type ?entry) (Range_Eq ''text'')"
    "\<forall>x \<in> set (map snd (db_heads indexed_db)). answer_version sample_index (Inr :: string \<Rightarrow> string + string) x \<noteq> None"
    by code_simp+
  note query = query_exact[OF sample_idb_ok this, unfolded IndexEntry.select_convs]
  obtain xs vs where
    run: "query_by_index sample_idb sample_index indexed_repo Inr ''by_text'' (Range_Eq ''text'') indexed_db =
      (Inr vs, indexed_db\<lparr>db_requests := db_requests indexed_db + 3\<rparr>)"
    and versions: "list_all2 (version_of_head sample_index Inr) xs vs"
    and xs: "set xs = {x \<in> set (map snd (db_heads indexed_db)). \<exists>k. index_key sample_index ?path x = Some (''note'', k) \<and>
      in_index_range sample_index (Range_Eq ''text'') k}"
    using query by (elim exE conjE) (rule that; assumption)
  have "?head \<in> set (map snd (db_heads indexed_db))" "index_key sample_index ?path ?head = Some (''note'', ''text'')"
    "in_index_range sample_index (Range_Eq ''text'') ''text''"
    by code_simp+
  with xs have "?head \<in> set xs" by blast
  with versions have "\<exists>v \<in> set vs. version_of_head sample_index Inr ?head v"
    by (induction rule: list_all2_induct) auto
  with run show ?thesis by (auto simp: version_of_head_def sample_head_def sample_index_def)
qed

end
