(* ===== verification/Async.thy ===== *)
theory Async
  imports Prelude
begin

text \<open>
  Requests that overlap. An \<^verbatim>\<open>async fn\<close> runs up to its next \<^verbatim>\<open>.await\<close> on the database and lets
  other tasks run there. A task is either finished or waiting, with what it does to the shared
  state when it is resumed and the task that is left then. The operations of the other theories
  are tasks that nobody interrupts (\<open>uninterrupted\<close>). Properties of a task among others are
  proved with a relation that every step of every task respects (\<open>ensures\<close>), its rely and its
  guarantee.
\<close>

section \<open>Tasks\<close>

datatype ('s, 'e, 'a) task =
    Done "'e + 'a"
  | Await "'s \<Rightarrow> ('s, 'e, 'a) task \<times> 's"

text \<open>One \<^verbatim>\<open>.await\<close> on an operation that runs without interruption\<close>

definition await :: "('s, 'e, 'a) fallible \<Rightarrow> ('s, 'e, 'a) task" where
  "await m = Await (\<lambda>s. map_prod Done id (m s))"

text \<open>What a task does with the result of another: the \<^verbatim>\<open>match\<close> on it, \<^verbatim>\<open>?\<close>, and \<^verbatim>\<open>map_err\<close>\<close>

primrec on_result :: "('e + 'a \<Rightarrow> ('s, 'f, 'b) task) \<Rightarrow> ('s, 'e, 'a) task \<Rightarrow> ('s, 'f, 'b) task" where
  "on_result k (Done r) = k r"
| "on_result k (Await f) = Await (\<lambda>s. map_prod (on_result k) id (f s))"

definition then_task :: "('s, 'e, 'a) task \<Rightarrow> ('a \<Rightarrow> ('s, 'e, 'b) task) \<Rightarrow> ('s, 'e, 'b) task" where
  "then_task c k = on_result (case_sum (\<lambda>e. Done (Inl e)) k) c"

definition map_err_task :: "('e \<Rightarrow> 'f) \<Rightarrow> ('s, 'e, 'a) task \<Rightarrow> ('s, 'f, 'a) task" where
  "map_err_task g c = on_result (\<lambda>r. Done (map_sum g id r)) c"

abbreviation done_ok :: "'a \<Rightarrow> ('s, 'e, 'a) task" where
  "done_ok a \<equiv> Done (Inr a)"

fun fold_task ::
  "('x \<Rightarrow> 'acc \<Rightarrow> ('s, 'e, 'acc) task) \<Rightarrow> 'x list \<Rightarrow> 'acc \<Rightarrow> ('s, 'e, 'acc) task" where
  "fold_task f [] acc = done_ok acc"
| "fold_task f (x # xs) acc = then_task (f x acc) (fold_task f xs)"

section \<open>A task that is not interrupted\<close>

primrec uninterrupted :: "('s, 'e, 'a) task \<Rightarrow> ('s, 'e, 'a) fallible" where
  "uninterrupted (Done r) = (\<lambda>s. (r, s))"
| "uninterrupted (Await f) = (\<lambda>s. case map_prod uninterrupted id (f s) of (g, s') \<Rightarrow> g s')"

named_theorems uninterrupted_simps \<open>equations for \<open>uninterrupted\<close>\<close>

lemma uninterrupted_ok [uninterrupted_simps]: "uninterrupted (done_ok a) = ok a"
  by (simp add: ok_def)

lemma uninterrupted_err [uninterrupted_simps]: "uninterrupted (Done (Inl e)) = err e"
  by (simp add: err_def)

lemma uninterrupted_await [uninterrupted_simps]: "uninterrupted (await m) = m"
proof
  fix s
  show "uninterrupted (await m) s = m s"
    by (cases "m s") (simp add: await_def)
qed

lemma uninterrupted_on_result:
  "uninterrupted (on_result k c) s = (case uninterrupted c s of (r, s') \<Rightarrow> uninterrupted (k r) s')"
proof (induction c arbitrary: s)
  case (Await f)
  obtain c' s' where f: "f s = (c', s')" by fastforce
  have "uninterrupted (on_result k c') s' = (case uninterrupted c' s' of (r, s'') \<Rightarrow> uninterrupted (k r) s'')"
    by (rule Await.IH) (auto simp: f intro: range_eqI[of _ f s] fsts.intros)
  then show ?case by (simp add: f)
qed simp

lemma uninterrupted_then [uninterrupted_simps]:
  "uninterrupted (then_task c k) = and_then (uninterrupted c) (\<lambda>a. uninterrupted (k a))"
  by (auto simp: then_task_def uninterrupted_on_result and_then_def fun_eq_iff split: prod.split sum.split)

lemma uninterrupted_map_err [uninterrupted_simps]:
  "uninterrupted (map_err_task g c) = map_err g (uninterrupted c)"
  by (auto simp: map_err_task_def uninterrupted_on_result map_err_def fun_eq_iff split: prod.split sum.split)

lemma uninterrupted_fold [uninterrupted_simps]:
  "uninterrupted (fold_task f xs acc) = fold_each (\<lambda>x acc. uninterrupted (f x acc)) xs acc"
  by (induction xs arbitrary: acc) (simp_all del: uninterrupted.simps add: uninterrupted_simps)

section \<open>A task among others\<close>

text \<open>
  \<open>during R c s c' s'\<close>: a task that was \<open>c\<close> in the state \<open>s\<close> is \<open>c'\<close> in the state \<open>s'\<close>; between
  its own steps others have changed the state as \<open>R\<close> allows.
\<close>

inductive during ::
  "('s \<Rightarrow> 's \<Rightarrow> bool) \<Rightarrow> ('s, 'e, 'a) task \<Rightarrow> 's \<Rightarrow> ('s, 'e, 'a) task \<Rightarrow> 's \<Rightarrow> bool"
  for R c s where
  begun: "during R c s c s"
| others: "during R c s c' s' \<Longrightarrow> R s' s'' \<Longrightarrow> during R c s c' s''"
| resumed: "during R c s (Await f) s' \<Longrightarrow> f s' = (c'', s'') \<Longrightarrow> during R c s c'' s''"

text \<open>Among others that change nothing, a task ends as it does when nobody interrupts it.\<close>

lemma during_uninterrupted:
  assumes "during (=) c s c' s'"
  shows "uninterrupted c' s' = uninterrupted c s"
  using assms by (induction rule: during.induct) auto

lemma uninterrupted_during:
  assumes "during R c s c' s'" "uninterrupted c' s' = (r, t)"
  shows "during R c s (Done r) t"
  using assms
proof (induction c' arbitrary: s')
  case (Await f)
  obtain d u where f: "f s' = (d, u)" by fastforce
  show ?case
  proof (rule Await.IH)
    show "f s' \<in> range f" by simp
    show "d \<in> Basic_BNFs.fsts (f s')" by (simp add: f prod_set_simps)
    show "during R c s d u" using Await.prems(1) f by (rule during.resumed)
    show "uninterrupted d u = (r, t)" using Await.prems(2) f by simp
  qed
qed simp

text \<open>A task that is resumed after \<open>I\<close> has happened each time, what others do as a function of the state\<close>

primrec run_among :: "('s \<Rightarrow> 's) \<Rightarrow> ('s, 'e, 'a) task \<Rightarrow> ('s, 'e, 'a) fallible" where
  "run_among I (Done r) = (\<lambda>s. (r, s))"
| "run_among I (Await f) = (\<lambda>s. case map_prod (run_among I) id (f (I s)) of (g, s') \<Rightarrow> g s')"

lemma run_among_nothing: "run_among (\<lambda>s. s) c = uninterrupted c"
proof (induction c)
  case (Await f)
  have "map_prod (run_among (\<lambda>s. s)) id (f s) = map_prod uninterrupted id (f s)" for s
    using Await.IH[OF rangeI[of f s]] by (cases "f s") (simp add: prod_set_simps)
  then show ?case by simp
qed simp

lemma during_run_among:
  assumes "\<And>s. R s (I s)" "run_among I c' s' = (r, t)" "during R c s c' s'"
  shows "during R c s (Done r) t"
  using assms(2,3)
proof (induction c' arbitrary: s')
  case (Await f)
  obtain d u where f: "f (I s') = (d, u)" by fastforce
  show ?case
  proof (rule Await.IH)
    show "f (I s') \<in> range f" by simp
    show "d \<in> Basic_BNFs.fsts (f (I s'))" by (simp add: f prod_set_simps)
    show "run_among I d u = (r, t)" using Await.prems(1) f by simp
    show "during R c s d u" using during.others[OF Await.prems(2) assms(1)] f by (rule during.resumed)
  qed
qed simp

lemmas run_among_during = during_run_among[OF _ _ during.begun]

text \<open>
  \<open>ensures R Q c s\<close>: from \<open>s\<close> on, while others change the state as \<open>R\<close> allows, every step of the
  task respects \<open>R\<close> as well, and a result of the task satisfies \<open>Q\<close> from then on.
\<close>

primrec ensures ::
  "('s \<Rightarrow> 's \<Rightarrow> bool) \<Rightarrow> ('e + 'a \<Rightarrow> 's \<Rightarrow> bool) \<Rightarrow> ('s, 'e, 'a) task \<Rightarrow> 's \<Rightarrow> bool" where
  "ensures R Q (Done r) = (\<lambda>s. \<forall>s'. R s s' \<longrightarrow> Q r s')"
| "ensures R Q (Await f) = (\<lambda>s. \<forall>s'. R s s' \<longrightarrow>
     (case map_prod (ensures R Q) id (f s') of (holds, s'') \<Rightarrow> R s' s'' \<and> holds s''))"

lemma ensures_Await:
  "ensures R Q (Await f) s \<longleftrightarrow>
     (\<forall>s' c' s''. R s s' \<longrightarrow> f s' = (c', s'') \<longrightarrow> R s' s'' \<and> ensures R Q c' s'')"
proof -
  have "(case map_prod (ensures R Q) id (f s') of (holds, s'') \<Rightarrow> R s' s'' \<and> holds s'') \<longleftrightarrow>
      (\<forall>c' s''. f s' = (c', s'') \<longrightarrow> R s' s'' \<and> ensures R Q c' s'')" for s'
    by (cases "f s'") simp
  then show ?thesis by simp
qed

lemma ensures_Done: "ensures R Q (Done r) s \<longleftrightarrow> (\<forall>s'. R s s' \<longrightarrow> Q r s')"
  by simp

lemmas ensures_iff [simp] = ensures_Await ensures_Done

declare ensures.simps [simp del]

text \<open>
  Tasks that overlap: they arrive at any time, any of them is resumed next, and a task may be
  dropped at an \<^verbatim>\<open>.await\<close>, as happens to a handler whose client has gone away. Beside each task
  stand the task it began as and the state it began in.
\<close>

inductive overlapping ::
  "('s \<Rightarrow> bool) \<Rightarrow> (('s, 'e, 'a) task \<Rightarrow> bool) \<Rightarrow> 's \<Rightarrow>
     (('s, 'e, 'a) task \<times> 's \<times> ('s, 'e, 'a) task) list \<Rightarrow> bool"
  for initial arriving where
  start: "initial s \<Longrightarrow> overlapping initial arriving s []"
| arrive: "overlapping initial arriving s ts \<Longrightarrow> arriving c \<Longrightarrow>
     overlapping initial arriving s (ts @ [(c, s, c)])"
| resume: "overlapping initial arriving s (xs @ (c, s0, Await f) # ys) \<Longrightarrow> f s = (c', s') \<Longrightarrow>
     overlapping initial arriving s' (xs @ (c, s0, c') # ys)"
| drop: "overlapping initial arriving s (xs @ x # ys) \<Longrightarrow> overlapping initial arriving s (xs @ ys)"

text \<open>Tasks that run one after the other, and tasks that follow a schedule, are cases of this.\<close>

lemma overlapping_uninterrupted:
  assumes "overlapping initial arriving s (xs @ (c, s0, c') # ys)" "uninterrupted c' s = (r, s')"
  shows "overlapping initial arriving s' (xs @ (c, s0, Done r) # ys)"
  using assms
proof (induction c' arbitrary: s)
  case (Await f)
  obtain d t where f: "f s = (d, t)" by fastforce
  show ?case
  proof (rule Await.IH)
    show "f s \<in> range f" by simp
    show "d \<in> Basic_BNFs.fsts (f s)" by (simp add: f prod_set_simps)
    show "overlapping initial arriving t (xs @ (c, s0, d) # ys)" using Await.prems(1) f by (rule resume)
    show "uninterrupted d t = (r, s')" using Await.prems(2) f by simp
  qed
qed simp

fun resume_task :: "('s, 'e, 'a) task \<Rightarrow> 's \<Rightarrow> ('s, 'e, 'a) task \<times> 's" where
  "resume_task (Done r) s = (Done r, s)"
| "resume_task (Await f) s = f s"

fun scheduled ::
  "nat list \<Rightarrow> ('c \<times> 's \<times> ('s, 'e, 'a) task) list \<times> 's \<Rightarrow> ('c \<times> 's \<times> ('s, 'e, 'a) task) list \<times> 's" where
  "scheduled [] (ts, s) = (ts, s)"
| "scheduled (i # is) (ts, s) =
     scheduled is (if i < length ts
       then case ts ! i of (c, s0, c') \<Rightarrow> (case resume_task c' s of (d, s') \<Rightarrow> (ts[i := (c, s0, d)], s'))
       else (ts, s))"

lemma overlapping_scheduled:
  assumes "overlapping initial arriving s ts" "scheduled is (ts, s) = (ts', s')"
  shows "overlapping initial arriving s' ts'"
  using assms
proof (induction "is" arbitrary: ts s)
  case (Cons i "is")
  show ?case
  proof (cases "i < length ts")
    case True
    obtain c s0 c' where at: "ts ! i = (c, s0, c')" by (cases "ts ! i")
    obtain d t where step: "resume_task c' s = (d, t)" by fastforce
    have ts: "overlapping initial arriving s (take i ts @ (c, s0, c') # drop (Suc i) ts)"
      using Cons.prems(1) id_take_nth_drop[OF True] by (simp add: at)
    have "overlapping initial arriving t (take i ts @ (c, s0, d) # drop (Suc i) ts)"
    proof (cases c')
      case (Done r)
      with ts step show ?thesis by simp
    next
      case (Await f)
      with step have "f s = (d, t)" by simp
      with ts[unfolded Await] show ?thesis by (rule resume)
    qed
    with Cons True at step show ?thesis by (simp add: upd_conv_take_nth_drop)
  qed (use Cons in simp)
qed simp

lemma scheduled_origins:
  "map (\<lambda>(c, s0, _). (c, s0)) (fst (scheduled is (ts, s))) = map (\<lambda>(c, s0, _). (c, s0)) ts"
  by (induction "is" arbitrary: ts s)
    (auto simp: map_update list_update_same_conv split: prod.split)

section \<open>Rely and guarantee\<close>

locale cooperation =
  fixes R :: "'s \<Rightarrow> 's \<Rightarrow> bool"
  assumes refl: "R s s"
    and trans: "R s s' \<Longrightarrow> R s' s'' \<Longrightarrow> R s s''"
begin

lemma ensures_later: "ensures R Q c s \<Longrightarrow> R s s' \<Longrightarrow> ensures R Q c s'"
  by (cases c) (auto intro: trans)

lemma ensures_done: "(\<And>s'. R s s' \<Longrightarrow> Q r s') \<Longrightarrow> ensures R Q (Done r) s"
  by simp

lemma ensures_await:
  fixes m :: "('s, 'e, 'a) fallible"
  assumes "\<And>s' r s''. R s s' \<Longrightarrow> m s' = (r, s'') \<Longrightarrow> R s' s'' \<and> (\<forall>t. R s'' t \<longrightarrow> Q r t)"
  shows "ensures R Q (await m) s"
  unfolding await_def ensures_Await
proof (intro allI impI)
  fix s' s'' and c' :: "('s, 'e, 'a) task"
  assume "R s s'" and run: "map_prod Done id (m s') = (c', s'')"
  moreover obtain r where "m s' = (r, s'')" "c' = Done r" using run by (cases "m s'") auto
  ultimately show "R s' s'' \<and> ensures R Q c' s''" using assms by simp
qed

lemma ensures_on_result:
  assumes "ensures R P c s"
    and "\<And>r s'. R s s' \<Longrightarrow> (\<And>t. R s' t \<Longrightarrow> P r t) \<Longrightarrow> ensures R Q (k r) s'"
  shows "ensures R Q (on_result k c) s"
  using assms
proof (induction c arbitrary: s)
  case (Done r)
  then show ?case by (simp add: refl)
next
  case (Await f)
  show ?case
    unfolding on_result.simps ensures_Await
  proof (intro allI impI)
    fix s' d s''
    assume s': "R s s'" and run: "map_prod (on_result k) id (f s') = (d, s'')"
    then obtain c' where f: "f s' = (c', s'')" and d: "d = on_result k c'" by (cases "f s'") auto
    from Await.prems(1) s' f have later: "R s' s''" and c': "ensures R P c' s''" by auto
    have "ensures R Q (on_result k c') s''"
    proof (rule Await.IH[OF _ _ c'])
      show "f s' \<in> range f" by simp
      show "c' \<in> Basic_BNFs.fsts (f s')" by (simp add: f fsts.intros)
    qed (use Await.prems(2) s' later in \<open>blast intro: trans\<close>)
    with later d show "R s' s'' \<and> ensures R Q d s''" by simp
  qed
qed

lemma on_result_Done: "on_result Done c = c"
proof (induction c)
  case (Await f)
  have "map_prod (on_result Done) id (f s) = f s" for s
    using Await.IH[OF rangeI[of f s]] by (cases "f s") (simp add: prod_set_simps)
  then show ?case by simp
qed simp

lemma ensures_weaken:
  assumes "ensures R P c s" "\<And>r s'. R s s' \<Longrightarrow> P r s' \<Longrightarrow> Q r s'"
  shows "ensures R Q c s"
  using ensures_on_result[OF assms(1), of Q Done] assms(2) refl trans
  unfolding on_result_Done by auto

lemma ensures_then:
  assumes "ensures R P c s"
    and "\<And>a s'. R s s' \<Longrightarrow> P (Inr a) s' \<Longrightarrow> ensures R Q (k a) s'"
    and "\<And>e s'. R s s' \<Longrightarrow> P (Inl e) s' \<Longrightarrow> Q (Inl e) s'"
  shows "ensures R Q (then_task c k) s"
  unfolding then_task_def
proof (rule ensures_on_result[OF assms(1)])
  fix r s'
  assume "R s s'" "\<And>t. R s' t \<Longrightarrow> P r t"
  then show "ensures R Q (case r of Inl e \<Rightarrow> Done (Inl e) | Inr a \<Rightarrow> k a) s'"
    using assms(2,3) refl trans by (auto split: sum.split)
qed

lemma ensures_map_err:
  assumes "ensures R (\<lambda>r. Q (map_sum g id r)) c s"
  shows "ensures R Q (map_err_task g c) s"
  unfolding map_err_task_def by (rule ensures_on_result[OF assms]) simp

text \<open>A loop over a list, with an invariant that mentions the elements still to come\<close>

lemma ensures_fold:
  assumes "I xs acc s"
    and "\<And>x ys acc s. I (x # ys) acc s \<Longrightarrow>
      ensures R (\<lambda>r s'. case r of Inl e \<Rightarrow> X s' | Inr acc' \<Rightarrow> I ys acc' s') (f x acc) s"
    and "\<And>acc s s'. I [] acc s \<Longrightarrow> R s s' \<Longrightarrow> I [] acc s'"
  shows "ensures R (\<lambda>r s'. case r of Inl e \<Rightarrow> X s' | Inr acc' \<Rightarrow> I [] acc' s') (fold_task f xs acc) s"
  using assms(1)
proof (induction xs arbitrary: acc s)
  case Nil
  with assms(3) show ?case by simp
next
  case (Cons x xs)
  show ?case
    unfolding fold_task.simps
    by (rule ensures_then[OF assms(2)[OF Cons.prems]]) (simp_all add: Cons.IH)
qed

lemma ensures_during:
  assumes "ensures R Q c s" "during R c s c' s'"
  shows "ensures R Q c' s' \<and> R s s'"
  using assms(2)
proof (induction rule: during.induct)
  case begun
  with assms(1) show ?case by (simp add: refl)
next
  case (others c' s' s'')
  then show ?case using ensures_later trans by blast
next
  case (resumed f s' c'' s'')
  then have "R s' s'' \<and> ensures R Q c'' s''" using refl[of s'] by auto
  with resumed show ?case using trans by blast
qed

lemma ensures_result:
  assumes "ensures R Q c s" "during R c s (Done r) s'"
  shows "Q r s'"
  using ensures_during[OF assms] refl by simp

text \<open>
  If the initial states satisfy \<open>I\<close>, later states keep it and every arriving task respects \<open>R\<close>
  from a state with \<open>I\<close>, then \<open>I\<close> always holds, and every task runs as \<open>during\<close> describes.
\<close>

lemma overlapping_inv:
  assumes "overlapping initial arriving s ts"
    and "\<And>s. initial s \<Longrightarrow> I s" "\<And>s s'. I s \<Longrightarrow> R s s' \<Longrightarrow> I s'"
    and "\<And>c s. arriving c \<Longrightarrow> I s \<Longrightarrow> ensures R (\<lambda>_ _. True) c s"
  shows "I s \<and> (\<forall>(c, s0, c') \<in> set ts. arriving c \<and> I s0 \<and> during R c s0 c' s)"
  using assms(1)
proof (induction rule: overlapping.induct)
  case (start s)
  with assms(2) show ?case by simp
next
  case (arrive s ts c)
  then show ?case by (auto intro: during.begun)
next
  case (resume s xs c s0 f ys c' s')
  then have c: "arriving c" "I s0" "during R c s0 (Await f) s" and "I s" by auto
  from ensures_during[OF assms(4)[OF c(1,2)] c(3)] have "ensures R (\<lambda>_ _. True) (Await f) s" ..
  then have later: "R s s'" using resume.hyps(2) refl[of s] by auto
  moreover have "during R c s0 c' s'" using c(3) resume.hyps(2) by (rule during.resumed)
  moreover have "during R d t d' s'" if "during R d t d' s" for d t d'
    using that later by (rule during.others)
  ultimately show ?case using resume.IH assms(3)[OF \<open>I s\<close>] by fastforce
next
  case (drop s xs x ys)
  then show ?case by auto
qed

end

end
