(* ===== verification/Tasks.thy ===== *)
theory Tasks
  imports Async Server
begin

text \<open>
  The requests of the server as tasks: the functions of \<^verbatim>\<open>db/push.rs\<close>, \<^verbatim>\<open>db/pull.rs\<close>,
  \<^verbatim>\<open>handlers/*.rs\<close> and \<^verbatim>\<open>auth.rs\<close> with their \<^verbatim>\<open>.await\<close>s. Every query and every statement that commits by
  itself is one \<open>await\<close>, and so is a whole transaction. A task that nobody interrupts does what
  the function of the same name in the other theories does.
\<close>

section \<open>Push\<close>

fun check_parents_task ::
  "'v env \<Rightarrow> (RevisionId \<rightharpoonup> ObjectId) \<Rightarrow> ObjectId \<Rightarrow> RevisionId list \<Rightarrow>
     ('v pool, sqlx_error, RejectionReason option) task" where
  "check_parents_task E objs object_id [] = done_ok None"
| "check_parents_task E objs object_id (parent_id # ps) =
     then_task
       (case objs parent_id of
          Some oid \<Rightarrow> done_ok (Some oid)
        | None \<Rightarrow> then_task (await (get_revision_object_id E (revision_uuid parent_id)))
                    (\<lambda>oid. done_ok (map_option ObjectId oid)))
       (\<lambda>parent_object_id.
          case parent_object_id of
            None \<Rightarrow> done_ok (Some UnknownParent)
          | Some oid \<Rightarrow> if oid \<noteq> object_id then done_ok (Some MalformedData)
                        else check_parents_task E objs object_id ps)"

definition validate_revision_task ::
  "'v env \<Rightarrow> ClientId \<Rightarrow> 'v Revision \<Rightarrow> verdicts \<Rightarrow> ('v pool, sqlx_error, verdicts) task" where
  "validate_revision_task E client_id r acc =
     (if rev_created_by r \<noteq> client_id then done_ok (reject (rev_id r) MalformedData acc)
      else then_task (await (revision_exists E (rev_id r)))
        (\<lambda>exists.
           if exists then done_ok (reject (rev_id r) DuplicateRevisionId acc)
           else if card (set (rev_parents r)) \<noteq> length (rev_parents r)
           then done_ok (reject (rev_id r) MalformedData acc)
           else then_task
               (check_parents_task E (accepted_objects acc) (rev_object_id r) (rev_parents r))
               (\<lambda>reason. case reason of
                   Some why \<Rightarrow> done_ok (reject (rev_id r) why acc)
                 | None \<Rightarrow> done_ok (accept r acc))))"

definition push_revisions_task ::
  "'v env \<Rightarrow> ClientId \<Rightarrow> 'v Revision list \<Rightarrow> ('v pool, ServerError, PushResponse) task" where
  "push_revisions_task E client_id revs =
     map_err_task Err_Database
       (then_task (fold_task (validate_revision_task E client_id) revs no_verdicts)
         (\<lambda>acc.
            let accepted_revisions = filter (\<lambda>r. rev_id r \<in> accepted_ids acc) revs in
            if accepted_revisions = []
            then done_ok \<lparr> resp_transaction_id = TransactionId 0,
                           resp_accepted = accepted acc, resp_rejected = rejected acc \<rparr>
            else then_task (await (in_tx E (store_batch E client_id accepted_revisions (accepted acc))))
                   (\<lambda>transaction_id. done_ok \<lparr> resp_transaction_id = transaction_id,
                      resp_accepted = accepted acc, resp_rejected = rejected acc \<rparr>)))"

section \<open>Pull\<close>

definition assemble_updates_task ::
  "'n Value env \<Rightarrow> ('n Value RevisionRow \<Rightarrow> bool) \<Rightarrow> uuid list \<Rightarrow>
     ('n Value pool, sqlx_error, 'n Value ObjectUpdate list) task" where
  "assemble_updates_task E passes changed =
     then_task (await (select_heads E changed))
       (\<lambda>head_rows. then_task (await (get_revision_rows_by_ids E (map snd head_rows)))
          (\<lambda>revision_rows. then_task (await (get_parents_batch E (map snd head_rows)))
             (\<lambda>parents_map.
                done_ok (build_updates (group_rows head_rows Map.empty) parents_map passes changed
                      (map_of (map (\<lambda>r. (row_id r, r)) (rev revision_rows))) []))))"

definition fetch_object_updates_task ::
  "'n Value env \<Rightarrow> ('n, 'f) numbers \<Rightarrow> ClientId \<Rightarrow> TransactionId option \<Rightarrow> TransactionId \<Rightarrow>
     string list option \<Rightarrow> CreatedAtFilter list option \<Rightarrow> 'n Value FilterCondition list list option \<Rightarrow>
     ('n Value pool, sqlx_error, 'n Value ObjectUpdate list) task" where
  "fetch_object_updates_task E N client_id since up_to types created content =
     (if uint (transaction_u64 up_to) > i64_max
      then Done (Inl (Protocol ''up_to transaction ID out of range''))
      else then_task
        (await (select_changed_objects E (case since of Some t \<Rightarrow> sint (transaction_u64 t) | None \<Rightarrow> 0)
           (uint (transaction_u64 up_to)) (client_uuid client_id)))
        (\<lambda>changed. if changed = [] then done_ok []
                   else assemble_updates_task E (head_passes N types created content) changed))"

section \<open>Handlers, authentication and the router\<close>

type_synonym 'v handler_task = "('v pool, ServerError, 'v Response) task"

definition push_changes_task :: "'v env \<Rightarrow> AuthInfo \<Rightarrow> 'v PushRequest \<Rightarrow> 'v handler_task" where
  "push_changes_task E auth req =
     then_task (push_revisions_task E (auth_client_id auth) (push_req_revisions req))
       (\<lambda>resp. done_ok (respond 200 (Json_Push resp)))"

definition pull_changes_task ::
  "'n Value env \<Rightarrow> ('n, 'f) numbers \<Rightarrow> AuthInfo \<Rightarrow> 'n Value PullRequest \<Rightarrow> 'n Value handler_task" where
  "pull_changes_task E N auth req =
     (if (case pull_since req of Some since \<Rightarrow> uint (transaction_u64 since) > i64_max | None \<Rightarrow> False)
      then Done (Inl (Err_MalformedData ''since transaction ID out of range''))
      else then_task (map_err_task Err_Database (await (latest_transaction_id E)))
        (\<lambda>latest. then_task
           (map_err_task Err_Database
             (fetch_object_updates_task E N (auth_client_id auth) (pull_since req) (TransactionId latest)
                (pull_object_types req) (pull_created_at req) (pull_filter req)))
           (\<lambda>updates. done_ok (respond 200 (Json_Pull
              \<lparr> up_to_transaction = TransactionId latest, object_updates = updates \<rparr>)))))"

definition get_object_task :: "'n Value env \<Rightarrow> uuid \<Rightarrow> 'n Value handler_task" where
  "get_object_task E i =
     then_task (map_err_task Err_Database (await (in_tx E (get_heads E i))))
       (\<lambda>head_ids.
          if head_ids = [] then Done (Inl Err_NotFound)
          else then_task (map_err_task Err_Database (await (get_revision_rows_by_ids E head_ids)))
            (\<lambda>revision_rows. then_task (map_err_task Err_Database (await (get_parents_batch E (map row_id revision_rows))))
               (\<lambda>parents_map.
                  done_ok (respond 200 (Json_Object (object_update i
                    (map (\<lambda>row. row_to_revision_sync Null row (get_or_default parents_map (row_id row)))
                       revision_rows)))))))"

text \<open>The handlers of the other endpoints wait for the database at most once.\<close>

fun dispatch_task ::
  "'n Value env \<Rightarrow> ('n, 'f) numbers \<Rightarrow> AuthInfo \<Rightarrow> 'n Value Endpoint \<Rightarrow> 'n Value handler_task" where
  "dispatch_task E N auth Get_WhoAmI = await (whoami auth)"
| "dispatch_task E N auth (Post_Changes req) = push_changes_task E auth req"
| "dispatch_task E N auth (Post_Changes_Query req) = pull_changes_task E N auth req"
| "dispatch_task E N auth (Get_Object i) = get_object_task E i"
| "dispatch_task E N auth (Get_File i) = await (get_file_handler E i)"
| "dispatch_task E N auth (Post_File i bytes) = await (upload_file E i bytes)"
| "dispatch_task E N auth (Delete_File i) = await (delete_file_handler E i)"
| "dispatch_task E N auth (Answered_By_Axum resp) = done_ok resp"

text \<open>The layer of \<^verbatim>\<open>auth.rs\<close> around the handlers, with errors turned into answers\<close>

definition request_task ::
  "'n Value env \<Rightarrow> ('n, 'f) numbers \<Rightarrow> ServerStore \<Rightarrow> 'n Value Request \<Rightarrow> 'n Value handler_task" where
  "request_task E N store req =
     (case extract_ip req (store_ip_source store) of
        None \<Rightarrow> done_ok unauthenticated
      | Some ip \<Rightarrow>
          (case store_auth store ip of
             Inl Unauthenticated \<Rightarrow> done_ok unauthenticated
           | Inl (Internal _) \<Rightarrow> done_ok provider_error
           | Inr info \<Rightarrow>
               on_result
                 (\<lambda>registered. case registered of
                    Inl _ \<Rightarrow> done_ok provider_error
                  | Inr _ \<Rightarrow> on_result (\<lambda>r. done_ok (case r of Inl e \<Rightarrow> into_response e | Inr resp \<Rightarrow> resp))
                               (dispatch_task E N info (endpoint req)))
                 (await (upsert_client E (auth_client_id info) (auth_user_id info)))))"

section \<open>Requests that are not interrupted\<close>

lemma uninterrupted_check_parents [uninterrupted_simps]:
  "uninterrupted (check_parents_task E objs oid ps) = check_parents E objs oid ps"
proof (induction ps)
  case (Cons q qs)
  have "uninterrupted (if oid' \<noteq> oid then done_ok (Some MalformedData) else check_parents_task E objs oid qs) =
      (if oid' \<noteq> oid then ok (Some MalformedData) else check_parents E objs oid qs)" for oid'
    using Cons by (simp del: uninterrupted.simps add: uninterrupted_simps)
  then show ?case
    by (simp del: uninterrupted.simps add: uninterrupted_simps option.case_distrib[of uninterrupted] cong: option.case_cong)
qed (simp del: uninterrupted.simps add: uninterrupted_simps)

lemma uninterrupted_if: "uninterrupted (if b then c else d) = (if b then uninterrupted c else uninterrupted d)"
  by simp

lemmas uninterrupted_cases = uninterrupted_if option.case_distrib[of uninterrupted] sum.case_distrib[of uninterrupted]

lemma uninterrupted_validate [uninterrupted_simps]:
  "uninterrupted (validate_revision_task E client r acc) = validate_revision E client r acc"
  unfolding validate_revision_task_def validate_revision_def uninterrupted_simps uninterrupted_cases
  by simp

lemma uninterrupted_push [uninterrupted_simps]:
  "uninterrupted (push_revisions_task E client revs) = push_revisions E client revs"
  unfolding push_revisions_task_def push_revisions_def validate_batch_def store_accepted_def[abs_def]
    Let_def uninterrupted_simps uninterrupted_cases by simp

lemma uninterrupted_fetch [uninterrupted_simps]:
  "uninterrupted (fetch_object_updates_task E N client since up_to types created content) =
     fetch_object_updates E N client since up_to types created content"
  unfolding fetch_object_updates_task_def fetch_object_updates_def assemble_updates_task_def
    assemble_updates_def uninterrupted_simps uninterrupted_cases by simp

lemma uninterrupted_dispatch [uninterrupted_simps]:
  "uninterrupted (dispatch_task E N auth e) = dispatch E N auth e"
  by (cases e)
    (simp_all only: dispatch_task.simps dispatch.simps push_changes_task_def push_changes_def
      pull_changes_task_def pull_changes_def get_object_task_def get_object_def uninterrupted_simps uninterrupted_cases)

lemma uninterrupted_request:
  "uninterrupted (request_task E N store req) p = (case router E N store req p of (resp, p') \<Rightarrow> (Inr resp, p'))"
  unfolding request_task_def router_def auth_call_def AuthLayer_new_def routed_def
  by (simp add: uninterrupted_on_result uninterrupted_await uninterrupted_dispatch
      split: option.split sum.split AuthError.split prod.split)

end
