(* ===== verification/Interleaving.thy ===== *)
theory Interleaving
  imports Tasks ServerCorrect
begin

text \<open>
  Requests that overlap. The validation of a push and the queries of a pull run outside any
  transaction, so other requests can change the database between them. What a push has seen
  stays true, because revisions are never changed or removed: its transaction has the effect of
  an atomic push of the revisions it accepted. The answer of a pull is that of one state of the
  database, the one in which it read the heads.
\<close>

section \<open>How the database evolves\<close>

text \<open>The parents of a revision are written with it.\<close>

definition parents_extend :: "'v tables \<Rightarrow> 'v tables \<Rightarrow> bool" where
  "parents_extend t t' \<longleftrightarrow>
     (\<exists>xs. revision_parents t' = revision_parents t @ xs \<and> (\<forall>x \<in> set xs. pr_revision_id x \<notin> known_ids t))"

definition grows :: "'v pool \<Rightarrow> 'v pool \<Rightarrow> bool" where
  "grows p p' \<longleftrightarrow> keeps_inv p p' \<and> keeps_log p p' \<and> parents_extend (tables p) (tables p')"

lemma parents_extend_refl [simp]: "parents_extend t t"
  by (simp add: parents_extend_def)

lemma parents_extend_same: "revision_parents t' = revision_parents t \<Longrightarrow> parents_extend t t'"
  by (simp add: parents_extend_def)

lemma log_extends_known: "log_extends t t' \<Longrightarrow> known_ids t \<subseteq> known_ids t'"
  by (auto simp: log_extends_def)

lemma parents_extend_trans:
  assumes "parents_extend a b" "parents_extend b c" "known_ids a \<subseteq> known_ids b"
  shows "parents_extend a c"
proof -
  from assms(1,2) obtain xs ys where "revision_parents b = revision_parents a @ xs" "\<forall>x \<in> set xs. pr_revision_id x \<notin> known_ids a"
    "revision_parents c = revision_parents b @ ys" "\<forall>x \<in> set ys. pr_revision_id x \<notin> known_ids b"
    by (auto simp: parents_extend_def)
  with assms(3) show ?thesis unfolding parents_extend_def by (intro exI[of _ "xs @ ys"]) auto
qed

lemma grows_refl: "grows p p"
  by (simp add: grows_def keeps_inv_def)

lemma grows_trans:
  assumes "grows p q" "grows q r"
  shows "grows p r"
proof -
  from assms have "keeps_log p q" "keeps_log q r" by (simp_all add: grows_def)
  then have "keeps_log p r" by (rule log_extends_trans)
  moreover from assms log_extends_known[OF \<open>keeps_log p q\<close>] have "parents_extend (tables p) (tables r)"
    unfolding grows_def by (meson parents_extend_trans)
  ultimately show ?thesis using assms by (simp add: grows_def keeps_inv_def)
qed

interpretation server: cooperation grows
  by unfold_locales (rule grows_refl, rule grows_trans)

lemma grows_inv: "db_inv (tables p) \<Longrightarrow> grows p p' \<Longrightarrow> db_inv (tables p')"
  by (simp add: grows_def keeps_inv_def)

lemma grows_log: "grows p p' \<Longrightarrow> log_extends (tables p) (tables p')"
  by (simp add: grows_def)

lemma same_tables_grow: "tables p' = tables p \<Longrightarrow> grows p p'"
  by (simp add: grows_def keeps_inv_def)

lemma same_tables_trans_grow: "grows p q \<Longrightarrow> tables r = tables q \<Longrightarrow> grows p r"
  using grows_trans same_tables_grow by blast

text \<open>What a later state still says about a revision\<close>

lemma object_of_extends: "log_extends t t' \<Longrightarrow> object_of t i = Some ob \<Longrightarrow> object_of t' i = Some ob"
  by (auto simp: log_extends_def object_of_def map_add_def)

lemma row_at_extends:
  assumes "log_extends t t'" "i \<in> known_ids t"
  shows "row_at t' i = row_at t i"
proof -
  from assms(2) obtain r where "map_of (map (\<lambda>r. (row_id r, r)) (revisions t)) i = Some r"
    by (cases "map_of (map (\<lambda>r. (row_id r, r)) (revisions t)) i") (auto simp: map_of_eq_None_iff image_image)
  with assms(1) show ?thesis by (auto simp: log_extends_def row_at_def)
qed

lemma parents_of_extends:
  assumes "parents_extend t t'" "i \<in> known_ids t"
  shows "parents_of t' i = parents_of t i"
proof -
  from assms(1) obtain xs where "revision_parents t' = revision_parents t @ xs"
    and "\<forall>x \<in> set xs. pr_revision_id x \<notin> known_ids t" by (auto simp: parents_extend_def)
  with assms(2) show ?thesis by (auto simp: parents_of_def filter_empty_conv)
qed

section \<open>The statements\<close>

lemma always_grows:
  assumes "always keeps_inv m" "always keeps_log m" "always (\<lambda>p p'. revision_parents (tables p') = revision_parents (tables p)) m"
  shows "always grows m"
  using assms unfolding always_def grows_def by (blast intro: parents_extend_same)

lemma upsert_client_row_parents [simp]: "revision_parents (snd (upsert_client_row c v at t)) = revision_parents t"
  by (simp add: upsert_client_row_def split: option.split)

lemma single_statements_grow:
  "always grows (upsert_client E i u)" "always grows (upsert_file E j d)" "always grows (delete_file E j)"
proof -
  have "always (\<lambda>p p'. revision_parents (tables p') = revision_parents (tables p)) (autocommit E (upsert_client_row c v at))"
    for c v at by (rule always_autocommit) simp_all
  then have "always (\<lambda>p p'. revision_parents (tables p') = revision_parents (tables p)) (upsert_client E i u)"
    unfolding always_def upsert_client_def by blast
  then show "always grows (upsert_client E i u)" by (intro always_grows always_intros)
  have alone: "always (\<lambda>p p'. revision_parents (tables p') = revision_parents (tables p)) (upsert_file E j d)"
    "always (\<lambda>p p'. revision_parents (tables p') = revision_parents (tables p)) (delete_file E j)"
    unfolding upsert_file_def delete_file_def by (rule always_autocommit, simp_all)+
  show "always grows (upsert_file E j d)" "always grows (delete_file E j)"
    using alone by (auto intro!: always_grows intro: always_intros)
qed

lemma reading_grows: "always same_tables m \<Longrightarrow> always grows m"
  unfolding always_def by (blast intro: same_tables_grow)

lemma await_grows: "always grows m \<Longrightarrow> ensures grows (\<lambda>_ _. True) (await m) p"
  by (rule server.ensures_await) (blast dest: alwaysD)

text \<open>A query returns what it finds in one of the states since the task has waited.\<close>

lemma await_reads:
  assumes "reads m f" "always same_tables m"
  shows "ensures grows (\<lambda>r p'. case r of Inl e \<Rightarrow> True | Inr a \<Rightarrow> \<exists>q. grows p q \<and> grows q p' \<and> a = f (tables q)) (await m) p"
proof (rule server.ensures_await)
  fix q r q'
  assume q: "grows p q" and run: "m q = (r, q')"
  have same: "tables q' = tables q" using alwaysD[OF assms(2) run] by simp
  have "case r of Inl e \<Rightarrow> True | Inr a \<Rightarrow> \<exists>q. grows p q \<and> grows q t \<and> a = f (tables q)" if t: "grows q' t" for t
  proof (cases r)
    case (Inr a)
    with run have "a = f (tables q)" using readsD[OF assms(1)] by blast
    moreover have "grows q t" using same_tables_grow[OF same] t by (rule grows_trans)
    ultimately show ?thesis using Inr q by auto
  qed simp
  with same_tables_grow[OF same] show
    "grows q q' \<and> (\<forall>t. grows q' t \<longrightarrow> (case r of Inl e \<Rightarrow> True | Inr a \<Rightarrow> \<exists>q. grows p q \<and> grows q t \<and> a = f (tables q)))"
    by blast
qed

section \<open>Push\<close>

text \<open>
  What the validation has established about the revisions it accepted, without the freshness of
  their ids: that may cease to hold, and then the transaction fails.
\<close>

fun vetted :: "'v tables \<Rightarrow> ClientId \<Rightarrow> (RevisionId \<rightharpoonup> ObjectId) \<Rightarrow> 'v Revision list \<Rightarrow> bool" where
  "vetted t client objs [] = True"
| "vetted t client objs (r # rs) =
     (rev_created_by r = client \<and> distinct (rev_parents r) \<and>
      (\<forall>p \<in> set (rev_parents r). parent_object t objs p = Some (rev_object_id r)) \<and>
      vetted t client (objs(rev_id r \<mapsto> rev_object_id r)) rs)"

definition batch_objects :: "'v Revision list \<Rightarrow> (RevisionId \<rightharpoonup> ObjectId) \<Rightarrow> (RevisionId \<rightharpoonup> ObjectId)" where
  "batch_objects rs objs = fold (\<lambda>r objs. objs(rev_id r \<mapsto> rev_object_id r)) rs objs"

lemma batch_objects_simps [simp]:
  "batch_objects [] objs = objs"
  "batch_objects (r # rs) objs = batch_objects rs (objs(rev_id r \<mapsto> rev_object_id r))"
  "batch_objects (rs @ [r]) objs = (batch_objects rs objs)(rev_id r \<mapsto> rev_object_id r)"
  by (simp_all add: batch_objects_def)

lemma vetted_append: "vetted t client objs (rs @ qs) \<longleftrightarrow> vetted t client objs rs \<and> vetted t client (batch_objects rs objs) qs"
  by (induction rs arbitrary: objs) auto

lemma parent_object_extends:
  "log_extends t t' \<Longrightarrow> parent_object t objs p = Some ob \<Longrightarrow> parent_object t' objs p = Some ob"
  by (auto simp: parent_object_def object_of_extends split: option.splits)

lemma vetted_extends: "log_extends t t' \<Longrightarrow> vetted t client objs rs \<Longrightarrow> vetted t' client objs rs"
  by (induction rs arbitrary: objs) (auto intro: parent_object_extends)

lemma vetted_admissible:
  assumes "vetted t client objs rs" "revision_uuid ` rev_id ` set rs \<inter> known_ids t = {}"
  shows "admissible t client objs rs"
  using assms by (induction rs arbitrary: objs) (auto simp: verdict_None_iff)

lemma admissible_accepted: "admissible t client objs rs \<Longrightarrow> accepted_revs t client objs rs = rs \<and> rejections t client objs rs = []"
  by (induction rs arbitrary: objs) auto

text \<open>The verdicts so far, with the revisions \<open>ys\<close> of the batch still to come\<close>

definition judged_so_far ::
  "ClientId \<Rightarrow> 'v Revision list \<Rightarrow> 'v Revision list \<Rightarrow> verdicts \<Rightarrow> 'v Revision list \<Rightarrow> 'v tables \<Rightarrow> bool" where
  "judged_so_far client revs ys acc A t \<longleftrightarrow>
     (\<exists>seen. revs = seen @ ys \<and> subseq A seen \<and>
        mset (map rev_id A) + mset (map rejected_revision_id (rejected acc)) = mset (map rev_id seen)) \<and>
     accepted acc = map rev_id A \<and> accepted_ids acc = rev_id ` set A \<and>
     accepted_objects acc = batch_objects A Map.empty \<and> vetted t client Map.empty A"

lemma judged_none: "judged_so_far client revs revs no_verdicts [] t"
  by (simp add: judged_so_far_def no_verdicts_def)

lemma judged_extends: "judged_so_far client revs ys acc A t \<Longrightarrow> log_extends t t' \<Longrightarrow> judged_so_far client revs ys acc A t'"
  by (auto simp: judged_so_far_def vetted_extends)

lemma judged_reject:
  assumes "judged_so_far client revs (r # ys) acc A t"
  shows "judged_so_far client revs ys (reject (rev_id r) why acc) A t"
proof -
  from assms obtain seen where "revs = (seen @ [r]) @ ys" "subseq A seen"
    "mset (map rev_id A) + mset (map rejected_revision_id (rejected acc)) = mset (map rev_id seen)"
    by (auto simp: judged_so_far_def)
  moreover from this(2) have "subseq (A @ []) (seen @ [r])" by (intro list_emb_append_mono) simp_all
  ultimately show ?thesis using assms
    by (auto simp: judged_so_far_def reject_def intro!: exI[of _ "seen @ [r]"])
qed

lemma judged_accept:
  assumes "judged_so_far client revs (r # ys) acc A t"
    and "vetted t client (accepted_objects acc) [r]"
  shows "judged_so_far client revs ys (accept r acc) (A @ [r]) t"
proof -
  from assms(1) obtain seen where "revs = (seen @ [r]) @ ys" "subseq A seen"
    "mset (map rev_id A) + mset (map rejected_revision_id (rejected acc)) = mset (map rev_id seen)"
    by (auto simp: judged_so_far_def)
  moreover from this(2) have "subseq (A @ [r]) (seen @ [r])" by (intro list_emb_append_mono) simp_all
  ultimately show ?thesis using assms
    by (auto simp: judged_so_far_def accept_def vetted_append intro!: exI[of _ "seen @ [r]"])
qed

text \<open>The loop over the parents: what it found about them stays true.\<close>

lemma check_parents_vetted:
  "ensures grows (\<lambda>r p'. r = Inr None \<longrightarrow> (\<forall>q \<in> set ps. parent_object (tables p') objs q = Some oid))
     (check_parents_task E objs oid ps) p"
proof (induction ps arbitrary: p)
  case (Cons q qs)
  let ?look = "case objs q of Some oid \<Rightarrow> done_ok (Some oid)
      | None \<Rightarrow> then_task (await (get_revision_object_id E (revision_uuid q))) (\<lambda>oid. done_ok (map_option ObjectId oid))"
  have read: "ensures grows (\<lambda>r p'. case r of Inl e \<Rightarrow> True | Inr a \<Rightarrow> \<exists>s. grows p s \<and> grows s p' \<and> a = object_of (tables s) (revision_uuid q))
      (await (get_revision_object_id E (revision_uuid q))) p"
    by (rule await_reads) (auto simp: get_revision_object_id_def object_of_def intro: reads_query intro!: always_intros)
  have look: "ensures grows (\<lambda>r p'. \<forall>found. r = Inr (Some found) \<longrightarrow> parent_object (tables p') objs q = Some found) ?look p"
  proof (cases "objs q")
    case None
    have "ensures grows (\<lambda>r p'. \<forall>found. r = Inr (Some found) \<longrightarrow> parent_object (tables p') objs q = Some found)
        (then_task (await (get_revision_object_id E (revision_uuid q))) (\<lambda>oid. done_ok (map_option ObjectId oid))) p"
      by (rule server.ensures_then[OF read])
        (auto simp: parent_object_def None intro: object_of_extends[OF grows_log[OF grows_trans]])
    with None show ?thesis by simp
  qed (simp add: parent_object_def)
  have rest: "ensures grows (\<lambda>r p'. r = Inr None \<longrightarrow> (\<forall>q' \<in> set (q # qs). parent_object (tables p') objs q' = Some oid))
      (check_parents_task E objs oid qs) s" if "parent_object (tables s) objs q = Some oid" for s
    by (rule server.ensures_weaken[OF Cons.IH])
      (use that in \<open>auto dest!: grows_log intro: parent_object_extends\<close>)
  show ?case
    unfolding check_parents_task.simps
    by (rule server.ensures_then[OF look]) (auto split: option.split intro: rest[simplified])
qed simp

lemma validate_revision_judged:
  assumes "judged_so_far client revs (r # ys) acc A (tables p)"
  shows "ensures grows (\<lambda>x p'. case x of Inl e \<Rightarrow> True | Inr acc' \<Rightarrow> \<exists>A'. judged_so_far client revs ys acc' A' (tables p'))
     (validate_revision_task E client r acc) p"
proof -
  let ?Q = "\<lambda>x p'. case x of Inl e \<Rightarrow> True | Inr acc' \<Rightarrow> \<exists>A'. judged_so_far client revs ys acc' A' (tables p')"
  have still: "judged_so_far client revs (r # ys) acc A (tables q)" if "grows p q" for q
    using judged_extends[OF assms grows_log[OF that]] .
  have rejected: "ensures grows ?Q (done_ok (reject (rev_id r) why acc)) q" if "grows p q" for q why
    using judged_reject[OF still[OF grows_trans[OF that]]] by auto
  have checked: "ensures grows ?Q (case reason of Some why \<Rightarrow> done_ok (reject (rev_id r) why acc) | None \<Rightarrow> done_ok (accept r acc)) q"
    if "grows p q" and me: "rev_created_by r = client" "distinct (rev_parents r)"
      and "reason = None \<longrightarrow> (\<forall>x \<in> set (rev_parents r). parent_object (tables q) (accepted_objects acc) x = Some (rev_object_id r))"
    for q reason
  proof (cases reason)
    case None
    with that have ok: "vetted (tables q) client (accepted_objects acc) [r]" by simp
    have "\<exists>A'. judged_so_far client revs ys (accept r acc) A' (tables s)" if "grows q s" for s
      using judged_accept[OF still[OF grows_trans[OF \<open>grows p q\<close> that]] vetted_extends[OF grows_log[OF that] ok]] by blast
    with None show ?thesis by simp
  qed (use rejected[OF that(1)] in simp)
  have parents: "ensures grows ?Q (then_task (check_parents_task E (accepted_objects acc) (rev_object_id r) (rev_parents r))
      (\<lambda>reason. case reason of Some why \<Rightarrow> done_ok (reject (rev_id r) why acc) | None \<Rightarrow> done_ok (accept r acc))) q"
    if "grows p q" "rev_created_by r = client" "distinct (rev_parents r)" for q
  proof (rule server.ensures_then[OF check_parents_vetted])
    fix reason :: "RejectionReason option" and s
    assume "grows q s" "Inr reason = Inr None \<longrightarrow>
      (\<forall>x \<in> set (rev_parents r). parent_object (tables s) (accepted_objects acc) x = Some (rev_object_id r))"
    then show "ensures grows ?Q (case reason of Some why \<Rightarrow> done_ok (reject (rev_id r) why acc) | None \<Rightarrow> done_ok (accept r acc)) s"
      using that by (intro checked) (auto intro: grows_trans)
  qed simp
  have found: "ensures grows (\<lambda>_ _. True) (await (revision_exists E (rev_id r))) p"
    by (rule await_grows) (auto simp: revision_exists_def intro!: reading_grows always_intros)
  have after: "ensures grows ?Q (if exists then done_ok (reject (rev_id r) DuplicateRevisionId acc)
      else if \<not> distinct (rev_parents r) then done_ok (reject (rev_id r) MalformedData acc)
      else then_task (check_parents_task E (accepted_objects acc) (rev_object_id r) (rev_parents r))
        (\<lambda>reason. case reason of Some why \<Rightarrow> done_ok (reject (rev_id r) why acc) | None \<Rightarrow> done_ok (accept r acc))) q"
    if "grows p q" "rev_created_by r = client" for q "exists"
    using rejected[OF that(1)] parents[OF that] by (auto simp del: ensures_Done)
  show ?thesis
  proof (cases "rev_created_by r = client")
    case True
    then show ?thesis
      unfolding validate_revision_task_def card_set_eq_length_iff
      using server.ensures_then[OF found after[OF _ True]] by simp
  qed (use rejected[OF grows_refl] in \<open>simp add: validate_revision_task_def del: ensures_Done\<close>)
qed

subsection \<open>The transaction of a push\<close>

lemma stored_parents_extend: "stored E r t t' \<Longrightarrow> parents_extend t t'"
  by (auto simp: stored_def parents_extend_def dest: parent_rows_facts(2))

lemma stored_all_parents_extend: "stored_all E rs t t' \<Longrightarrow> parents_extend t t'"
proof (induction rs arbitrary: t)
  case (Cons r rs)
  then obtain t1 where "stored E r t t1" "stored_all E rs t1 t'" by auto
  with Cons.IH show ?case
    using parents_extend_trans[OF stored_parents_extend] stored_known by (metis subset_insertI)
qed simp

lemma pushed_parents_extend: "pushed E client revs t t' \<Longrightarrow> parents_extend t t'"
  by (auto simp: pushed_def Let_def recorded_def parents_extend_def split: if_splits
      dest!: stored_all_parents_extend)

lemma pushed_grows: "pushed E client revs (tables p) (tables p') \<Longrightarrow> grows p p'"
  by (simp add: grows_def keeps_inv_def pushed_db_inv pushed_log_extends pushed_parents_extend)

lemma sequence_grows:
  assumes "seq_grows p p'" "tables p' = (tables p)\<lparr>txn_sequence := n\<rparr>"
  shows "grows p p'"
proof -
  have "keeps_inv p p'" using db_inv_seq_grows[OF _ assms] by (simp add: keeps_inv_def)
  then show ?thesis using assms by (simp add: grows_def log_extends_def seq_grows_def parents_extend_same)
qed

text \<open>
  The accepted revisions of a batch are an atomic push when the transaction stores them: had
  they come as a batch of their own at that moment, all of them would have been accepted.
\<close>

lemma store_judged_run:
  assumes judged: "judged_so_far client revs [] acc A (tables p)" and "A \<noteq> []"
    and run: "store_batch E client (filter (\<lambda>r. rev_id r \<in> accepted_ids acc) revs) (accepted acc) p = (Inr tid, p')"
  shows "pushed E client A (tables p) (tables p') \<and> accepted_revs (tables p) client Map.empty A = A \<and>
    rejections (tables p) client Map.empty A = [] \<and> tid = TransactionId (word_of_int (txn_sequence (tables p)))"
proof -
  let ?t = "tables p" and ?F = "filter (\<lambda>r. rev_id r \<in> rev_id ` set A) revs"
  from judged have sub: "subseq A revs" and vet: "vetted ?t client Map.empty A"
    and acc: "accepted acc = map rev_id A" "accepted_ids acc = rev_id ` set A"
    by (auto simp: judged_so_far_def)
  from store_batch_run[OF run] obtain t1 where all: "stored_all E ?F ?t t1"
    and rec: "recorded client (map rev_id A) t1 (tables p')" and tid: "tid = TransactionId (word_of_int (txn_sequence ?t))"
    by (auto simp: acc)
  from stored_all_fresh[OF all] have "?F = A" using selected_subseq_eq[OF sub] by blast
  with all have all: "stored_all E A ?t t1" by simp
  with stored_all_fresh[OF all] have adm: "admissible ?t client Map.empty A" using vetted_admissible[OF vet] by blast
  from admissible_accepted[OF adm] all rec tid assms(2) show ?thesis by (auto simp: pushed_def Let_def)
qed

text \<open>What a push that overlaps with others has done by the time it is answered\<close>

definition push_effect ::
  "'v env \<Rightarrow> ClientId \<Rightarrow> 'v Revision list \<Rightarrow> 'v pool \<Rightarrow> PushResponse \<Rightarrow> 'v pool \<Rightarrow> bool" where
  "push_effect E client revs p resp p' \<longleftrightarrow>
     (\<exists>A q q'. subseq A revs \<and>
        mset (map rev_id A) + mset (map rejected_revision_id (resp_rejected resp)) = mset (map rev_id revs) \<and>
        accepted_revs (tables q) client Map.empty A = A \<and>
        resp = (push_answer client A (tables q))\<lparr>resp_rejected := resp_rejected resp\<rparr> \<and>
        pushed E client A (tables q) (tables q') \<and> grows p q \<and> grows q q' \<and> grows q' p')"

lemma push_effect_later: "push_effect E client revs p resp p' \<Longrightarrow> grows p' p'' \<Longrightarrow> push_effect E client revs p resp p''"
  unfolding push_effect_def using grows_trans by blast

lemma push_effectI:
  assumes "subseq A revs"
    and "mset (map rev_id A) + mset (map rejected_revision_id (resp_rejected resp)) = mset (map rev_id revs)"
    and "accepted_revs (tables q) client Map.empty A = A"
    and "resp_accepted resp = map rev_id A"
    and "resp_transaction_id resp = TransactionId (if A = [] then 0 else word_of_int (txn_sequence (tables q)))"
    and "pushed E client A (tables q) (tables p')" "grows p q"
  shows "push_effect E client revs p resp p'"
proof -
  have "resp = (push_answer client A (tables q))\<lparr>resp_rejected := resp_rejected resp\<rparr>"
    using assms(3-5) by (cases resp) (simp add: push_answer_def)
  with assms pushed_grows[OF assms(6)] grows_refl[of p'] show ?thesis unfolding push_effect_def by blast
qed

lemma store_accepted_task:
  assumes judged: "judged_so_far client revs [] acc A (tables q)" and q: "grows p q"
    and run: "store_accepted E client revs acc q = (r, q')"
  shows "grows q q' \<and> (case r of Inl e \<Rightarrow> True | Inr resp \<Rightarrow> push_effect E client revs p resp q')"
proof -
  let ?F = "filter (\<lambda>r. rev_id r \<in> accepted_ids acc) revs"
  from judged have acc: "accepted acc = map rev_id A" "accepted_ids acc = rev_id ` set A" and sub: "subseq A revs"
    and parts: "mset (map rev_id A) + mset (map rejected_revision_id (rejected acc)) = mset (map rev_id revs)"
    by (auto simp: judged_so_far_def)
  have "set A \<subseteq> set revs" using list_emb_set[OF sub] by blast
  then have "hd A \<in> set ?F" if "A \<noteq> []" using that by (auto simp: acc)
  moreover have "?F = []" if "A = []" by (simp add: acc that)
  ultimately have empty: "?F = [] \<longleftrightarrow> A = []" by fastforce
  show ?thesis
  proof (cases "A = []")
    case True
    with run empty have q': "q' = q" "r = Inr \<lparr>resp_transaction_id = TransactionId 0, resp_accepted = [], resp_rejected = rejected acc\<rparr>"
      by (auto simp: store_accepted_def acc)
    have "push_effect E client revs p \<lparr>resp_transaction_id = TransactionId 0, resp_accepted = [], resp_rejected = rejected acc\<rparr> q"
      by (rule push_effectI[OF sub _ _ _ _ _ q]) (use parts True in \<open>simp_all add: pushed_def\<close>)
    with q' show ?thesis by (simp add: grows_refl)
  next
    case False
    have run: "and_then (in_tx E (store_batch E client ?F (accepted acc)))
        (\<lambda>tid. ok \<lparr>resp_transaction_id = tid, resp_accepted = accepted acc, resp_rejected = rejected acc\<rparr>) q = (r, q')"
      using run empty False by (simp add: store_accepted_def Let_def)
    have judged_at: "judged_so_far client revs [] acc A (tables x)" if "tables x = tables q" for x
      using judged by (simp add: that)
    show ?thesis
    proof (cases r)
      case (Inr resp)
      with run obtain tid where tx: "in_tx E (store_batch E client ?F (accepted acc)) q = (Inr tid, q')"
        and resp: "resp = \<lparr>resp_transaction_id = tid, resp_accepted = accepted acc, resp_rejected = rejected acc\<rparr>"
        by (auto simp: and_then_Inr_iff)
      from in_tx_Inr[OF tx] obtain x y where x: "tables x = tables q"
        and body: "store_batch E client ?F (accepted acc) x = (Inr tid, y)" and y: "tables q' = tables y" by auto
      note fin = store_judged_run[OF judged_at[OF x] False body, unfolded x, folded y]
      then have "grows q q'" by (blast intro: pushed_grows)
      moreover have "push_effect E client revs p resp q'"
        by (rule push_effectI[OF sub _ _ _ _ _ q]) (use fin parts False in \<open>simp_all add: resp acc\<close>)
      ultimately show ?thesis using Inr by simp
    next
      case (Inl e)
      with run have tx: "in_tx E (store_batch E client ?F (accepted acc)) q = (Inl e, q')"
        by (auto simp: and_then_Inl_iff)
      have seq: "seq_grows q q'" using alwaysD[OF always_in_tx_seq_grows[OF store_batch_seq_grows] tx] .
      from in_tx_Inl[OF tx] have "grows q q'"
      proof
        assume "e = Io \<and> (\<exists>x y a. tables x = tables q \<and> store_batch E client ?F (accepted acc) x = (Inr a, y) \<and>
          tables q' = tables y \<and> pg_commit_lost E (calls y))"
        then obtain x y a where x: "tables x = tables q" "store_batch E client ?F (accepted acc) x = (Inr a, y)"
          "tables q' = tables y" by auto
        from store_judged_run[OF judged_at[OF x(1)] False x(2)] show ?thesis
          unfolding x(1) x(3)[symmetric] by (blast intro: pushed_grows)
      qed (use sequence_grows[OF seq] in blast)
      with Inl show ?thesis by simp
    qed
  qed
qed

text \<open>The transaction is the last \<^verbatim>\<open>.await\<close>, and there is none where nothing was accepted.\<close>

lemma then_await_done: "then_task (await m) (\<lambda>a. done_ok (f a)) = await (and_then m (\<lambda>a. ok (f a)))"
  by (auto simp: then_task_def await_def and_then_def ok_def fun_eq_iff split: prod.split sum.split)

lemma store_task_effect:
  assumes judged: "judged_so_far client revs [] acc A (tables q)" and q: "grows p q"
  shows "ensures grows (\<lambda>r p'. case r of Inl e \<Rightarrow> True | Inr resp \<Rightarrow> push_effect E client revs p resp p')
    (let accepted_revisions = filter (\<lambda>r. rev_id r \<in> accepted_ids acc) revs in
     if accepted_revisions = []
     then done_ok \<lparr> resp_transaction_id = TransactionId 0, resp_accepted = accepted acc, resp_rejected = rejected acc \<rparr>
     else then_task (await (in_tx E (store_batch E client accepted_revisions (accepted acc))))
       (\<lambda>transaction_id. done_ok \<lparr> resp_transaction_id = transaction_id,
          resp_accepted = accepted acc, resp_rejected = rejected acc \<rparr>)) q"
proof (cases "filter (\<lambda>r. rev_id r \<in> accepted_ids acc) revs = []")
  case True
  then have "store_accepted E client revs acc q = (Inr \<lparr> resp_transaction_id = TransactionId 0,
      resp_accepted = accepted acc, resp_rejected = rejected acc \<rparr>, q)"
    by (simp add: store_accepted_def)
  from store_accepted_task[OF judged q this] True show ?thesis
    by (auto intro: push_effect_later)
next
  case False
  have "ensures grows (\<lambda>r p'. case r of Inl e \<Rightarrow> True | Inr resp \<Rightarrow> push_effect E client revs p resp p')
      (await (store_accepted E client revs acc)) q"
  proof (rule server.ensures_await)
    fix s r s'
    assume s: "grows q s" "store_accepted E client revs acc s = (r, s')"
    from store_accepted_task[OF judged_extends[OF judged grows_log[OF s(1)]] grows_trans[OF q s(1)] s(2)] show
      "grows s s' \<and> (\<forall>t. grows s' t \<longrightarrow> (case r of Inl e \<Rightarrow> True | Inr resp \<Rightarrow> push_effect E client revs p resp t))"
      by (auto split: sum.splits intro: push_effect_later)
  qed
  with False show ?thesis by (simp add: store_accepted_def[abs_def] Let_def then_await_done)
qed

lemma push_revisions_effect:
  "ensures grows (\<lambda>r p'. case r of Inl e \<Rightarrow> True | Inr resp \<Rightarrow> push_effect E client revs p resp p')
     (push_revisions_task E client revs) p"
proof -
  let ?I = "\<lambda>ys acc p'. grows p p' \<and> (\<exists>A. judged_so_far client revs ys acc A (tables p'))"
  have "ensures grows (\<lambda>r p'. case r of Inl e \<Rightarrow> True | Inr acc \<Rightarrow> ?I [] acc p')
      (fold_task (validate_revision_task E client) revs no_verdicts) p"
  proof (rule server.ensures_fold[where X = "\<lambda>_. True"])
    show "?I revs no_verdicts p" using judged_none grows_refl by blast
    show "?I [] acc q'" if "?I [] acc q" "grows q q'" for acc q q'
      using that judged_extends grows_log grows_trans by blast
    fix x ys acc q
    assume I: "?I (x # ys) acc q"
    then obtain A where A: "judged_so_far client revs (x # ys) acc A (tables q)" by blast
    from server.ensures_weaken[OF validate_revision_judged[OF A]]
    show "ensures grows (\<lambda>r p'. case r of Inl e \<Rightarrow> True | Inr acc' \<Rightarrow> ?I ys acc' p') (validate_revision_task E client x acc) q"
      by (rule server.ensures_weaken) (use I grows_trans in \<open>auto split: sum.splits\<close>)
  qed
  note judged = this
  let ?Q = "\<lambda>r p'. case r of Inl e \<Rightarrow> True | Inr resp \<Rightarrow> push_effect E client revs p resp p'"
  show ?thesis
    unfolding push_revisions_task_def
  proof (rule server.ensures_map_err[OF server.ensures_weaken[OF server.ensures_then[OF judged, where Q = ?Q]]])
    fix acc q
    assume "case Inr acc of Inl e \<Rightarrow> True | Inr acc \<Rightarrow> ?I [] acc q"
    then obtain A where A: "judged_so_far client revs [] acc A (tables q)" and q: "grows p q" by auto
    show "ensures grows ?Q (let accepted_revisions = filter (\<lambda>r. rev_id r \<in> accepted_ids acc) revs in
       if accepted_revisions = []
       then done_ok \<lparr> resp_transaction_id = TransactionId 0, resp_accepted = accepted acc, resp_rejected = rejected acc \<rparr>
       else then_task (await (in_tx E (store_batch E client accepted_revisions (accepted acc))))
         (\<lambda>transaction_id. done_ok \<lparr> resp_transaction_id = transaction_id,
            resp_accepted = accepted acc, resp_rejected = rejected acc \<rparr>)) q"
      by (rule store_task_effect[OF A q])
  qed (simp_all split: sum.splits)
qed

section \<open>Pull\<close>

text \<open>
  The updates \<open>ups\<close> are those of the objects \<open>W\<close> in the tables \<open>t\<close>: each object that has a matching
  head once, with all its heads.
\<close>

definition updates_exact ::
  "('n Value RevisionRow \<Rightarrow> bool) \<Rightarrow> uuid set \<Rightarrow> 'n Value tables \<Rightarrow> 'n Value ObjectUpdate list \<Rightarrow> bool" where
  "updates_exact passes W t ups \<longleftrightarrow>
     distinct (map upd_object_id ups) \<and>
     set (map upd_object_id ups) = ObjectId ` {ob \<in> W. \<exists>h \<in> head_set t ob. passes (row_at t h)} \<and>
     (\<forall>u \<in> set ups. distinct (map rev_id (upd_heads u)) \<and> upd_heads u \<noteq> [] \<and>
        set (upd_heads u) = (\<lambda>h. decoded t (row_at t h)) ` head_set t (object_uuid (upd_object_id u)) \<and>
        upd_action u = (if card (head_set t (object_uuid (upd_object_id u))) = 1 then Replace else Conflict))"

lemma updates_exact_none: "updates_exact passes {} t []"
  by (simp add: updates_exact_def)

lemma listed_updates_exact:
  assumes "db_inv t" "plans_permute E" "distinct cs"
  shows "updates_exact passes (set cs) t
    (map (\<lambda>ob. object_update ob (map (\<lambda>h. decoded t (row_at t h)) (rows_at ob (head_rows E t cs))))
      (filter (\<lambda>ob. \<exists>h. (ob, h) \<in> set (object_heads t) \<and> passes (row_at t h)) cs))"
proof -
  note heads = head_rows_facts[OF assms(1,2), of cs]
  have hs: "set (rows_at ob (head_rows E t cs)) = head_set t ob" "distinct (rows_at ob (head_rows E t cs))"
    if "ob \<in> set cs" for ob
    using that heads by (auto simp: head_set_def in_rows_at distinct_map inj_on_def simp del: set_map)
  let ?u = "\<lambda>ob. object_update ob (map (\<lambda>h. decoded t (row_at t h)) (rows_at ob (head_rows E t cs)))"
  let ?cs = "filter (\<lambda>ob. \<exists>h. (ob, h) \<in> set (object_heads t) \<and> passes (row_at t h)) cs"
  have ids: "map upd_object_id (map ?u ?cs) = map ObjectId ?cs" by (simp add: object_update_def)
  have heads_of: "distinct (map rev_id (upd_heads (?u ob))) \<and> upd_heads (?u ob) \<noteq> [] \<and>
      set (upd_heads (?u ob)) = (\<lambda>h. decoded t (row_at t h)) ` head_set t (object_uuid (upd_object_id (?u ob))) \<and>
      upd_action (?u ob) = (if card (head_set t (object_uuid (upd_object_id (?u ob)))) = 1 then Replace else Conflict)"
    if "ob \<in> set ?cs" for ob
  proof -
    from that have ob: "ob \<in> set cs" "head_set t ob \<noteq> {}" by (auto simp: head_set_def)
    then have "rows_at ob (head_rows E t cs) \<noteq> []" using hs(1) by (metis list.set(1))
    with map_decoded_heads[OF assms(1) hs[OF ob(1)]] show ?thesis by (auto simp: object_update_def)
  qed
  show ?thesis
    unfolding updates_exact_def
  proof (intro conjI)
    show "distinct (map upd_object_id (map ?u ?cs))"
      unfolding ids using assms(3) by (simp add: distinct_map inj_on_def)
    show "set (map upd_object_id (map ?u ?cs)) = ObjectId ` {ob \<in> set cs. \<exists>h \<in> head_set t ob. passes (row_at t h)}"
      unfolding ids by (auto simp: head_set_def)
  qed (use heads_of in \<open>simp only: list.set_map ball_simps\<close>, blast)
qed

text \<open>A pull that nobody interrupts\<close>

lemma updates_of_exact:
  assumes "db_inv t" "plans_permute E" "parents_fit t"
  shows "updates_exact passes (window t s u c) t (updates_of E passes s u c t)"
proof -
  let ?c = "plan_changed E (changed_objects t s u c)"
  have "distinct ?c"
    using assms(2) mset_eq_imp_distinct_iff[of ?c] distinct_changed_objects by (auto simp: plans_permute_def)
  from listed_updates_exact[OF assms(1,2) this] show ?thesis
    unfolding updates_of_eq[OF assms] set_changed_window[OF assms(2)] .
qed

lemma fetched_exact:
  assumes "fetch_object_updates E N client since up_to types created content p = (Inr ups, p')"
    and "db_inv (tables p)" "plans_permute E" "parents_fit (tables p)"
  shows "updates_exact (head_passes N types created content)
    (window (tables p) (since_i64 since) (uint (transaction_u64 up_to)) (client_uuid client)) (tables p) ups"
  unfolding conjunct2[OF fetch_run[OF assms(1)]] by (rule updates_of_exact[OF assms(2-4)])

lemma parents_fit_before: "parents_extend t t' \<Longrightarrow> parents_fit t' \<Longrightarrow> parents_fit t"
  by (auto simp: parents_extend_def parents_fit_def parents_of_def) (meson add_leD1)

lemma assemble_task_effect:
  assumes "db_inv (tables p)" "plans_permute E" "distinct cs" "set cs \<subseteq> row_object_id ` set (revisions (tables p))"
  shows "ensures grows (\<lambda>r p'. case r of Inl e \<Rightarrow> True | Inr ups \<Rightarrow> \<exists>q. grows p q \<and> grows q p' \<and>
      (parents_fit (tables p') \<longrightarrow> updates_exact passes (set cs) (tables q) ups)) (assemble_updates_task E passes cs) p"
    (is "ensures _ ?Q _ _")
proof -
  let ?ids = "\<lambda>q. map snd (head_rows E (tables q) cs)"
  let ?rows = "\<lambda>q s. plan_rows E (filter (\<lambda>r. row_id r \<in> set (?ids q)) (revisions (tables s)))"
  have heads: "ensures grows (\<lambda>r p'. case r of Inl e \<Rightarrow> True | Inr a \<Rightarrow> \<exists>q. grows p q \<and> grows q p' \<and> a = head_rows E (tables q) cs)
      (await (select_heads E cs)) p"
    by (rule await_reads) (auto simp: select_heads_def head_rows_def intro!: reads_query always_intros)
  have rows: "ensures grows (\<lambda>r p'. case r of Inl e \<Rightarrow> True | Inr a \<Rightarrow> \<exists>s. grows p1 s \<and> grows s p' \<and> a = ?rows q s)
      (await (get_revision_rows_by_ids E (?ids q))) p1" for q p1
    by (rule await_reads) (auto simp: get_revision_rows_by_ids_def intro!: reads_query always_intros)
  have parents: "ensures grows (\<lambda>r p'. case r of Inl e \<Rightarrow> True | Inr a \<Rightarrow> \<exists>s. grows p2 s \<and> grows s p' \<and> a = parents_found E (?ids q) (tables s))
      (await (get_parents_batch E (?ids q))) p2" for q p2
    by (rule await_reads[OF get_parents_batch_reads]) (intro always_intros)
  have exact: "updates_exact passes (set cs) (tables q)
      (build_updates (group_rows (head_rows E (tables q) cs) Map.empty) (parents_found E (?ids q) (tables s2)) passes cs
        (map_of (map (\<lambda>r. (row_id r, r)) (rev (?rows q s)))) [])"
    if "grows p q" "grows q s" "grows s s2" "grows s2 p'" "parents_fit (tables p')" for q s s2 p'
  proof -
    have inv: "db_inv (tables q)" "db_inv (tables s)" "db_inv (tables s2)" using assms(1) that grows_inv by blast+
    have "grows q s2" using that grows_trans by blast
    with that have later: "keeps_log q s" "parents_extend (tables q) (tables s2)" "parents_extend (tables s2) (tables p')"
      by (simp_all add: grows_def)
    have "set cs \<subseteq> row_object_id ` set (revisions (tables q))"
      using assms(4) grows_log[OF that(1)] by (auto simp: log_extends_def)
    have eq: "build_updates (group_rows (head_rows E (tables q) cs) Map.empty) (parents_found E (?ids q) (tables s2)) passes cs
        (map_of (map (\<lambda>r. (row_id r, r)) (rev (?rows q s)))) [] =
      map (\<lambda>ob. object_update ob (map (\<lambda>h. decoded (tables q) (row_at (tables q) h)) (rows_at ob (head_rows E (tables q) cs))))
        (filter (\<lambda>ob. \<exists>h. (ob, h) \<in> set (object_heads (tables q)) \<and> passes (row_at (tables q) h)) cs)"
    proof (rule build_updates_across[OF inv(1,2) assms(2) _ _ _ assms(3)])
      show "positions_ok (tables s2)" using inv(3) by (simp add: db_inv_def)
      show "parents_fit (tables s2)" using later(3) that(5) by (rule parents_fit_before)
      show "h \<in> known_ids (tables s) \<and> row_at (tables s) h = row_at (tables q) h \<and>
          parents_of (tables s2) h = parents_of (tables q) h" if "h \<in> known_ids (tables q)" for h
        using that row_at_extends[OF later(1)] parents_of_extends[OF later(2)] log_extends_known[OF later(1)] by blast
    qed fact
    show ?thesis unfolding eq by (rule listed_updates_exact[OF inv(1) assms(2,3)])
  qed
  show ?thesis
    unfolding assemble_updates_task_def
  proof (rule server.ensures_then[OF heads])
    fix a p1
    assume "case Inr a of Inl e \<Rightarrow> True | Inr a \<Rightarrow> \<exists>q. grows p q \<and> grows q p1 \<and> a = head_rows E (tables q) cs"
    then obtain q where q: "grows p q" "grows q p1" and a: "a = head_rows E (tables q) cs" by auto
    show "ensures grows ?Q (then_task (await (get_revision_rows_by_ids E (map snd a)))
        (\<lambda>revision_rows. then_task (await (get_parents_batch E (map snd a)))
           (\<lambda>parents_map. done_ok (build_updates (group_rows a Map.empty) parents_map passes cs
              (map_of (map (\<lambda>r. (row_id r, r)) (rev revision_rows))) [])))) p1"
      unfolding a
    proof (rule server.ensures_then[OF rows])
      fix b p2
      assume "case Inr b of Inl e \<Rightarrow> True | Inr a \<Rightarrow> \<exists>s. grows p1 s \<and> grows s p2 \<and> a = ?rows q s"
      then obtain s where s: "grows q s" "grows s p2" and b: "b = ?rows q s" using q grows_trans by fastforce
      show "ensures grows ?Q (then_task (await (get_parents_batch E (?ids q)))
           (\<lambda>parents_map. done_ok (build_updates (group_rows (head_rows E (tables q) cs) Map.empty) parents_map passes cs
              (map_of (map (\<lambda>r. (row_id r, r)) (rev b))) []))) p2"
        unfolding b
      proof (rule server.ensures_then[OF parents])
        fix c p3
        assume "case Inr c of Inl e \<Rightarrow> True | Inr a \<Rightarrow> \<exists>x. grows p2 x \<and> grows x p3 \<and> a = parents_found E (?ids q) (tables x)"
        then obtain s2 where s2: "grows s s2" "grows s2 p3" and c: "c = parents_found E (?ids q) (tables s2)"
          using s grows_trans by fastforce
        have "grows q p'" if "grows p3 p'" for p' using s(1) s2 that grows_trans by blast
        moreover have "grows s2 p'" if "grows p3 p'" for p' using s2 that grows_trans by blast
        ultimately show "ensures grows ?Q (done_ok (build_updates (group_rows (head_rows E (tables q) cs) Map.empty) c passes cs
              (map_of (map (\<lambda>r. (row_id r, r)) (rev (?rows q s)))) [])) p3"
          unfolding ensures_Done sum.case c using exact[OF q(1) s(1) s2(1)] q(1) by blast
      qed simp
    qed simp
  qed simp
qed

text \<open>
  The window of a pull ends with a transaction it has seen: what is in it does not change any
  more.
\<close>

lemma window_settled:
  assumes "db_inv t" "db_inv t'" "log_extends t t'"
  shows "window t' s (max_transaction_id t) c = window t s (max_transaction_id t) c"
proof (cases "s \<le> max_transaction_id t")
  case True
  from windows_join[OF assms True order_refl] show ?thesis by (auto simp: window_def)
next
  case False
  then show ?thesis by (auto simp: window_def)
qed

lemma fetch_task_effect:
  assumes "db_inv (tables p)" "plans_permute E"
  shows "ensures grows (\<lambda>r p'. case r of Inl e \<Rightarrow> True | Inr ups \<Rightarrow> \<exists>q1 q. grows p q1 \<and> grows q1 q \<and> grows q p' \<and>
      (parents_fit (tables p') \<longrightarrow> updates_exact (head_passes N types created content)
         (window (tables q1) (since_i64 since) (uint (transaction_u64 up_to)) (client_uuid client)) (tables q) ups))
    (fetch_object_updates_task E N client since up_to types created content) p"
    (is "ensures _ ?Q _ _")
proof (cases "uint (transaction_u64 up_to) > i64_max")
  case True
  then show ?thesis by (simp add: fetch_object_updates_task_def)
next
  case False
  let ?u = "uint (transaction_u64 up_to)" and ?s = "since_i64 since" and ?c = "client_uuid client"
  let ?changed = "\<lambda>t. plan_changed E (changed_objects t ?s ?u ?c)"
  have read: "ensures grows (\<lambda>r p'. case r of Inl e \<Rightarrow> True | Inr a \<Rightarrow> \<exists>q. grows p q \<and> grows q p' \<and> a = ?changed (tables q))
      (await (select_changed_objects E ?s ?u ?c)) p"
    by (rule await_reads) (auto simp: select_changed_objects_def intro!: reads_query always_intros)
  show ?thesis
    unfolding fetch_object_updates_task_def if_not_P[OF False]
  proof (rule server.ensures_then[OF read])
    fix changed p1
    assume "case Inr changed of Inl e \<Rightarrow> True | Inr a \<Rightarrow> \<exists>q. grows p q \<and> grows q p1 \<and> a = ?changed (tables q)"
    then obtain q1 where q1: "grows p q1" "grows q1 p1" and changed: "changed = ?changed (tables q1)" by auto
    have W: "set changed = window (tables q1) ?s ?u ?c" unfolding changed by (rule set_changed_window[OF assms(2)])
    have "mset changed = mset (changed_objects (tables q1) ?s ?u ?c)"
      unfolding changed using assms(2) by (simp add: plans_permute_def)
    then have dist: "distinct changed" using mset_eq_imp_distinct_iff distinct_changed_objects by blast
    have known: "set changed \<subseteq> row_object_id ` set (revisions (tables p1))"
      using grows_log[OF q1(2)] unfolding W window_def by (auto simp: log_extends_def)
    have inv: "db_inv (tables p1)" using assms(1) q1 grows_inv by blast
    show "ensures grows ?Q (if changed = [] then done_ok []
        else assemble_updates_task E (head_passes N types created content) changed) p1"
    proof (cases "changed = []")
      case True
      with W have "window (tables q1) ?s ?u ?c = {}" by simp
      then have "updates_exact (head_passes N types created content) (window (tables q1) ?s ?u ?c) (tables q1) []"
        by (simp add: updates_exact_none)
      then have "ensures grows ?Q (done_ok []) p1"
        unfolding ensures_Done sum.case using q1 grows_trans[OF q1(2)] grows_refl[of q1] by blast
      with True show ?thesis by simp
    next
      case False
      have "ensures grows ?Q (assemble_updates_task E (head_passes N types created content) changed) p1"
      proof (rule server.ensures_weaken[OF assemble_task_effect[OF inv assms(2) dist known]])
        fix r :: "sqlx_error + 'a Value ObjectUpdate list" and s
        assume effect: "case r of Inl e \<Rightarrow> True | Inr ups \<Rightarrow> \<exists>q. grows p1 q \<and> grows q s \<and>
          (parents_fit (tables s) \<longrightarrow> updates_exact (head_passes N types created content) (set changed) (tables q) ups)"
        show "?Q r s"
        proof (cases r)
          case (Inr ups)
          with effect obtain q where "grows p1 q" "grows q s"
            "parents_fit (tables s) \<longrightarrow> updates_exact (head_passes N types created content) (set changed) (tables q) ups" by auto
          moreover from this(1) q1(2) have "grows q1 q" by (rule grows_trans[rotated])
          ultimately show ?thesis using q1(1) unfolding Inr sum.case W by blast
        qed simp
      qed
      with False show ?thesis by simp
    qed
  qed simp
qed

text \<open>
  What a pull that overlaps with others answers: the cursor is the newest transaction of one
  state \<open>q0\<close>, the objects are those of the window up to it, and their heads are those of one
  later state \<open>q\<close>.
\<close>

definition pull_effect ::
  "('n, 'f) numbers \<Rightarrow> AuthInfo \<Rightarrow> 'n Value PullRequest \<Rightarrow> 'n Value pool \<Rightarrow> 'n Value PullResponse \<Rightarrow> 'n Value pool \<Rightarrow> bool" where
  "pull_effect N auth req p resp p' \<longleftrightarrow>
     (\<exists>q0 q. grows p q0 \<and> grows q0 q \<and> grows q p' \<and>
        up_to_transaction resp = TransactionId (word_of_int (max_transaction_id (tables q0))) \<and>
        (parents_fit (tables p') \<longrightarrow>
           updates_exact (head_passes N (pull_object_types req) (pull_created_at req) (pull_filter req))
             (window (tables q0) (since_i64 (pull_since req)) (max_transaction_id (tables q0)) (client_uuid (auth_client_id auth)))
             (tables q) (object_updates resp)))"

lemma pull_changes_effect:
  assumes "db_inv (tables p)" "plans_permute E"
  shows "ensures grows (\<lambda>r p'. case r of Inl e \<Rightarrow> True
      | Inr resp \<Rightarrow> \<exists>answer. resp = respond 200 (Json_Pull answer) \<and> pull_effect N auth req p answer p')
    (pull_changes_task E N auth req) p" (is "ensures _ ?Q _ _")
proof -
  have latest: "ensures grows (\<lambda>r p'. case r of Inl e \<Rightarrow> True
      | Inr a \<Rightarrow> \<exists>q. grows p q \<and> grows q p' \<and> a = word_of_int (max_transaction_id (tables q)))
    (map_err_task Err_Database (await (latest_transaction_id E))) p"
    by (rule server.ensures_map_err, rule server.ensures_weaken[OF await_reads[where f = "\<lambda>t. word_of_int (max_transaction_id t)"]])
      (auto simp: latest_transaction_id_def intro!: reads_query always_intros split: sum.splits)
  let ?fetch = "\<lambda>m. map_err_task Err_Database (fetch_object_updates_task E N (auth_client_id auth) (pull_since req)
      (TransactionId m) (pull_object_types req) (pull_created_at req) (pull_filter req))"
  let ?passes = "head_passes N (pull_object_types req) (pull_created_at req) (pull_filter req)"
  let ?W = "\<lambda>t u. window t (since_i64 (pull_since req)) u (client_uuid (auth_client_id auth))"
  have rest: "ensures grows ?Q (then_task (?fetch m) (\<lambda>updates. done_ok (respond 200 (Json_Pull
      \<lparr> up_to_transaction = TransactionId m, object_updates = updates \<rparr>)))) p1"
    if q0: "grows p q0" "grows q0 p1" and m: "m = word_of_int (max_transaction_id (tables q0))" for m q0 p1
  proof -
    have inv: "db_inv (tables q0)" "db_inv (tables p1)" using assms(1) q0 grows_inv by blast+
    have u: "uint (transaction_u64 (TransactionId m)) = max_transaction_id (tables q0)"
      by (simp add: m max_transaction_u64[OF inv(1)])
    have same: "?W (tables q1) (max_transaction_id (tables q0)) = ?W (tables q0) (max_transaction_id (tables q0))"
      if "grows p1 q1" for q1
      using window_settled[OF inv(1)] grows_inv[OF inv(2) that] grows_log[OF grows_trans[OF q0(2) that]] by blast
    have "ensures grows (\<lambda>r p'. case r of Inl e \<Rightarrow> True | Inr ups \<Rightarrow> \<exists>q1 q. grows p1 q1 \<and> grows q1 q \<and> grows q p' \<and>
        (parents_fit (tables p') \<longrightarrow> updates_exact ?passes (?W (tables q1) (max_transaction_id (tables q0))) (tables q) ups))
      (?fetch m) p1"
      by (rule server.ensures_map_err, rule server.ensures_weaken[OF fetch_task_effect[OF inv(2) assms(2)]])
        (simp_all only: u split: sum.splits, auto)
    then show ?thesis
    proof (rule server.ensures_then)
      fix ups p2
      assume "case Inr ups of Inl e \<Rightarrow> True | Inr ups \<Rightarrow> \<exists>q1 q. grows p1 q1 \<and> grows q1 q \<and> grows q p2 \<and>
        (parents_fit (tables p2) \<longrightarrow> updates_exact ?passes (?W (tables q1) (max_transaction_id (tables q0))) (tables q) ups)"
      then obtain q1 q where q: "grows p1 q1" "grows q1 q" "grows q p2"
        and ups: "parents_fit (tables p2) \<longrightarrow> updates_exact ?passes (?W (tables q0) (max_transaction_id (tables q0))) (tables q) ups"
        using same by auto
      have "pull_effect N auth req p \<lparr>up_to_transaction = TransactionId m, object_updates = ups\<rparr> p'" if "grows p2 p'" for p'
      proof -
        have "grows q0 q" "grows q p'" using q0 q that grows_trans by blast+
        moreover have "parents_fit (tables p2)" if "parents_fit (tables p')"
          using parents_fit_before that \<open>grows p2 p'\<close> by (auto simp: grows_def)
        ultimately show ?thesis unfolding pull_effect_def using q0(1) ups m by auto
      qed
      then show "ensures grows ?Q (done_ok (respond 200 (Json_Pull \<lparr>up_to_transaction = TransactionId m, object_updates = ups\<rparr>))) p2"
        unfolding ensures_Done sum.case by blast
    qed simp
  qed
  show ?thesis
    unfolding pull_changes_task_def
    by (auto intro!: server.ensures_then[OF latest] intro: rest)
qed

end
