(* ===== verification/Overlap.thy ===== *)
theory Overlap
  imports Interleaving
begin

text \<open>
  The server with any number of requests under way: requests arrive, wait for the database, are
  resumed in any order and dropped when their client goes away. The invariant of the database
  holds throughout, and an answer that is given says what the request has done.
\<close>

section \<open>Every request respects the growth of the database\<close>

abbreviation unaffected :: "('e + 'a) \<Rightarrow> 'v pool \<Rightarrow> bool" where
  "unaffected \<equiv> \<lambda>_ _. True"

named_theorems respects_intros \<open>rules for \<open>ensures grows unaffected\<close>\<close>

lemma respects_done [respects_intros]: "ensures grows unaffected (Done r) p"
  by simp

lemma respects_await [respects_intros]: "always grows m \<Longrightarrow> ensures grows unaffected (await m) p"
  by (rule await_grows)

lemma respects_then [respects_intros]:
  "(\<And>q. ensures grows unaffected c q) \<Longrightarrow> (\<And>a q. ensures grows unaffected (k a) q) \<Longrightarrow>
   ensures grows unaffected (then_task c k) p"
  by (rule server.ensures_then) simp_all

lemma respects_map_err [respects_intros]:
  "ensures grows unaffected c p \<Longrightarrow> ensures grows unaffected (map_err_task g c) p"
  by (rule server.ensures_map_err)

lemma respects_on_result [respects_intros]:
  "(\<And>q. ensures grows unaffected c q) \<Longrightarrow> (\<And>r q. ensures grows unaffected (k r) q) \<Longrightarrow>
   ensures grows unaffected (on_result k c) p"
  by (rule server.ensures_on_result) simp_all

lemma respects_if [respects_intros]:
  "ensures grows unaffected c p \<Longrightarrow> ensures grows unaffected d p \<Longrightarrow> ensures grows unaffected (if b then c else d) p"
  by simp

lemma push_task_respects [respects_intros]: "ensures grows unaffected (push_revisions_task E client revs) p"
  by (rule server.ensures_weaken[OF push_revisions_effect]) simp

lemma reads_grow [respects_intros]:
  "always grows (get_revision_rows_by_ids E ids)" "always grows (get_parents_batch E ids)"
  "always grows (latest_transaction_id E)" "always grows (in_tx E (get_heads E i))"
  "always grows (select_heads E obs)" "always grows (select_changed_objects E s u c)"
  "always grows (get_file_handler E' i)" "always grows (whoami auth)"
  unfolding select_heads_def select_changed_objects_def get_file_handler_def whoami_def
  by (intro reading_grows in_tx_same_tables always_intros; simp)+

lemma handler_statement_grows:
  assumes "always grows m"
  shows "always grows (and_then (map_err Err_Database m) (\<lambda>_. ok resp))"
  by (intro always_and_then always_map_err assms always_ok)
    (auto simp: transp_def reflp_def grows_refl intro: grows_trans)

lemma dispatch_task_respects: "ensures grows unaffected (dispatch_task E N auth e) p"
proof (cases e)
  case (Post_Changes req)
  then show ?thesis by (simp add: push_changes_task_def) (intro respects_intros)
next
  case (Post_Changes_Query req)
  then show ?thesis
    by (simp only: dispatch_task.simps pull_changes_task_def fetch_object_updates_task_def assemble_updates_task_def)
      (intro respects_intros)
next
  case (Get_Object i)
  then show ?thesis
    by (simp only: dispatch_task.simps get_object_task_def) (intro respects_intros)
next
  case (Post_File i bytes)
  then show ?thesis
    by (simp add: upload_file_def) (intro respects_intros handler_statement_grows single_statements_grow)
next
  case (Delete_File i)
  then show ?thesis
    by (simp add: delete_file_handler_def) (intro respects_intros handler_statement_grows single_statements_grow)
qed (auto intro!: respects_intros simp del: ensures_iff)

text \<open>
  A fact \<open>P\<close> about the answer of a handler, for the caller that the provider named, is a fact
  about the answer of the request. The other answers are those of the authentication.
\<close>

lemma request_task_result:
  assumes "\<And>ip info q. extract_ip req (store_ip_source store) = Some ip \<Longrightarrow> store_auth store ip = Inr info \<Longrightarrow> grows p q \<Longrightarrow>
      ensures grows (\<lambda>r p'. P info (case r of Inl e \<Rightarrow> into_response e | Inr resp \<Rightarrow> resp) q p') (dispatch_task E N info (endpoint req)) q"
    and "\<And>info resp q p'. grows p q \<Longrightarrow> P info resp q p' \<Longrightarrow> P info resp p p'"
  shows "ensures grows (\<lambda>r p'. \<exists>resp. r = Inr resp \<and> (resp \<in> {unauthenticated, provider_error} \<or>
      (\<exists>ip info. extract_ip req (store_ip_source store) = Some ip \<and> store_auth store ip = Inr info \<and> P info resp p p')))
    (request_task E N store req) p" (is "ensures _ ?Q _ _")
proof -
  have "ensures grows ?Q (on_result
      (\<lambda>registered. case registered of
         Inl _ \<Rightarrow> done_ok provider_error
       | Inr _ \<Rightarrow> on_result (\<lambda>r. done_ok (case r of Inl e \<Rightarrow> into_response e | Inr resp \<Rightarrow> resp))
                    (dispatch_task E N info (endpoint req)))
      (await (upsert_client E (auth_client_id info) (auth_user_id info)))) p"
    if who: "extract_ip req (store_ip_source store) = Some ip" "store_auth store ip = Inr info" for ip info
  proof (rule server.ensures_on_result[OF await_grows[OF single_statements_grow(1)]])
    fix registered :: "sqlx_error + unit" and q
    assume q: "grows p q"
    show "ensures grows ?Q (case registered of Inl _ \<Rightarrow> done_ok provider_error
        | Inr _ \<Rightarrow> on_result (\<lambda>r. done_ok (case r of Inl e \<Rightarrow> into_response e | Inr resp \<Rightarrow> resp))
                     (dispatch_task E N info (endpoint req))) q"
    proof (cases registered)
      case (Inr x)
      have "ensures grows ?Q (on_result (\<lambda>r. done_ok (case r of Inl e \<Rightarrow> into_response e | Inr resp \<Rightarrow> resp))
          (dispatch_task E N info (endpoint req))) q"
        by (rule server.ensures_on_result[OF assms(1)[OF who q]])
          (use assms(2)[OF q] who in \<open>auto split: sum.split\<close>)
      with Inr show ?thesis by simp
    qed simp
  qed
  then show ?thesis
    unfolding request_task_def by (auto split: option.split sum.split AuthError.split)
qed

lemma request_task_respects: "ensures grows unaffected (request_task E N store req) p"
  by (rule server.ensures_weaken[OF request_task_result[where P = "\<lambda>_ _ _ _. True"]])
    (simp_all add: dispatch_task_respects)

section \<open>Overlapping requests\<close>

inductive arriving :: "('n, 'f) numbers \<Rightarrow> 'n Value handler_task \<Rightarrow> bool" for N where
  request: "arriving N (request_task E N store req)"

text \<open>The requests under way, each with its task at arrival and the database then\<close>

type_synonym 'v under_way = "('v handler_task \<times> 'v pool \<times> 'v handler_task) list"

definition overlapped :: "('n, 'f) numbers \<Rightarrow> 'n Value pool \<Rightarrow> 'n Value under_way \<Rightarrow> bool" where
  "overlapped N = overlapping (\<lambda>p. tables p = empty_tables) (arriving N)"

lemma overlapped_run:
  assumes "overlapped N p ts"
  shows "db_inv (tables p)"
    and "(c, p0, c') \<in> set ts \<Longrightarrow> db_inv (tables p0) \<and> during grows c p0 c' p"
proof -
  have "db_inv (tables p) \<and> (\<forall>(c, p0, c') \<in> set ts. arriving N c \<and> db_inv (tables p0) \<and> during grows c p0 c' p)"
    by (rule server.overlapping_inv[OF assms[unfolded overlapped_def], where I = "\<lambda>p. db_inv (tables p)"])
      (auto simp: db_inv_empty intro: grows_inv request_task_respects elim!: arriving.cases)
  then show "db_inv (tables p)" "(c, p0, c') \<in> set ts \<Longrightarrow> db_inv (tables p0) \<and> during grows c p0 c' p"
    by auto
qed

text \<open>Requests that run one after the other are the special case without interruptions.\<close>

lemma reachable_overlapped: "reachable N p \<Longrightarrow> overlapped N p []"
proof (induction rule: reachable.induct)
  case (start p)
  then show ?case unfolding overlapped_def by (rule overlapping.start)
next
  case (step p p')
  from step.hyps(2) obtain E store req resp where "router E N store req p = (resp, p')" by (rule servedE)
  then have run: "uninterrupted (request_task E N store req) p = (Inr resp, p')"
    by (simp add: uninterrupted_request)
  from step.IH have "overlapping (\<lambda>p. tables p = empty_tables) (arriving N) p
      ([] @ [(request_task E N store req, p, request_task E N store req)])"
    unfolding overlapped_def by (rule overlapping.arrive) (rule request)
  from overlapping.drop[OF overlapping_uninterrupted[OF this run]] show ?case
    by (simp add: overlapped_def)
qed

section \<open>What overlapping requests have done\<close>

lemma push_effect_earlier: "grows p q \<Longrightarrow> push_effect E client revs q resp p' \<Longrightarrow> push_effect E client revs p resp p'"
  unfolding push_effect_def using grows_trans by blast

lemma pull_effect_earlier: "grows p q \<Longrightarrow> pull_effect N auth req q resp p' \<Longrightarrow> pull_effect N auth req p resp p'"
  unfolding pull_effect_def using grows_trans by blast

lemma into_response_body [simp]:
  "body (into_response e) \<noteq> Json_Push x" "body (into_response e) \<noteq> Json_Pull y"
  by (cases e; simp add: into_response_def respond_def)+

lemma respond_body [simp]: "body (respond n b) = b"
  by (simp add: respond_def)

lemma respond_inject [simp]: "respond n b = respond m b' \<longleftrightarrow> n = m \<and> b = b'"
  by (simp add: respond_def)

lemma push_task_answer:
  assumes "endpoint req = Post_Changes batch"
  shows "ensures grows (\<lambda>r p'. \<forall>presp. body (case r of Inl e \<Rightarrow> into_response e | Inr resp \<Rightarrow> resp) = Json_Push presp \<longrightarrow>
      push_effect E (auth_client_id info) (push_req_revisions batch) q presp p')
    (dispatch_task E N info (endpoint req)) q"
  unfolding assms dispatch_task.simps push_changes_task_def
  by (rule server.ensures_then[OF push_revisions_effect])
    (auto intro: push_effect_later)

lemma pull_task_answer:
  assumes "endpoint req = Post_Changes_Query pull" "db_inv (tables q)" "plans_permute E"
  shows "ensures grows (\<lambda>r p'. \<forall>answer. body (case r of Inl e \<Rightarrow> into_response e | Inr resp \<Rightarrow> resp) = Json_Pull answer \<longrightarrow>
      pull_effect N info pull q answer p')
    (dispatch_task E N info (endpoint req)) q"
  unfolding assms(1) dispatch_task.simps
  by (rule server.ensures_weaken[OF pull_changes_effect[OF assms(2,3)]])
    (auto split: sum.splits)

text \<open>The same for the answer of the request\<close>

lemma request_push_answer:
  assumes "endpoint req = Post_Changes batch"
  shows "ensures grows (\<lambda>r p'. \<exists>resp. r = Inr resp \<and> (\<forall>presp. body resp = Json_Push presp \<longrightarrow>
      (\<exists>ip info. extract_ip req (store_ip_source store) = Some ip \<and> store_auth store ip = Inr info \<and>
        push_effect E (auth_client_id info) (push_req_revisions batch) p presp p')))
    (request_task E N store req) p"
proof -
  let ?P = "\<lambda>info resp p p'. \<forall>presp. body resp = Json_Push presp \<longrightarrow>
      push_effect E (auth_client_id info) (push_req_revisions batch) p presp p'"
  have "ensures grows (\<lambda>r p'. \<exists>resp. r = Inr resp \<and> (resp \<in> {unauthenticated, provider_error} \<or>
      (\<exists>ip info. extract_ip req (store_ip_source store) = Some ip \<and> store_auth store ip = Inr info \<and> ?P info resp p p')))
    (request_task E N store req) p"
  proof (rule request_task_result)
    fix ip info q
    assume "grows p q"
    then show "ensures grows (\<lambda>r p'. ?P info (case r of Inl e \<Rightarrow> into_response e | Inr resp \<Rightarrow> resp) q p')
        (dispatch_task E N info (endpoint req)) q"
      by (intro push_task_answer[OF assms])
  qed (use push_effect_earlier in blast)
  then show ?thesis
    by (rule server.ensures_weaken) (auto simp: unauthenticated_def provider_error_def)
qed

lemma request_pull_answer:
  assumes "endpoint req = Post_Changes_Query pull" "db_inv (tables p)" "plans_permute E"
  shows "ensures grows (\<lambda>r p'. \<exists>resp. r = Inr resp \<and> (\<forall>answer. body resp = Json_Pull answer \<longrightarrow>
      (\<exists>ip info. extract_ip req (store_ip_source store) = Some ip \<and> store_auth store ip = Inr info \<and>
        pull_effect N info pull p answer p')))
    (request_task E N store req) p"
proof -
  let ?P = "\<lambda>info resp p p'. \<forall>answer. body resp = Json_Pull answer \<longrightarrow> pull_effect N info pull p answer p'"
  have "ensures grows (\<lambda>r p'. \<exists>resp. r = Inr resp \<and> (resp \<in> {unauthenticated, provider_error} \<or>
      (\<exists>ip info. extract_ip req (store_ip_source store) = Some ip \<and> store_auth store ip = Inr info \<and> ?P info resp p p')))
    (request_task E N store req) p"
  proof (rule request_task_result)
    fix ip info q
    assume "grows p q"
    then show "ensures grows (\<lambda>r p'. ?P info (case r of Inl e \<Rightarrow> into_response e | Inr resp \<Rightarrow> resp) q p')
        (dispatch_task E N info (endpoint req)) q"
      by (intro pull_task_answer[OF assms(1) grows_inv[OF assms(2)] assms(3)])
  qed (use pull_effect_earlier in blast)
  then show ?thesis
    by (rule server.ensures_weaken) (auto simp: unauthenticated_def provider_error_def)
qed

subsection \<open>A run with three requests\<close>

text \<open>
  Two clients push and one of them pulls at the same time. In the order below the pull reads its
  cursor before the second push commits and the heads after it.
\<close>

definition request_from :: "nat list \<Rightarrow> nat Value Endpoint \<Rightarrow> nat Value Request" where
  "request_from ip e = \<lparr> peer = Some (V4 ip), req_headers = [], endpoint = e \<rparr>"

definition sample_task :: "nat list \<Rightarrow> nat Value Endpoint \<Rightarrow> nat Value handler_task" where
  "sample_task ip e = request_task sample_env sample_numbers (ServerStore_new sample_auth) (request_from ip e)"

abbreviation push_of :: "nat Value Revision list \<Rightarrow> nat Value Endpoint" where
  "push_of rs \<equiv> Post_Changes \<lparr> push_req_revisions = rs \<rparr>"

abbreviation pull_everything :: "nat Value PullRequest" where
  "pull_everything \<equiv> \<lparr> pull_since = None, pull_object_types = None, pull_created_at = None, pull_filter = None \<rparr>"

definition race_tasks :: "nat Value under_way" where
  "race_tasks = map (\<lambda>c. (c, empty_pool, c))
     [sample_task [10, 0, 0, 1] (push_of [sample_root, sample_update]),
      sample_task [10, 0, 0, 2] (push_of [sample_branch]),
      sample_task [10, 0, 0, 2] (Post_Changes_Query pull_everything)]"

definition race :: "nat list \<Rightarrow> nat Value under_way \<times> nat Value pool" where
  "race order = scheduled order (race_tasks, empty_pool)"

abbreviation late_heads :: "nat list" where
  "late_heads \<equiv> [0, 0, 0, 0, 0, 2, 2, 1, 0, 2, 1, 1, 1, 2, 2, 2, 1, 2, 2]"

definition answer_of :: "nat Value handler_task \<Rightarrow> nat Value Response option" where
  "answer_of c = (case c of Done (Inr resp) \<Rightarrow> Some resp | _ \<Rightarrow> None)"

lemma answer_of_iff: "answer_of c = Some resp \<longleftrightarrow> c = done_ok resp"
  by (auto simp: answer_of_def split: task.split sum.split)

lemma race_overlapped: "overlapped sample_numbers (snd (race order)) (fst (race order))"
proof -
  let ?O = "overlapping (\<lambda>p. tables p = empty_tables) (arriving sample_numbers)"
  have "arriving sample_numbers (sample_task ip e)" for ip e unfolding sample_task_def by (rule request)
  then have arrive: "?O p ts \<Longrightarrow> ?O p (ts @ [(sample_task ip e, p, sample_task ip e)])" for p ts ip e
    by (rule overlapping.arrive[rotated])
  have "?O empty_pool []" by (rule overlapping.start) (simp add: empty_pool_def)
  from arrive[OF arrive[OF arrive[OF this]]] have "?O empty_pool race_tasks" by (simp add: race_tasks_def)
  from overlapping_scheduled[OF this prod.collapse[symmetric]] show ?thesis
    by (simp add: overlapped_def race_def)
qed

lemma race_under_way:
  assumes "i < 3" "map (\<lambda>(_, _, c). answer_of c) (fst (race order)) ! i = Some resp"
  shows "(fst (race_tasks ! i), empty_pool, done_ok resp) \<in> set (fst (race order))"
proof -
  have origins: "map (\<lambda>(c, s0, _). (c, s0)) (fst (race order)) = map (\<lambda>(c, s0, _). (c, s0)) race_tasks"
    unfolding race_def by (rule scheduled_origins)
  have len: "length (fst (race order)) = 3"
    using arg_cong[OF origins, of length] by (simp add: race_tasks_def)
  obtain c s0 c' where at: "fst (race order) ! i = (c, s0, c')" by (cases "fst (race order) ! i")
  have "length race_tasks = 3" by (simp add: race_tasks_def)
  with arg_cong[OF origins, of "\<lambda>xs. xs ! i"] have "(c, s0) = (\<lambda>(c, s0, _). (c, s0)) (race_tasks ! i)"
    using assms(1) at len by simp
  moreover have "snd (race_tasks ! i) = (empty_pool, fst (race_tasks ! i))"
    using assms(1) by (auto simp: race_tasks_def less_Suc_eq numeral_3_eq_3)
  ultimately have "c = fst (race_tasks ! i)" "s0 = empty_pool" by (auto split: prod.splits)
  moreover have "c' = done_ok resp" using assms len at by (simp add: answer_of_iff)
  ultimately show ?thesis using nth_mem[of i "fst (race order)"] assms(1) len at by simp
qed

lemma late_heads_answers:
  "map (\<lambda>(_, _, c). answer_of c) (fst (race late_heads)) =
     [Some (respond 200 (Json_Push \<lparr>resp_transaction_id = TransactionId 1, resp_accepted = [RevisionId 1, RevisionId 2], resp_rejected = []\<rparr>)),
      Some (respond 200 (Json_Push \<lparr>resp_transaction_id = TransactionId 2, resp_accepted = [RevisionId 3], resp_rejected = []\<rparr>)),
      Some (respond 200 (Json_Pull \<lparr>up_to_transaction = TransactionId 1,
        object_updates = [\<lparr>upd_object_id = ObjectId 10, upd_action = Conflict, upd_heads = [sample_update, sample_branch]\<rparr>]\<rparr>))]"
  by code_simp

text \<open>
  Verdicts may be old by the time they are given. In the first run below the parent of a revision
  is stored between the look-up that misses it and the transaction of the same batch: the
  revision is rejected for its unknown parent in an answer that names a later transaction than
  that of the parent. In the second run a client repeats a push whose answer it still waits for:
  both pass the validation, and the second transaction fails on the primary key and is answered
  with an internal error where a later repetition is answered with a rejection.
\<close>

definition stale_run :: "nat Value under_way \<times> nat Value pool" where
  "stale_run = scheduled [0, 0, 0, 1, 1, 1, 0, 1, 1]
     (map (\<lambda>c. (c, empty_pool, c))
       [sample_task [10, 0, 0, 1] (push_of [sample_root, sample_update]),
        sample_task [10, 0, 0, 2] (push_of [sample_branch, unrelated_root])], empty_pool)"

definition repeated_run :: "nat Value under_way \<times> nat Value pool" where
  "repeated_run = scheduled [0, 0, 1, 1, 0, 1]
     (replicate 2 (sample_task [10, 0, 0, 1] (push_of [sample_root]), empty_pool, sample_task [10, 0, 0, 1] (push_of [sample_root])), empty_pool)"

theorem stale_rejection:
  "map (\<lambda>(_, _, c). answer_of c) (fst stale_run) =
     [Some (respond 200 (Json_Push \<lparr>resp_transaction_id = TransactionId 1, resp_accepted = [RevisionId 1, RevisionId 2], resp_rejected = []\<rparr>)),
      Some (respond 200 (Json_Push \<lparr>resp_transaction_id = TransactionId 2, resp_accepted = [RevisionId 5],
        resp_rejected = [\<lparr>rejected_revision_id = RevisionId 3, rejected_reason = UnknownParent\<rparr>]\<rparr>))]"
  by code_simp

theorem overlapping_retry:
  "map (\<lambda>(_, _, c). answer_of c) (fst repeated_run) =
     [Some (respond 200 (Json_Push \<lparr>resp_transaction_id = TransactionId 1, resp_accepted = [RevisionId 1], resp_rejected = []\<rparr>)),
      Some (respond 500 (Json_Error ''internal server error''))]"
  by code_simp

text \<open>
  C2: However many requests overlap, in whatever order they are resumed and wherever they are
  dropped: in every state of the database the heads kept for an object are exactly its revisions
  without children, the parent relation has no cycle and stays within one object, and every
  revision is a head or an ancestor of a head of its object. In particular the verdicts of a
  push, which may be old when its transaction runs, never let a revision in that breaks this.
\<close>

theorem overlapped_heads:
  assumes "overlapped N p ts"
  shows "db_inv (tables p) \<and>
    head_set (tables p) ob = {i. object_of (tables p) i = Some ob \<and> (\<forall>c. (i, c) \<notin> parent_edges (tables p))} \<and>
    acyclic (parent_edges (tables p)) \<and>
    (\<forall>(q, c) \<in> parent_edges (tables p). object_of (tables p) q \<noteq> None \<and> object_of (tables p) c = object_of (tables p) q) \<and>
    (\<forall>i. object_of (tables p) i = Some ob \<longrightarrow>
       (\<exists>h \<in> head_set (tables p) ob. (i, h) \<in> (parent_edges (tables p))\<^sup>*))"
  using overlapped_run(1)[OF assms] by (intro conjI db_inv_graph)

theorem overlapped_heads_witness:
  "head_set (tables (snd (race late_heads))) 10 =
     {i. object_of (tables (snd (race late_heads))) i = Some 10 \<and> (\<forall>c. (i, c) \<notin> parent_edges (tables (snd (race late_heads))))}"
  using overlapped_heads[OF race_overlapped, of late_heads 10] by blast

text \<open>
  C6: A push that overlaps with other requests and is answered has had the effect of one atomic
  push on one state of the database between its arrival and its answer: of the revisions it
  accepted, all of which would have been accepted on that state as a batch of their own. It answers for
  every revision of the batch once.
\<close>

theorem overlapped_push:
  assumes "overlapped N p ts" "(request_task E N store req, p0, done_ok (respond 200 (Json_Push resp))) \<in> set ts"
    and "endpoint req = Post_Changes batch"
  shows "\<exists>ip info. extract_ip req (store_ip_source store) = Some ip \<and> store_auth store ip = Inr info \<and>
    (\<exists>A q q'. subseq A (push_req_revisions batch) \<and>
       mset (map rev_id A) + mset (map rejected_revision_id (resp_rejected resp)) = mset (map rev_id (push_req_revisions batch)) \<and>
       accepted_revs (tables q) (auth_client_id info) Map.empty A = A \<and>
       resp = (push_answer (auth_client_id info) A (tables q))\<lparr>resp_rejected := resp_rejected resp\<rparr> \<and>
       pushed E (auth_client_id info) A (tables q) (tables q') \<and>
       db_inv (tables q) \<and> grows p0 q \<and> grows q' p)"
proof -
  from server.ensures_result[OF request_push_answer[OF assms(3)] conjunct2[OF overlapped_run(2)[OF assms(1,2)]]]
  obtain ip info where "extract_ip req (store_ip_source store) = Some ip" "store_auth store ip = Inr info"
    and "push_effect E (auth_client_id info) (push_req_revisions batch) p0 resp p" by auto
  with grows_inv[of p0] overlapped_run(2)[OF assms(1,2)] show ?thesis unfolding push_effect_def by blast
qed

theorem overlapped_push_witness:
  "\<exists>A q q'. map rev_id A = [RevisionId 3] \<and> pushed sample_env other_client A (tables q) (tables q') \<and>
     accepted_revs (tables q) other_client Map.empty A = A \<and> db_inv (tables q) \<and>
     grows empty_pool q \<and> grows q' (snd (race late_heads))"
proof -
  let ?resp = "\<lparr>resp_transaction_id = TransactionId 2, resp_accepted = [RevisionId 3], resp_rejected = []\<rparr>"
  let ?req = "request_from [10, 0, 0, 2] (push_of [sample_branch])" and ?store = "ServerStore_new sample_auth"
  have mem: "(sample_task [10, 0, 0, 2] (push_of [sample_branch]), empty_pool, done_ok (respond 200 (Json_Push ?resp)))
    \<in> set (fst (race late_heads))"
    using race_under_way[of 1 late_heads] unfolding late_heads_answers by (simp add: race_tasks_def)
  have ends: "endpoint ?req = push_of [sample_branch]" by (simp add: request_from_def)
  from overlapped_push[OF race_overlapped mem[unfolded sample_task_def] ends] obtain ip info A q q'
    where who: "extract_ip ?req (store_ip_source ?store) = Some ip" "store_auth ?store ip = Inr info"
    and run: "pushed sample_env (auth_client_id info) A (tables q) (tables q')" "db_inv (tables q)"
      "accepted_revs (tables q) (auth_client_id info) Map.empty A = A"
      "grows empty_pool q" "grows q' (snd (race late_heads))"
      "?resp = (push_answer (auth_client_id info) A (tables q))\<lparr>resp_rejected := resp_rejected ?resp\<rparr>"
    by blast
  from who have me: "auth_client_id info = other_client"
    by (auto simp: extract_ip_def request_from_def sample_auth_def ServerStore_new_def split: if_splits)
  have "map rev_id A = [RevisionId 3]"
    using arg_cong[OF run(6), of resp_accepted] run(3) by simp
  with run(1-5) show ?thesis unfolding me by (intro exI[where x = A] exI[where x = q] exI[where x = q'] conjI)
qed

text \<open>
  C7: A pull that overlaps with other requests answers consistently: the cursor is the newest
  transaction of one state of the database after its arrival, the objects are exactly those of the
  window up to that cursor that somebody else changed and that have a matching head, and the heads
  are all heads these objects have in one later state, decoded as they are stored. Nothing of the
  window is lost to requests that came in between.
\<close>

theorem overlapped_pull:
  assumes "overlapped N p ts" "(request_task E N store req, p0, done_ok (respond 200 (Json_Pull resp))) \<in> set ts"
    and "endpoint req = Post_Changes_Query pull" "plans_permute E" "parents_fit (tables p)"
  shows "\<exists>ip info. extract_ip req (store_ip_source store) = Some ip \<and> store_auth store ip = Inr info \<and>
    (\<exists>q0 q. db_inv (tables q) \<and> grows p0 q0 \<and> grows q0 q \<and> grows q p \<and>
       up_to_transaction resp = TransactionId (word_of_int (max_transaction_id (tables q0))) \<and>
       updates_exact (head_passes N (pull_object_types pull) (pull_created_at pull) (pull_filter pull))
         (window (tables q0) (since_i64 (pull_since pull)) (max_transaction_id (tables q0)) (client_uuid (auth_client_id info)))
         (tables q) (object_updates resp))"
proof -
  note run = overlapped_run(2)[OF assms(1,2)]
  from server.ensures_result[OF request_pull_answer[OF assms(3) conjunct1[OF run] assms(4)] conjunct2[OF run]]
  obtain ip info where who: "extract_ip req (store_ip_source store) = Some ip" "store_auth store ip = Inr info"
    and "pull_effect N info pull p0 resp p" by auto
  then obtain q0 q where "grows p0 q0" "grows q0 q" "grows q p"
    and effect: "up_to_transaction resp = TransactionId (word_of_int (max_transaction_id (tables q0)))"
      "updates_exact (head_passes N (pull_object_types pull) (pull_created_at pull) (pull_filter pull))
         (window (tables q0) (since_i64 (pull_since pull)) (max_transaction_id (tables q0)) (client_uuid (auth_client_id info)))
         (tables q) (object_updates resp)"
    using assms(5) unfolding pull_effect_def by blast
  moreover from this(1,2) run have "db_inv (tables q)" using grows_inv by blast
  ultimately show ?thesis using who by blast
qed

theorem overlapped_pull_witness:
  "\<exists>q0 q. grows q0 q \<and> grows q (snd (race late_heads)) \<and> db_inv (tables q) \<and>
     TransactionId 1 = TransactionId (word_of_int (max_transaction_id (tables q0))) \<and>
     updates_exact (head_passes sample_numbers None None None) (window (tables q0) 0 (max_transaction_id (tables q0)) 8) (tables q)
       [\<lparr>upd_object_id = ObjectId 10, upd_action = Conflict, upd_heads = [sample_update, sample_branch]\<rparr>]"
proof -
  have mem: "(sample_task [10, 0, 0, 2] (Post_Changes_Query pull_everything), empty_pool,
      done_ok (respond 200 (Json_Pull \<lparr>up_to_transaction = TransactionId 1,
        object_updates = [\<lparr>upd_object_id = ObjectId 10, upd_action = Conflict, upd_heads = [sample_update, sample_branch]\<rparr>]\<rparr>)))
    \<in> set (fst (race late_heads))"
    using race_under_way[of 2 late_heads] unfolding late_heads_answers by (simp add: race_tasks_def)
  have "length (revision_parents (tables (snd (race late_heads)))) = 2" by code_simp
  then have fit: "parents_fit (tables (snd (race late_heads)))" by (intro few_parents_fit) simp
  have ends: "endpoint (request_from [10, 0, 0, 2] (Post_Changes_Query pull_everything)) = Post_Changes_Query pull_everything"
    by (simp add: request_from_def)
  from overlapped_pull[OF race_overlapped mem[unfolded sample_task_def] ends sample_plans fit]
  obtain ip info q0 q where who: "extract_ip (request_from [10, 0, 0, 2] (Post_Changes_Query pull_everything)) ConnectInfo = Some ip"
      "sample_auth ip = Inr info"
    and q: "grows q0 q" "grows q (snd (race late_heads))" "db_inv (tables q)"
      "TransactionId 1 = TransactionId (word_of_int (max_transaction_id (tables q0)))"
      "updates_exact (head_passes sample_numbers None None None)
         (window (tables q0) 0 (max_transaction_id (tables q0)) (client_uuid (auth_client_id info))) (tables q)
         [\<lparr>upd_object_id = ObjectId 10, upd_action = Conflict, upd_heads = [sample_update, sample_branch]\<rparr>]"
    by (auto simp: ServerStore_new_def)
  from who have "client_uuid (auth_client_id info) = 8"
    by (auto simp: extract_ip_def request_from_def sample_auth_def other_client_def split: if_splits)
  with q show ?thesis by metis
qed

end
