(* ===== verification/Service.thy ===== *)
theory Service
  imports SyncCorrect
begin

text \<open>
  What the client relies on from the server, as a contract, and what follows for the client:
  a revision that the client regards as synchronised is stored on the server. The contract
  is met by the model of the server in the theory that composes both.
\<close>

section \<open>The contract\<close>

abbreviation changes_url :: "string \<Rightarrow> string" where
  "changes_url url \<equiv> url_of url ''/changes''"

abbreviation query_url :: "string \<Rightarrow> string" where
  "query_url url \<equiv> url_of url ''/changes/query''"

abbreviation whoami_url :: "string \<Rightarrow> string" where
  "whoami_url url \<equiv> url_of url ''/whoami''"

abbreviation delivered_ids :: "'v PullResponse \<Rightarrow> RevisionId set" where
  "delivered_ids resp \<equiv> \<Union>u \<in> set (object_updates resp). rev_id ` set (upd_heads u)"

locale sync_service =
  fixes server :: "('v, 's) remote_server"
    and url :: string
    and good :: "'s \<Rightarrow> bool"
    and known :: "'s \<Rightarrow> RevisionId set"
  assumes post_good: "good s \<Longrightarrow> good (snd (post_changes server (changes_url url) q s))"
    and post_keeps: "good s \<Longrightarrow> known s \<subseteq> known (snd (post_changes server (changes_url url) q s))"
    and post_stores: "good s \<Longrightarrow> post_changes server (changes_url url) q s = (Answer resp, s') \<Longrightarrow>
      set (resp_accepted resp) \<subseteq> known s'"
    and post_answers: "good s \<Longrightarrow> post_changes server (changes_url url) q s = (Answer resp, s') \<Longrightarrow>
      rev_id ` set (push_req_revisions q) = set (resp_accepted resp) \<union> rejected_revision_id ` set (resp_rejected resp)"
    and query_good: "good s \<Longrightarrow> good (snd (post_changes_query server (query_url url) p s))"
    and query_keeps: "good s \<Longrightarrow> known s \<subseteq> known (snd (post_changes_query server (query_url url) p s))"
    and query_stored: "good s \<Longrightarrow> post_changes_query server (query_url url) p s = (Answer pulled, s') \<Longrightarrow>
      delivered_ids pulled \<subseteq> known s'"
    and whoami_good: "good s \<Longrightarrow> good (snd (get_whoami server (whoami_url url) s))"
    and whoami_keeps: "good s \<Longrightarrow> known s \<subseteq> known (snd (get_whoami server (whoami_url url) s))"

section \<open>Revisions that are marked as synchronised\<close>

text \<open>Every revision of the client that counts as synchronised is in \<open>A\<close>.\<close>

definition synced_within :: "RevisionId set \<Rightarrow> 'j client_db \<Rightarrow> bool" where
  "synced_within A s \<longleftrightarrow> (\<forall>(k, x) \<in> set (db_revisions s). rec_sync_status x = Synced \<longrightarrow> k \<in> A)"

text \<open>Both this and the absence of pending revisions restrict the status of each revision.\<close>

definition statuses :: "(RevisionId \<Rightarrow> SyncStatus \<Rightarrow> bool) \<Rightarrow> 'j client_db \<Rightarrow> bool" where
  "statuses R s \<longleftrightarrow> (\<forall>(k, x) \<in> set (db_revisions s). R k (rec_sync_status x))"

lemma synced_within_statuses: "synced_within A = statuses (\<lambda>k st. st = Synced \<longrightarrow> k \<in> A)"
  by (simp add: synced_within_def statuses_def fun_eq_iff)

lemma uncounted_statuses [simp, intro]: "uncounted (statuses R)"
  by (simp add: uncounted_def statuses_def)

lemma statuses_heads [simp]:
  "statuses R (snd (put_head y s)) = statuses R s"
  "statuses R (snd (delete_head ob i s)) = statuses R s"
  by (simp_all add: statuses_def put_head_def delete_head_def)

lemma statuses_put_record:
  "statuses R s \<Longrightarrow> R (rec_id y) (rec_sync_status y) \<Longrightarrow> statuses R (snd (put_record y s))"
  using set_store_put[of "rec_id y" y "db_revisions s"] by (auto simp: statuses_def put_record_def)

definition synced_inv :: "RevisionId set \<Rightarrow> 'j client_db \<Rightarrow> bool" where
  "synced_inv A s \<longleftrightarrow> inv_with {} s \<and> synced_within A s"

lemma uncounted_synced [simp, intro]: "uncounted (synced_within A)" "uncounted (synced_inv A)"
  by (simp_all add: uncounted_def synced_within_def synced_inv_def inv_with_def client_inv_def)

lemma synced_within_mono: "synced_within A s \<Longrightarrow> A \<subseteq> B \<Longrightarrow> synced_within B s"
  by (auto simp: synced_within_def)

lemma synced_put_record:
  "synced_within A s \<Longrightarrow> (rec_sync_status y = Synced \<Longrightarrow> rec_id y \<in> A) \<Longrightarrow> synced_within A (snd (put_record y s))"
  unfolding synced_within_statuses by (rule statuses_put_record) blast+

lemma synced_heads [simp]:
  "synced_within A (snd (put_head y s)) = synced_within A s"
  "synced_within A (snd (delete_head ob i s)) = synced_within A s"
  by (simp_all add: synced_within_def put_head_def delete_head_def)

lemma convert_record_status:
  "convert_record f x = Some y \<Longrightarrow> rec_id y = rec_id x \<and> rec_sync_status y = rec_sync_status x"
  by (auto simp: convert_record_def)

lemma statuses_put_revision:
  assumes "R (rec_id x) (rec_sync_status x)"
  shows "triple (statuses R) (put_revision E x) (\<lambda>_. statuses R) (\<lambda>_. statuses R)"
proof -
  have "triple (\<lambda>s. statuses R s \<and> R (rec_id y) (rec_sync_status y))
      (idb_tx E (idb_request E (put_record y))) (\<lambda>_. statuses R) (\<lambda>_. statuses R)" for y
    by (intro triple_pure triple_idb_tx_keeps triple_idb_request) (auto intro: statuses_put_record)
  then show ?thesis
    unfolding put_revision_def
    by (intro triple_and_then[where R = "\<lambda>y s. statuses R s \<and> R (rec_id y) (rec_sync_status y)"] triple_to_js)
      (auto dest: convert_record_status simp: assms)
qed

lemma synced_put_revision:
  assumes "rec_sync_status x = Synced \<Longrightarrow> rec_id x \<in> A"
  shows "triple (synced_within A) (put_revision E x) (\<lambda>_. synced_within A) (\<lambda>_. synced_within A)"
  unfolding synced_within_statuses by (rule statuses_put_revision) (use assms in blast)

lemma synced_inv_put_record:
  "synced_inv A s \<Longrightarrow> (rec_sync_status y = Synced \<Longrightarrow> rec_id y \<in> A) \<Longrightarrow> synced_inv A (snd (put_record y s))"
  using inv_with_mono[OF inv_with_put_record[of "{}" s y] empty_subsetI]
  by (auto simp: synced_inv_def intro: synced_put_record)

lemma synced_keyed: "synced_inv A s \<Longrightarrow> store_get (db_revisions s) i = Some x \<Longrightarrow> rec_id x = i"
  by (force simp: synced_inv_def inv_with_def client_inv_def store_get_def dest: map_of_SomeD)

text \<open>A status is set on the record found under the id, which carries that id.\<close>

lemma synced_set_status:
  assumes "st = Synced \<Longrightarrow> i \<in> A"
  shows "triple (synced_inv A) (set_status E i st) (\<lambda>_. synced_inv A) (\<lambda>_. synced_inv A)"
proof -
  let ?X = "\<lambda>e s. case e of Aborted \<Rightarrow> True | Left _ \<Rightarrow> synced_inv A s"
  have read: "triple (synced_inv A) (idb_request E (\<lambda>s. (store_get (db_revisions s) i, s)))
      (\<lambda>found s. synced_inv A s \<and> (\<forall>x. found = Some x \<longrightarrow> rec_id x = i)) ?X"
    by (intro triple_idb_request) (auto dest: synced_keyed)
  have put: "triple (\<lambda>s. synced_inv A s \<and> rec_id y = i \<and> rec_sync_status y = st) (idb_request E (put_record y))
      (\<lambda>_. synced_inv A) ?X" for y
    by (intro triple_pure triple_idb_request) (use assms in \<open>auto intro: synced_inv_put_record\<close>)
  have decode: "triple (\<lambda>s. synced_inv A s \<and> rec_id x = i) (map_err Left (from_js E convert_record x))
      (\<lambda>r s. synced_inv A s \<and> rec_id r = i) ?X" for x
    by (intro triple_map_err triple_from_js) (auto dest: convert_record_id)
  have encode: "triple (\<lambda>s. synced_inv A s \<and> rec_id r = i)
      (and_then (map_err Left (to_js E convert_record (r\<lparr>rec_sync_status := st\<rparr>))) (\<lambda>y. idb_request E (put_record y)))
      (\<lambda>_. synced_inv A) ?X" for r
    by (intro triple_and_then[OF _ put] triple_map_err triple_to_js) (auto dest: convert_record_status)
  have re_encode: "triple (\<lambda>s. synced_inv A s \<and> (\<forall>x. found = Some x \<longrightarrow> rec_id x = i))
      (case found of None \<Rightarrow> ok ()
        | Some val \<Rightarrow> and_then (map_err Left (from_js E convert_record val))
            (\<lambda>r. and_then (map_err Left (to_js E convert_record (r\<lparr>rec_sync_status := st\<rparr>)))
               (\<lambda>y. idb_request E (put_record y)))) (\<lambda>_. synced_inv A) ?X" for found
    using triple_and_then[OF decode encode] by (cases found) (auto intro: triple_ok)
  show ?thesis
    unfolding set_status_def by (intro triple_idb_tx_keeps triple_and_then[OF read re_encode]) auto
qed

text \<open>The other operations\<close>

lemma synced_steps:
  "triple (synced_within A) (replace_heads E ob rs) (\<lambda>_. synced_within A) (\<lambda>_. synced_within A)"
  "triple (synced_within A) (add_heads E rs) (\<lambda>_. synced_within A) (\<lambda>_. synced_within A)"
  "triple (synced_within A) (client_get_heads E ob) (\<lambda>_. synced_within A) (\<lambda>_. synced_within A)"
  by (intro replace_heads_frame add_heads_frame client_get_heads_frame; simp)+

lemma synced_keeps_inv:
  assumes "triple (synced_within A) m (\<lambda>_. synced_within A) (\<lambda>_. synced_within A)"
    and "triple (inv_with {}) m (\<lambda>_. inv_with {}) (\<lambda>_. inv_with {})"
  shows "triple (synced_inv A) m (\<lambda>_. synced_inv A) (\<lambda>_. synced_inv A)"
  using triple_conj[OF assms(2,1)] by (simp add: synced_inv_def[abs_def])

lemma synced_store_new_head:
  "triple (synced_within A) (store_new_head E r) (\<lambda>_. synced_within A) (\<lambda>_. synced_within A)"
  unfolding store_new_head_def
  by (rule triple_and_then[OF synced_put_revision synced_steps(1)]) (simp add: from_revision_def)

text \<open>What a pull writes counts as synchronised.\<close>

lemma statuses_apply_updates:
  assumes "\<And>u r. u \<in> set us \<Longrightarrow> r \<in> set (upd_heads u) \<Longrightarrow> R (rev_id r) Synced"
  shows "triple (statuses R) (apply_updates E us) (\<lambda>_. statuses R) (\<lambda>_. statuses R)"
proof -
  note keep = triple_and_then[where R = "\<lambda>_. statuses R"]
  have puts: "triple (statuses R)
      (fold_each (\<lambda>r n. and_then (put_revision E (from_revision r Synced)) (\<lambda>_. ok (n + 1))) rs (n :: 32 word))
      (\<lambda>_. statuses R) (\<lambda>_. statuses R)" if "\<And>r. r \<in> set rs \<Longrightarrow> R (rev_id r) Synced" for rs n
    using that
    by (induction rs arbitrary: n) (auto intro!: keep statuses_put_revision triple_ok simp: from_revision_def)
  have heads: "triple (statuses R) (replace_heads E ob rs) (\<lambda>_. statuses R) (\<lambda>_. statuses R)"
    "triple (statuses R) (add_heads E rs) (\<lambda>_. statuses R) (\<lambda>_. statuses R)"
    "triple (statuses R) (client_get_heads E ob) (\<lambda>_. statuses R) (\<lambda>_. statuses R)" for ob rs
    by (intro replace_heads_frame add_heads_frame client_get_heads_frame; simp)+
  have "triple (statuses R) (apply_update E u counts) (\<lambda>_. statuses R) (\<lambda>_. statuses R)"
    if "u \<in> set us" for u counts
    unfolding apply_update_def using that assms
    by (auto split: prod.split HeadAction.split intro!: keep puts heads triple_ok)
  then have "triple (statuses R) (fold_each (apply_update E) vs acc) (\<lambda>_. statuses R) (\<lambda>_. statuses R)"
    if "set vs \<subseteq> set us" for vs acc
    using that by (induction vs arbitrary: acc) (auto intro!: keep triple_ok)
  then show ?thesis unfolding apply_updates_def by simp
qed

lemma synced_apply_updates:
  assumes "(\<Union>u \<in> set us. rev_id ` set (upd_heads u)) \<subseteq> A"
  shows "triple (synced_within A) (apply_updates E us) (\<lambda>_. synced_within A) (\<lambda>_. synced_within A)"
  unfolding synced_within_statuses by (rule statuses_apply_updates) (use assms in auto)

lemma synced_requests:
  assumes "\<And>s. db_revisions (snd (f s)) = db_revisions s"
  shows "triple (synced_within A) (idb_tx E (idb_request E f)) (\<lambda>_. synced_within A) (\<lambda>_. synced_within A)"
  using assms by (intro triple_idb_tx_keeps triple_idb_request) (auto simp: synced_within_def)

lemma synced_others:
  "triple (synced_within A) (put_file E ob d) (\<lambda>_. synced_within A) (\<lambda>_. synced_within A)"
  "triple (synced_within A) (client_get_file E ob) (\<lambda>_. synced_within A) (\<lambda>_. synced_within A)"
  "triple (synced_within A) (client_delete_file E ob) (\<lambda>_. synced_within A) (\<lambda>_. synced_within A)"
  "triple (synced_within A) (read_sync_state E) (\<lambda>_. synced_within A) (\<lambda>_. synced_within A)"
  "triple (synced_within A) (write_sync_state E c u t) (\<lambda>_. synced_within A) (\<lambda>_. synced_within A)"
  "triple (synced_within A) (get_pending_revisions E) (\<lambda>_. synced_within A) (\<lambda>_. synced_within A)"
  unfolding put_file_def client_get_file_def client_delete_file_def read_sync_state_def write_sync_state_def
    converted_def get_pending_revisions_def
  by (auto split: option.split intro!: synced_requests triple_and_then[where R = "\<lambda>_. synced_within A"]
      triple_ok triple_err triple_collect_keeps triple_from_js)

text \<open>The operations of the repository: what they write is pending.\<close>

lemmas synced_then = triple_and_then[where R = "\<lambda>_. synced_within A" for A]

lemma synced_supersede:
  "triple (synced_within A) (supersede E repo fresh now ob parent c) (\<lambda>_. synced_within A) (\<lambda>_. synced_within A)"
  unfolding supersede_def
  by (rule synced_then[OF synced_steps(3)])
    (auto split: list.split intro!: synced_then check_parents_keeps synced_store_new_head triple_ok triple_err)

lemma synced_repository:
  "triple (synced_within A) (save E repo tv ob fresh now ty v) (\<lambda>_. synced_within A) (\<lambda>_. synced_within A)"
  "triple (synced_within A) (repo_update E repo tv fresh now ob parent v) (\<lambda>_. synced_within A) (\<lambda>_. synced_within A)"
  "triple (synced_within A) (repo_delete E repo fresh now ob parent) (\<lambda>_. synced_within A) (\<lambda>_. synced_within A)"
  "triple (synced_within A) (resolve_conflict E repo tv fresh now ob ps c) (\<lambda>_. synced_within A) (\<lambda>_. synced_within A)"
  unfolding save_def repo_update_def repo_delete_def resolve_conflict_def
  by (auto split: list.split VersionContent.split
      intro!: synced_then serialised_keeps synced_supersede check_parents_keeps synced_store_new_head synced_steps(3)
        triple_ok triple_err)

lemma synced_repo_get:
  "triple (synced_within A) (repo_get E fv ob) (\<lambda>_. synced_within A) (\<lambda>_. synced_within A)"
proof -
  have "triple (synced_within A) (version_content fv c) (\<lambda>_. synced_within A) (\<lambda>_. synced_within A)" for c
    by (cases c) (auto intro!: synced_then serialised_keeps triple_ok)
  then show ?thesis
    unfolding repo_get_def
    by (intro triple_and_then[where R = "\<lambda>_. synced_within A"] synced_steps(3) triple_collect_keeps) (auto intro: triple_ok)
qed

lemma open_database_synced:
  "synced_inv A s \<Longrightarrow> synced_inv A (snd (open_database E key_path_ok schema s))"
  using open_database_inv[of s E key_path_ok schema]
  by (auto simp: synced_inv_def inv_with_def synced_within_def open_database_def on_upgrade_needed_def Let_def split: option.splits)

text \<open>No revision is pending exactly when there is nothing to push.\<close>

abbreviation settled :: "'j client_db \<Rightarrow> bool" where
  "settled \<equiv> statuses (\<lambda>k st. st \<noteq> Pending)"

lemma settled_iff: "readable E s \<Longrightarrow> settled s \<longleftrightarrow> unsynced E s = []"
proof -
  assume s: "readable E s"
  have "rec_sync_status (decode_record E x) = rec_sync_status x" if "(k, x) \<in> set (db_revisions s)" for k x
    using s that by (fastforce simp: readable_def readable_record_def split: option.splits dest: convert_record_status)
  then show ?thesis
    by (force simp: statuses_def unsynced_def spec_pending_def decoded_db_def filter_empty_conv)
qed

section \<open>The client over the service\<close>

text \<open>The calls that go to a server go to the one at this address.\<close>

fun addressed :: "string \<Rightarrow> ('v, 't) client_call \<Rightarrow> bool" where
  "addressed url (Call_Open _ u) = (u = url)"
| "addressed url (Call_Sync u _) = (u = url)"
| "addressed url _ = True"

context sync_service
begin

text \<open>The state of the whole: the server is good, and it knows what the client has as synchronised.\<close>

definition sound :: "('j, 's) world \<Rightarrow> bool" where
  "sound w \<longleftrightarrow> good (remote w) \<and> synced_inv (known (remote w)) (local_db w)"

lemma sound_remote:
  assumes "sound w" "good s" "known (remote w) \<subseteq> known s"
  shows "sound (w\<lparr>remote := s\<rparr>)"
  using assms by (auto simp: sound_def synced_inv_def intro: synced_within_mono)

lemma sound_on_db:
  assumes "\<And>A. triple (synced_within A) m (\<lambda>_. synced_within A) (\<lambda>_. synced_within A)"
    and "triple (inv_with {}) m (\<lambda>_. inv_with {}) (\<lambda>_. inv_with {})"
  shows "triple sound (on_db m) (\<lambda>_. sound) (\<lambda>_. sound)"
proof -
  have "synced_inv A (snd (m d))" if "synced_inv A d" for A d
    using triple_snd[OF synced_keeps_inv[OF assms]] that .
  then show ?thesis
    unfolding triple_keeps_iff by (auto simp: sound_def on_db_def split: prod.split) (metis snd_conv)
qed

lemmas sound_step = triple_and_then[where R = "\<lambda>_. sound"]

lemma sound_post:
  "triple sound (on_remote (post_changes server (changes_url url) q))
     (\<lambda>res w. sound w \<and> (\<forall>resp. res = Answer resp \<longrightarrow> set (resp_accepted resp) \<subseteq> known (remote w))) (\<lambda>_. sound)"
proof (rule triple_on_remote)
  fix w :: "('j, 's) world"
  assume w: "sound w"
  then have good: "good (remote w)" by (simp add: sound_def)
  obtain res s where run: "post_changes server (changes_url url) q (remote w) = (res, s)"
    by (cases "post_changes server (changes_url url) q (remote w)")
  have "sound (w\<lparr>remote := s\<rparr>)"
    using sound_remote[OF w post_good[OF good, of q] post_keeps[OF good, of q]] by (simp add: run)
  with post_stores[OF good] run
  show "sound (w\<lparr>remote := snd (post_changes server (changes_url url) q (remote w))\<rparr>) \<and>
      (\<forall>resp. fst (post_changes server (changes_url url) q (remote w)) = Answer resp \<longrightarrow>
        set (resp_accepted resp) \<subseteq> known (remote (w\<lparr>remote := snd (post_changes server (changes_url url) q (remote w))\<rparr>)))"
    by auto
qed

lemma sound_query:
  "triple sound (on_remote (post_changes_query server (query_url url) p))
     (\<lambda>res w. sound w \<and> (\<forall>resp. res = Answer resp \<longrightarrow> delivered_ids resp \<subseteq> known (remote w))) (\<lambda>_. sound)"
proof (rule triple_on_remote)
  fix w :: "('j, 's) world"
  assume w: "sound w"
  then have good: "good (remote w)" by (simp add: sound_def)
  obtain res s where run: "post_changes_query server (query_url url) p (remote w) = (res, s)"
    by (cases "post_changes_query server (query_url url) p (remote w)")
  have "sound (w\<lparr>remote := s\<rparr>)"
    using sound_remote[OF w query_good[OF good, of p] query_keeps[OF good, of p]] by (simp add: run)
  moreover have "delivered_ids resp \<subseteq> known s" if "res = Answer resp" for resp
    using query_stored[OF good run[unfolded that]] .
  ultimately show "sound (w\<lparr>remote := snd (post_changes_query server (query_url url) p (remote w))\<rparr>) \<and>
      (\<forall>resp. fst (post_changes_query server (query_url url) p (remote w)) = Answer resp \<longrightarrow>
        delivered_ids resp \<subseteq> known (remote (w\<lparr>remote := snd (post_changes_query server (query_url url) p (remote w))\<rparr>)))"
    by (simp add: run)
qed

lemma sound_answer: "triple (\<lambda>w. sound w \<and> (\<forall>a. res = Answer a \<longrightarrow> Q a w)) (answer_or_network what res)
    (\<lambda>a w. sound w \<and> Q a w) (\<lambda>_. sound)"
  by (rule triple_answer) auto

text \<open>Recording a verdict: a revision is marked as synchronised only where the server knows it.\<close>

lemma sound_mark:
  fixes E :: "('u, 'c) idb_env"
  assumes "st = Synced \<Longrightarrow> i \<in> B"
  shows "triple (\<lambda>w. sound w \<and> B \<subseteq> known (remote w)) (on_db (set_status E i st))
    (\<lambda>_ w. sound w \<and> B \<subseteq> known (remote w)) (\<lambda>_. sound)"
proof -
  have kept: "sound (snd (on_db (set_status E i st) w)) \<and> remote (snd (on_db (set_status E i st) w)) = remote w"
    if "sound w" "B \<subseteq> known (remote w)" for w :: "('c, 's) world"
  proof -
    have "triple (synced_inv (known (remote w))) (set_status E i st)
        (\<lambda>_. synced_inv (known (remote w))) (\<lambda>_. synced_inv (known (remote w)))"
      using assms that(2) by (intro synced_set_status) blast
    from triple_snd[OF this, of "local_db w"] that(1) show ?thesis
      by (simp add: sound_def on_db_def case_prod_beta)
  qed
  show ?thesis
  proof (rule tripleI)
    fix w w' :: "('c, 's) world"
    assume w: "sound w \<and> B \<subseteq> known (remote w)"
    show "sound w' \<and> B \<subseteq> known (remote w')" if "on_db (set_status E i st) w = (Inr a, w')" for a
      using kept[of w] w that by simp
    show "sound w'" if "on_db (set_status E i st) w = (Inl e, w')" for e
      using kept[of w] w that by simp
  qed
qed

lemma sound_marks:
  "triple (\<lambda>w. sound w \<and> set (resp_accepted resp) \<subseteq> known (remote w))
      (and_then (for_each (\<lambda>i. on_db (mark_revision_synced E i)) (resp_accepted resp))
        (\<lambda>_. and_then (for_each (\<lambda>x. on_db (mark_revision_error E (rejected_revision_id x) (rejected_reason x)))
            (resp_rejected resp)) (\<lambda>_. ok b))) (\<lambda>_. sound) (\<lambda>_. sound)"
  unfolding mark_revision_synced_def mark_revision_error_def
  by (intro triple_and_then[where R = "\<lambda>_ w. sound w \<and> set (resp_accepted resp) \<subseteq> known (remote w)"]
      triple_for_each_keeps sound_mark triple_ok) auto

lemma sound_push: "triple sound (push_pending E server url) (\<lambda>_. sound) (\<lambda>_. sound)"
proof -
  have answered: "triple sound
      (and_then (on_remote (post_changes server (changes_url url) q)) (\<lambda>res. and_then (answer_or_network ''push'' res)
        (\<lambda>resp. and_then (for_each (\<lambda>i. on_db (mark_revision_synced E i)) (resp_accepted resp))
          (\<lambda>_. and_then (for_each (\<lambda>x. on_db (mark_revision_error E (rejected_revision_id x) (rejected_reason x)))
            (resp_rejected resp)) (\<lambda>_. ok (word_of_nat (length (resp_accepted resp)), resp_rejected resp))))))
      (\<lambda>_. sound) (\<lambda>_. sound)" for q
  proof (rule triple_and_then[OF sound_post])
    fix res
    show "triple (\<lambda>w. sound w \<and> (\<forall>resp. res = Answer resp \<longrightarrow> set (resp_accepted resp) \<subseteq> known (remote w)))
        (and_then (answer_or_network ''push'' res)
        (\<lambda>resp. and_then (for_each (\<lambda>i. on_db (mark_revision_synced E i)) (resp_accepted resp))
          (\<lambda>_. and_then (for_each (\<lambda>x. on_db (mark_revision_error E (rejected_revision_id x) (rejected_reason x)))
            (resp_rejected resp)) (\<lambda>_. ok (word_of_nat (length (resp_accepted resp)), resp_rejected resp)))))
        (\<lambda>_. sound) (\<lambda>_. sound)"
      by (rule triple_and_then[OF sound_answer[where Q = "\<lambda>resp w. set (resp_accepted resp) \<subseteq> known (remote w)"]])
        (rule sound_marks)
  qed
  show ?thesis
    unfolding push_pending_def
    by (rule sound_step, rule sound_on_db[OF synced_others(6) get_pending_revisions_keeps])
      (auto intro: triple_ok answered)
qed

lemma sound_pull: "triple sound (pull_updates E server url p) (\<lambda>_. sound) (\<lambda>_. sound)"
  unfolding pull_updates_def
proof (rule triple_and_then[OF sound_query])
  fix res
  have apply_all: "triple (\<lambda>w. sound w \<and> delivered_ids resp \<subseteq> known (remote w))
      (on_db (apply_updates E (object_updates resp))) (\<lambda>_. sound) (\<lambda>_. sound)" for resp
  proof -
    have "sound (snd (on_db (apply_updates E (object_updates resp)) w))"
      if "sound w" "delivered_ids resp \<subseteq> known (remote w)" for w
      using that triple_snd[OF synced_keeps_inv[OF synced_apply_updates[OF that(2)] apply_updates_keeps], of "local_db w" E]
      by (simp add: sound_def on_db_def case_prod_beta)
    then show ?thesis unfolding triple_keeps_iff by blast
  qed
  have cursor: "triple sound (on_db (advance_cursor E t)) (\<lambda>_. sound) (\<lambda>_. sound)" for t
  proof (rule sound_on_db[OF _ advance_cursor_keeps])
    show "triple (synced_within A) (advance_cursor E t) (\<lambda>_. synced_within A) (\<lambda>_. synced_within A)" for A
      unfolding advance_cursor_def
      by (auto split: option.split intro!: triple_and_then[where R = "\<lambda>_. synced_within A"] synced_others triple_ok)
  qed
  show "triple (\<lambda>w. sound w \<and> (\<forall>resp. res = Answer resp \<longrightarrow> delivered_ids resp \<subseteq> known (remote w)))
      (and_then (answer_or_network ''pull'' res) (\<lambda>resp. and_then (on_db (apply_updates E (object_updates resp)))
        (\<lambda>counts. and_then (on_db (advance_cursor E (up_to_transaction resp))) (\<lambda>_. ok counts))))
      (\<lambda>_. sound) (\<lambda>_. sound)"
    by (rule triple_and_then[OF sound_answer[where Q = "\<lambda>resp w. delivered_ids resp \<subseteq> known (remote w)"]],
        rule triple_and_then[OF apply_all], rule triple_and_then[OF cursor], rule triple_ok)
qed

lemma sound_sync: "triple sound (repo_sync E server url q) (\<lambda>_. sound) (\<lambda>_. sound)"
  unfolding repo_sync_def sync_def
  by (auto split: prod.split intro!: sound_step sound_on_db[OF synced_others(4) read_sync_state_keeps] sound_push sound_pull triple_ok)

lemma sound_whoami: "triple sound (fetch_whoami server url) (\<lambda>_. sound) (\<lambda>_. sound)"
proof -
  have "triple sound (on_remote (get_whoami server (whoami_url url))) (\<lambda>_. sound) (\<lambda>_. sound)"
    by (rule triple_on_remote) (rule sound_remote, simp, simp_all add: whoami_good whoami_keeps sound_def)
  then show ?thesis
    unfolding fetch_whoami_def by (rule sound_step) (auto split: http_result.split intro!: triple_ok triple_err)
qed

lemma sound_identity: "triple sound (with_identity E server url st) (\<lambda>_. sound) (\<lambda>_. sound)"
proof -
  obtain c u t where st: "st = (c, u, t)" by (cases st)
  have wr: "triple sound (and_then (on_db (write_sync_state E i j t)) (\<lambda>_. ok (i, j))) (\<lambda>_. sound) (\<lambda>_. sound)" for i j
    by (rule sound_step, rule sound_on_db[OF synced_others(5) other_writes_keep(3)]) (rule triple_ok)
  have "sound (snd (with_identity E server url st w))" if "sound w" for w
  proof -
    obtain r w1 where run: "fetch_whoami server url w = (r, w1)" by (cases "fetch_whoami server url w")
    with triple_snd[OF sound_whoami that] have w1: "sound w1" by simp
    show ?thesis
      using w1 triple_snd[OF wr w1]
      by (cases r) (auto simp: with_identity_def st run split: RustendClientError.split option.split)
  qed
  then show ?thesis by (simp add: triple_keeps_iff)
qed

lemma sound_open: "sound w \<Longrightarrow> sound (w\<lparr>local_db := snd (open_database E k schema (local_db w))\<rparr>)"
  by (simp add: sound_def open_database_synced)

lemma sound_opened:
  assumes "sound w"
  shows "sound (snd (repo_open E k server schema url w))"
    and "sound (snd (on_db_open (open_offline E k schema c u) w))"
proof -
  obtain r d where run: "open_database E k schema (local_db w) = (r, d)" by (cases "open_database E k schema (local_db w)")
  with sound_open[OF assms, of E k schema] have d: "sound (w\<lparr>local_db := d\<rparr>)" by simp
  have rest: "triple sound
      (map_err Open_Failed (and_then (on_db (read_sync_state E)) (\<lambda>st. and_then (with_identity E server url st)
        (\<lambda>(c, u). ok \<lparr> repo_client_id = c, repo_user_id = u, repo_schema = schema \<rparr>)))) (\<lambda>_. sound) (\<lambda>_. sound)"
    by (auto split: prod.split intro!: sound_step triple_map_err sound_identity triple_ok
        sound_on_db[OF synced_others(4) read_sync_state_keeps])
  show "sound (snd (repo_open E k server schema url w))"
    using triple_snd[OF rest d] d run by (cases r) (simp_all add: repo_open_def and_then_def on_db_open_def)
  have "triple (synced_inv A) (map_err Open_Failed (and_then (write_sync_state E c u None)
        (\<lambda>_. ok \<lparr> repo_client_id = c, repo_user_id = u, repo_schema = schema \<rparr>))) (\<lambda>_. synced_inv A) (\<lambda>_. synced_inv A)" for A
    by (intro triple_map_err triple_and_then[where R = "\<lambda>_. synced_inv A"] triple_ok
        synced_keeps_inv[OF synced_others(5) other_writes_keep(3)])
  from triple_snd[OF this] d run show "sound (snd (on_db_open (open_offline E k schema c u) w))"
    by (cases r) (simp_all add: open_offline_def and_then_def on_db_open_def case_prod_beta sound_def)
qed

lemma sound_call:
  assumes "sound w" "ce_server X = server" "addressed url c"
  shows "sound (after_call X c w)"
proof (cases c)
  case (Call_Save ob fresh now ty v)
  then show ?thesis using assms by (simp add: triple_snd[OF sound_on_db[OF synced_repository(1) repository_writes_keep(1)]])
next
  case (Call_Update fresh now ob parent v)
  then show ?thesis using assms by (simp add: triple_snd[OF sound_on_db[OF synced_repository(2) repository_writes_keep(2)]])
next
  case (Call_Delete fresh now ob parent)
  then show ?thesis using assms by (simp add: triple_snd[OF sound_on_db[OF synced_repository(3) repository_writes_keep(3)]])
next
  case (Call_Resolve fresh now ob ps res)
  then show ?thesis using assms by (simp add: triple_snd[OF sound_on_db[OF synced_repository(4) repository_writes_keep(4)]])
next
  case (Call_Get ob)
  then show ?thesis using assms by (simp add: triple_snd[OF sound_on_db[OF synced_repo_get repo_get_keeps]])
next
  case (Call_Sync u q)
  then show ?thesis using assms by (simp add: triple_snd[OF sound_sync])
qed (use assms in \<open>simp_all add: sound_opened save_file_data_def get_file_data_def delete_file_data_def
      triple_snd[OF sound_on_db[OF synced_others(1) other_writes_keep(1)]]
      triple_snd[OF sound_on_db[OF synced_others(2) file_data_keeps(2)[unfolded get_file_data_def]]]
      triple_snd[OF sound_on_db[OF synced_others(3) other_writes_keep(2)]]\<close>)

text \<open>A push that returns has settled every revision that was pending.\<close>

lemma push_settles:
  assumes "idb_ok E" "client_inv (local_db w)" "readable E (local_db w)" "good (remote w)"
    and "push_pending E server url w = (Inr x, w')"
  shows "unsynced E (local_db w') = [] \<and> readable E (local_db w') \<and> good (remote w')"
proof (cases "unsynced E (local_db w) = []")
  case True
  obtain d where d: "get_pending_revisions E (local_db w) = (Inr [], d)" "readable E d"
    "decoded_db E d = decoded_db E (local_db w)"
    using True refines_plain_run[OF refines_get_pending_revisions[OF assms(1)] assms(3)]
    by (auto simp: unsynced_def spec_pending_def)
  with assms(5) have "w' = w\<lparr>local_db := d\<rparr>"
    by (simp add: push_pending_def and_then_def on_db_def ok_def)
  with d True assms(4) show ?thesis by (simp add: unsynced_def)
next
  case False
  let ?q = "\<lparr>push_req_revisions = map record_revision (unsynced E (local_db w))\<rparr>"
  obtain d where d: "get_pending_revisions E (local_db w) = (Inr (unsynced E (local_db w)), d)"
    using refines_plain_run[OF refines_get_pending_revisions[OF assms(1)] assms(3)]
    by (auto simp: unsynced_def spec_pending_def)
  obtain res s where post: "post_changes server (changes_url url) ?q (remote w) = (res, s)"
    by (cases "post_changes server (changes_url url) ?q (remote w)")
  obtain resp where res: "res = Answer resp"
    using assms(5) d False post
    by (cases res) (simp_all add: push_pending_def and_then_def on_db_def on_remote_def answer_or_network_def err_def)
  obtain d' where run: "push_pending E server url w =
      (Inr (word_of_nat (length (resp_accepted resp)), resp_rejected resp), \<lparr>local_db = d', remote = s\<rparr>)"
    "readable E d'" "decoded_db E d' = mark_all (verdict_list resp) (decoded_db E (local_db w))"
    using push_pending_run[OF assms(1,3) False post[unfolded res]] by metis
  have "rec_id ` set (unsynced E (local_db w)) = rev_id ` set (push_req_revisions ?q)"
    by (simp add: image_image record_revision_def)
  also have "\<dots> = fst ` set (verdict_list resp)"
    unfolding post_answers[OF assms(4) post[unfolded res]] by (simp add: verdict_list_def image_Un image_image)
  finally have "rec_id x \<in> fst ` set (verdict_list resp)" if "x \<in> set (fst (spec_pending (decoded_db E (local_db w))))" for x
    using that unfolding unsynced_def by blast
  with nothing_unsynced[OF client_inv_decoded[OF assms(2,3)] _ verdict_list_final]
  have "fst (spec_pending (decoded_db E d')) = []" unfolding run(3) by blast
  moreover have "good s" using post_good[OF assms(4)] post by (metis snd_conv)
  ultimately show ?thesis using assms(5) run(1,2) by (auto simp: unsynced_def)
qed

end

section \<open>What a pull delivers becomes a head\<close>

lemma put_heads_adds:
  "triple (\<lambda>_. True) (put_heads E xs)
     (\<lambda>_ s. \<forall>x \<in> set xs. (head_object_id x, head_revision_id x) \<in> head_keys s) (\<lambda>_ _. True)"
proof (induction xs)
  case (Cons x xs)
  let ?k = "\<lambda>x. (head_object_id x, head_revision_id x)"
  have put: "triple (\<lambda>_. ?k y = ?k x) (idb_request E (put_head y)) (\<lambda>_ s. ?k x \<in> head_keys s) (\<lambda>_ _. True)" for y
    using set_store_put_keys[of "?k x" y]
    by (intro triple_idb_request) (auto simp: put_head_def)
  have first: "triple (\<lambda>_. True) (and_then (map_err Left (to_js E convert_head x)) (\<lambda>val. idb_request E (put_head val)))
      (\<lambda>_ s. ?k x \<in> head_keys s) (\<lambda>_ _. True)"
    by (rule triple_and_then[OF _ put]) (auto intro!: triple_map_err triple_to_js dest: convert_head_ids)
  have "triple (kept_head False (?k x)) (put_heads E xs) (\<lambda>_. kept_head False (?k x)) (\<lambda>_ _. True)"
    by (rule triple_weaken[OF put_heads_frame]) (auto simp: kept_head_steps)
  from triple_conj[OF this Cons.IH] have rest: "triple (\<lambda>s. ?k x \<in> head_keys s) (put_heads E xs)
      (\<lambda>_ s. \<forall>y \<in> set (x # xs). ?k y \<in> head_keys s) (\<lambda>_ _. True)"
    by (rule triple_weaken) (auto simp: kept_head_def)
  have "put_heads E (x # xs) = and_then (and_then (map_err Left (to_js E convert_head x)) (\<lambda>val. idb_request E (put_head val)))
      (\<lambda>_. put_heads E xs)" by (simp add: put_heads_def)
  then show ?case using triple_and_then[OF first rest] by simp
qed (simp add: put_heads_def triple_ok)

lemma triple_idb_tx_adds:
  assumes "triple (\<lambda>_. True) body Q (\<lambda>_ _. True)" "\<And>a. uncounted (Q a)"
  shows "triple (\<lambda>_. True) (idb_tx E body) Q (\<lambda>_ _. True)"
  by (rule triple_weaken[OF triple_idb_tx_keeps[OF triple_weaken[OF assms(1)]]])
    (auto split: tx_error.split intro: assms(2))

lemma triple_any: "triple (\<lambda>_. True) m (\<lambda>_ _. True) (\<lambda>_ _. True)"
  by (simp add: triple_def split: prod.split sum.split)

lemma heads_writes_add:
  "triple (\<lambda>_. True) (replace_heads E ob rs) (\<lambda>_ s. \<forall>r \<in> set rs. (ob, rev_id r) \<in> head_keys s) (\<lambda>_ _. True)"
  "triple (\<lambda>_. True) (add_heads E rs) (\<lambda>_ s. \<forall>r \<in> set rs. (rev_object_id r, rev_id r) \<in> head_keys s) (\<lambda>_ _. True)"
proof -
  show "triple (\<lambda>_. True) (replace_heads E ob rs) (\<lambda>_ s. \<forall>r \<in> set rs. (ob, rev_id r) \<in> head_keys s) (\<lambda>_ _. True)"
    unfolding replace_heads_def
    by (rule triple_idb_tx_adds, rule triple_and_then[OF triple_any], rule triple_and_then[OF triple_any],
        rule triple_weaken[OF put_heads_adds]) (auto simp: head_record_from_revision_def uncounted_def)
  show "triple (\<lambda>_. True) (add_heads E rs) (\<lambda>_ s. \<forall>r \<in> set rs. (rev_object_id r, rev_id r) \<in> head_keys s) (\<lambda>_ _. True)"
    unfolding add_heads_def
    by (rule triple_idb_tx_adds, rule triple_weaken[OF put_heads_adds]) (auto simp: head_record_from_revision_def uncounted_def)
qed

text \<open>The update is about one object.\<close>

definition of_one_object :: "'v ObjectUpdate \<Rightarrow> bool" where
  "of_one_object u \<longleftrightarrow> (\<forall>r \<in> set (upd_heads u). rev_object_id r = upd_object_id u)"

lemma apply_update_adds:
  assumes "of_one_object u"
  shows "triple (\<lambda>_. True) (apply_update E u counts)
     (\<lambda>_ s. \<forall>r \<in> set (upd_heads u). (upd_object_id u, rev_id r) \<in> head_keys s) (\<lambda>_ _. True)"
proof -
  let ?Q = "\<lambda>s. \<forall>r \<in> set (upd_heads u). (upd_object_id u, rev_id r) \<in> head_keys s"
  have add: "triple (\<lambda>_. True) (and_then (add_heads E (upd_heads u)) (\<lambda>_. ok b)) (\<lambda>_. ?Q) (\<lambda>_ _. True)"
    for b :: "32 word \<times> 32 word"
    by (rule triple_and_then[OF heads_writes_add(2)], rule triple_ok) (use assms in \<open>auto simp: of_one_object_def\<close>)
  have replace: "triple (\<lambda>_. True) (and_then (replace_heads E (upd_object_id u) (upd_heads u)) (\<lambda>_. ok b)) (\<lambda>_. ?Q) (\<lambda>_ _. True)"
    for b :: "32 word \<times> 32 word"
    by (rule triple_and_then[OF heads_writes_add(1)], rule triple_ok) auto
  show ?thesis
    unfolding apply_update_def
    by (auto split: prod.split HeadAction.split intro!: triple_and_then[OF triple_any] add replace)
qed

text \<open>The updates of a pull, each about another object: all their heads are heads at the end.\<close>

lemma apply_updates_add:
  assumes "distinct (map upd_object_id us)" "\<And>u. u \<in> set us \<Longrightarrow> of_one_object u"
  shows "triple client_inv (apply_updates E us)
     (\<lambda>_ s. \<forall>u \<in> set us. \<forall>r \<in> set (upd_heads u). (upd_object_id u, rev_id r) \<in> head_keys s) (\<lambda>_ _. True)"
proof -
  let ?in = "\<lambda>us s. \<forall>u \<in> set us. \<forall>r \<in> set (upd_heads u). (upd_object_id u, rev_id r) \<in> head_keys s"
  have "triple (\<lambda>s. client_inv s \<and> ?in done_us s) (fold_each (apply_update E) us acc)
      (\<lambda>_ s. client_inv s \<and> ?in (done_us @ us) s) (\<lambda>_ _. True)"
    if "distinct (map upd_object_id (done_us @ us))" "\<And>u. u \<in> set us \<Longrightarrow> of_one_object u" for done_us us acc
    using that
  proof (induction us arbitrary: done_us acc)
    case (Cons u us)
    have others: "(ob, i) \<in> head_keys s'"
      if "client_inv s" "(ob, i) \<in> head_keys s" "apply_update E u acc s = (Inr a, s')" "ob \<noteq> upd_object_id u" for ob i s a s'
      using triple_Inr[OF kept_apply_update[of u "(ob, i)" False E acc], of s a s'] that
      by (auto simp: replaces_def kept_head_def)
    have step: "triple (\<lambda>s. client_inv s \<and> ?in done_us s) (apply_update E u acc)
        (\<lambda>_ s. client_inv s \<and> ?in (done_us @ [u]) s) (\<lambda>_ _. True)"
    proof (rule tripleI)
      fix s a s'
      assume s: "client_inv s \<and> ?in done_us s" and run: "apply_update E u acc s = (Inr a, s')"
      have "client_inv s'"
        using triple_Inr[OF apply_update_stores[of "{}"] _ run] s by (simp add: inv_with_def)
      moreover have "?in [u] s'"
        using triple_Inr[OF apply_update_adds[OF Cons.prems(2)[of u]] TrueI run] by simp
      moreover have "?in done_us s'"
      proof (intro ballI)
        fix v r
        assume v: "v \<in> set done_us" "r \<in> set (upd_heads v)"
        with Cons.prems(1) have "upd_object_id v \<noteq> upd_object_id u" by (auto simp: image_iff)
        with s v others[OF _ _ run] show "(upd_object_id v, rev_id r) \<in> head_keys s'" by blast
      qed
      ultimately show "client_inv s' \<and> ?in (done_us @ [u]) s'" by auto
    qed simp
    have "triple (\<lambda>s. client_inv s \<and> ?in (done_us @ [u]) s) (fold_each (apply_update E) us b)
        (\<lambda>_ s. client_inv s \<and> ?in (done_us @ u # us) s) (\<lambda>_ _. True)" for b
      using Cons.IH[of "done_us @ [u]" b] Cons.prems by simp
    then show ?case unfolding fold_each.simps by (rule triple_and_then[OF step])
  qed (simp add: triple_ok)
  from this[of "[]" us "(0, 0)"] assms have "triple client_inv (apply_updates E us)
      (\<lambda>_ s. client_inv s \<and> ?in us s) (\<lambda>_ _. True)"
    unfolding apply_updates_def by simp
  then show ?thesis by (rule triple_weaken) auto
qed

end
