(* ===== verification/EndToEnd.thy ===== *)
theory EndToEnd
  imports Overlap Service
begin

text \<open>
  The client over the server. Requests travel to the router of the server and back; a request or
  its answer can be lost on the way, and other requests overlap with it. The server meets the
  contract the client relies on, so what holds of the client over any such service holds of the
  whole system.
\<close>

section \<open>Transport\<close>

text \<open>What the network does to one exchange\<close>

datatype delivery = Delivered | Request_Lost | Response_Lost

text \<open>
  The HTTP client on one connection: the address and the headers the server sees, and the fate
  of an exchange in a given state. \<^verbatim>\<open>resp.ok()\<close> means a status from 200 to 299; the messages
  survive encoding as JSON.
\<close>

record connection =
  con_peer :: "IpAddr option"
  con_headers :: "(string \<times> string) list"

definition received :: "('v Body \<Rightarrow> 'a option) \<Rightarrow> 'v Response \<Rightarrow> 'a http_result" where
  "received read resp =
     (if 200 \<le> status resp \<and> status resp < 300
      then (case read (body resp) of Some a \<Rightarrow> Answer a | None \<Rightarrow> Bad_Json ''unexpected body'')
      else Status (status resp))"

definition exchange ::
  "'n Value env \<Rightarrow> ('n, 'f) numbers \<Rightarrow> ServerStore \<Rightarrow> connection \<Rightarrow> ('n Value pool \<Rightarrow> delivery) \<Rightarrow>
     'n Value Endpoint \<Rightarrow> ('n Value Body \<Rightarrow> 'a option) \<Rightarrow> 'n Value pool \<Rightarrow> 'a http_result \<times> 'n Value pool" where
  "exchange E N store con net e read p =
     (case net p of
        Request_Lost \<Rightarrow> (Send_Failed ''network'', p)
      | fate \<Rightarrow>
          (case router E N store \<lparr> peer = con_peer con, req_headers = con_headers con, endpoint = e \<rparr> p of
             (resp, p') \<Rightarrow> (if fate = Delivered then received read resp else Send_Failed ''network'', p')))"

definition no_route :: "'v Endpoint" where
  "no_route = Answered_By_Axum (respond 404 Empty_Body)"

fun read_push :: "'v Body \<Rightarrow> PushResponse option" where
  "read_push (Json_Push r) = Some r"
| "read_push _ = None"

fun read_pull :: "'v Body \<Rightarrow> 'v PullResponse option" where
  "read_pull (Json_Pull r) = Some r"
| "read_pull _ = None"

fun read_whoami :: "'v Body \<Rightarrow> WhoAmIResponse option" where
  "read_whoami (Json_WhoAmI r) = Some r"
| "read_whoami _ = None"

text \<open>The server at a base URL, with the routes the client asks for\<close>

definition http_server ::
  "'n Value env \<Rightarrow> ('n, 'f) numbers \<Rightarrow> ServerStore \<Rightarrow> connection \<Rightarrow> ('n Value pool \<Rightarrow> delivery) \<Rightarrow> string \<Rightarrow>
     ('n Value, 'n Value pool) remote_server" where
  "http_server E N store con net base =
     \<lparr> post_changes = (\<lambda>u q. exchange E N store con net
          (if u = base @ ''/changes'' then Post_Changes q else no_route) read_push),
       post_changes_query = (\<lambda>u q. exchange E N store con net
          (if u = base @ ''/changes/query'' then Post_Changes_Query q else no_route) read_pull),
       get_whoami = (\<lambda>u. exchange E N store con net
          (if u = base @ ''/whoami'' then Get_WhoAmI else no_route) read_whoami) \<rparr>"

section \<open>Answers of the server\<close>

abbreviation known_revisions :: "'v pool \<Rightarrow> RevisionId set" where
  "known_revisions p \<equiv> RevisionId ` known_ids (tables p)"

text \<open>The client the provider names for the address of a connection\<close>

definition caller :: "ServerStore \<Rightarrow> connection \<Rightarrow> ClientId option" where
  "caller store con =
     Option.bind (extract_ip \<lparr> peer = con_peer con, req_headers = con_headers con,
         endpoint = Get_WhoAmI :: unit Endpoint \<rparr> (store_ip_source store))
       (\<lambda>ip. case store_auth store ip of Inr info \<Rightarrow> Some (auth_client_id info) | Inl _ \<Rightarrow> None)"

lemma extract_ip_endpoint:
  "extract_ip \<lparr> peer = a, req_headers = h, endpoint = e \<rparr> src = extract_ip \<lparr> peer = a, req_headers = h, endpoint = e' \<rparr> src"
  by (cases src) (simp_all add: extract_ip_def)

text \<open>An answer comes from the handler of the endpoint, after the client has been registered.\<close>

lemma exchange_Answer:
  assumes "exchange E N store con net e read p = (Answer a, p')" "\<And>m. read (Json_Error m) = None"
  obtains info q resp where "caller store con = Some (auth_client_id info)"
    "upsert_client E (auth_client_id info) (auth_user_id info) p = (Inr (), q)"
    "dispatch E N info e q = (Inr resp, p')" "read (body resp) = Some a"
proof -
  let ?req = "\<lparr> peer = con_peer con, req_headers = con_headers con, endpoint = e \<rparr>"
  obtain resp where here: "router E N store ?req p = (resp, p')" and read: "read (body resp) = Some a"
    using assms(1) by (auto simp: exchange_def received_def split: delivery.splits prod.splits if_splits option.splits)
  have error: "\<nexists>m. body resp = Json_Error m" using read assms(2) by auto
  have refused: "resp \<noteq> unauthenticated" "resp \<noteq> provider_error" "resp \<noteq> into_response x" for x
    using error by (auto simp: unauthenticated_def provider_error_def into_response_def respond_def split: prod.splits)
  from here refused(1,2) obtain ip info q where ip: "extract_ip ?req (store_ip_source store) = Some ip"
    and info: "store_auth store ip = Inr info"
    and up: "upsert_client E (auth_client_id info) (auth_user_id info) p = (Inr (), q)"
    and run: "routed E N info ?req q = (resp, p')"
    by (auto simp: router_def auth_call_def AuthLayer_new_def split: option.splits sum.splits AuthError.splits prod.splits)
  have "caller store con = Some (auth_client_id info)"
    using ip info by (simp add: caller_def extract_ip_endpoint[where e = Get_WhoAmI and e' = e])
  moreover from run refused(3) have "dispatch E N info e q = (Inr resp, p')"
    by (auto simp: routed_def split: prod.splits sum.splits)
  ultimately show thesis using that up read by blast
qed

subsection \<open>What a pull delivers is stored\<close>

lemma row_to_revision_id: "rev_id (row_to_revision_sync d row ps) = RevisionId (row_id row)"
  by (simp add: row_to_revision_sync_def)

lemma collect_heads_ids:
  assumes "collect_heads pm passes ids (rows, revs, b) = (rows', revs', b')"
    and "\<And>h row. rows h = Some row \<Longrightarrow> row_id row \<in> K" "rev_id ` set revs \<subseteq> RevisionId ` K"
  shows "rev_id ` set revs' \<subseteq> RevisionId ` K \<and> (\<forall>h row. rows' h = Some row \<longrightarrow> row_id row \<in> K)"
  using assms
proof (induction ids arbitrary: rows revs b)
  case (Cons i ids)
  show ?case
  proof (cases "rows i")
    case None
    with Cons show ?thesis by auto
  next
    case (Some row)
    with Cons.prems(1) have run: "collect_heads pm passes ids (rows(i := None),
        revs @ [row_to_revision_sync Null row (get_or_default pm (row_id row))], b \<or> passes row) = (rows', revs', b')" by simp
    show ?thesis
      by (rule Cons.IH[OF run]) (use Cons.prems(2,3) Some in \<open>auto simp: row_to_revision_id split: if_splits\<close>)
  qed
qed auto

lemma build_updates_ids:
  assumes "\<And>h row. rows h = Some row \<Longrightarrow> row_id row \<in> K"
    and "\<Union> ((\<lambda>u. rev_id ` set (upd_heads u)) ` set updates) \<subseteq> RevisionId ` K"
  shows "\<Union> ((\<lambda>u. rev_id ` set (upd_heads u)) ` set (build_updates hbo pm passes objects rows updates)) \<subseteq> RevisionId ` K"
  using assms
proof (induction objects arbitrary: rows updates)
  case (Cons ob objects)
  show ?case
  proof (cases "hbo ob")
    case None
    with Cons show ?thesis by simp
  next
    case (Some ids)
    obtain rows' revs' b' where run: "collect_heads pm passes ids (rows, [], False) = (rows', revs', b')"
      by (cases "collect_heads pm passes ids (rows, [], False)")
    have ids: "rev_id ` set revs' \<subseteq> RevisionId ` K" "\<And>h row. rows' h = Some row \<Longrightarrow> row_id row \<in> K"
      using collect_heads_ids[OF run Cons.prems(1)] by simp_all
    show ?thesis
      using Cons.IH[OF ids(2), where updates = updates] Cons.IH[OF ids(2), where updates = "updates @ [object_update ob revs']"] Cons.prems(2) ids(1) Some run
      by (auto simp: object_update_def)
  qed
qed simp

lemma found_rows_known:
  assumes "plans_permute E"
    and "map_of (map (\<lambda>r. (row_id r, r)) (rev (plan_rows E (filter P (revisions t))))) h = Some row"
  shows "row_id row \<in> known_ids t"
proof -
  have "row \<in> set (plan_rows E (filter P (revisions t)))" using map_of_SomeD[OF assms(2)] by auto
  then have "row \<in> set (filter P (revisions t))"
    using assms(1) permuted_set[of "plan_rows E"] unfolding plans_permute_def by metis
  then show ?thesis by auto
qed

abbreviation updates_known :: "(sqlx_error + 'n Value ObjectUpdate list) \<Rightarrow> 'n Value pool \<Rightarrow> bool" where
  "updates_known r p \<equiv> \<forall>ups. r = Inr ups \<longrightarrow> (\<Union>u \<in> set ups. rev_id ` set (upd_heads u)) \<subseteq> known_revisions p"

lemma assemble_task_stored:
  assumes "plans_permute E"
  shows "ensures grows updates_known (assemble_updates_task E passes cs) p"
proof -
  let ?rows = "\<lambda>ids t. plan_rows E (filter (\<lambda>r. row_id r \<in> set ids) (revisions t))"
  have rows: "ensures grows (\<lambda>r p'. case r of Inl e \<Rightarrow> True | Inr a \<Rightarrow> \<exists>q. grows p q \<and> grows q p' \<and> a = ?rows ids (tables q))
      (await (get_revision_rows_by_ids E ids)) p" for ids p
    by (rule await_reads) (auto simp: get_revision_rows_by_ids_def intro!: reads_query always_intros)
  have built: "ensures grows updates_known (done_ok (build_updates hs pm passes cs
      (map_of (map (\<lambda>r. (row_id r, r)) (rev (?rows ids (tables q))))) [])) p'" if "grows q p'" for hs pm ids q p'
  proof -
    let ?ups = "build_updates hs pm passes cs (map_of (map (\<lambda>r. (row_id r, r)) (rev (?rows ids (tables q))))) []"
    have "(\<Union>u \<in> set ?ups. rev_id ` set (upd_heads u)) \<subseteq> known_revisions q"
      by (rule build_updates_ids[OF found_rows_known[OF assms]]) simp_all
    moreover have "known_revisions q \<subseteq> known_revisions s" if "grows p' s" for s
      by (intro image_mono log_extends_known grows_log grows_trans[OF \<open>grows q p'\<close> that])
    ultimately have "(\<Union>u \<in> set ?ups. rev_id ` set (upd_heads u)) \<subseteq> known_revisions s" if "grows p' s" for s
      by (rule order_trans[OF _ _]) (rule that)
    then show ?thesis unfolding ensures_Done sum.inject by (intro allI impI) (simp only:)
  qed
  show ?thesis
    unfolding assemble_updates_task_def
  proof (rule server.ensures_then[OF respects_await[OF reads_grow(5)]])
    fix hs p1
    show "ensures grows updates_known (then_task (await (get_revision_rows_by_ids E (map snd hs)))
        (\<lambda>revision_rows. then_task (await (get_parents_batch E (map snd hs)))
           (\<lambda>parents_map. done_ok (build_updates (group_rows hs Map.empty) parents_map passes cs
              (map_of (map (\<lambda>r. (row_id r, r)) (rev revision_rows))) [])))) p1"
    proof (rule server.ensures_then[OF rows])
      fix found p2
      assume "case Inr found of Inl e \<Rightarrow> True | Inr a \<Rightarrow> \<exists>q. grows p1 q \<and> grows q p2 \<and> a = ?rows (map snd hs) (tables q)"
      then obtain q where "grows q p2" and found: "found = ?rows (map snd hs) (tables q)" by auto
      have "ensures grows updates_known (done_ok (build_updates (group_rows hs Map.empty) pm passes cs
              (map_of (map (\<lambda>r. (row_id r, r)) (rev found))) [])) p3" if "grows p2 p3" for pm p3
        unfolding found by (rule built[OF grows_trans[OF \<open>grows q p2\<close> that]])
      then show "ensures grows updates_known (then_task (await (get_parents_batch E (map snd hs)))
           (\<lambda>parents_map. done_ok (build_updates (group_rows hs Map.empty) parents_map passes cs
              (map_of (map (\<lambda>r. (row_id r, r)) (rev found))) []))) p2"
        by (intro server.ensures_then[OF respects_await[OF reads_grow(2)]]) simp_all
    qed simp
  qed simp
qed

lemma fetch_task_stored:
  assumes "plans_permute E"
  shows "ensures grows updates_known (fetch_object_updates_task E N client since up_to types created content) p"
proof (cases "uint (transaction_u64 up_to) > i64_max")
  case False
  have "ensures grows updates_known (if changed = [] then done_ok [] else assemble_updates_task E passes changed) q"
    for changed passes q
    using assemble_task_stored[OF assms] by simp
  with False show ?thesis
    unfolding fetch_object_updates_task_def
    by (simp only: if_False) (rule server.ensures_then[OF respects_await[OF reads_grow(6)]], simp_all)
qed (simp add: fetch_object_updates_task_def)

lemma pull_task_stored:
  assumes "plans_permute E"
  shows "ensures grows (\<lambda>r p'. \<forall>answer. body (case r of Inl e \<Rightarrow> into_response e | Inr resp \<Rightarrow> resp) = Json_Pull answer \<longrightarrow>
      delivered_ids answer \<subseteq> known_revisions p')
    (pull_changes_task E N auth req) p"
proof -
  let ?Q = "\<lambda>r p'. \<forall>answer. body (case r of Inl e \<Rightarrow> into_response e | Inr resp \<Rightarrow> resp) = Json_Pull answer \<longrightarrow>
      delivered_ids answer \<subseteq> known_revisions p'"
  have fetch: "ensures grows (\<lambda>r p'. \<forall>ups. r = Inr ups \<longrightarrow> (\<Union>u \<in> set ups. rev_id ` set (upd_heads u)) \<subseteq> known_revisions p')
      (map_err_task Err_Database (fetch_object_updates_task E N c s u ty cr co)) q" for c s u ty cr co q
    by (rule server.ensures_map_err, rule server.ensures_weaken[OF fetch_task_stored[OF assms]])
      (auto split: sum.splits simp: map_sum_def)
  have answer: "ensures grows ?Q (then_task (map_err_task Err_Database (fetch_object_updates_task E N c s (TransactionId m) ty cr co))
      (\<lambda>updates. done_ok (respond 200 (Json_Pull \<lparr>up_to_transaction = TransactionId m, object_updates = updates\<rparr>)))) q" for c s m ty cr co q
  proof (rule server.ensures_then[OF fetch])
    fix ups :: "'a Value ObjectUpdate list" and q'
    assume "\<forall>us. Inr ups = Inr us \<longrightarrow> (\<Union>u \<in> set us. rev_id ` set (upd_heads u)) \<subseteq> known_revisions q'"
    then have ups: "(\<Union>u \<in> set ups. rev_id ` set (upd_heads u)) \<subseteq> known_revisions q'" by blast
    have "known_revisions q' \<subseteq> known_revisions s" if "grows q' s" for s
      by (intro image_mono log_extends_known grows_log that)
    with ups have "(\<Union>u \<in> set ups. rev_id ` set (upd_heads u)) \<subseteq> known_revisions s" if "grows q' s" for s
      using that by (meson order_trans)
    then show "ensures grows ?Q (done_ok (respond 200 (Json_Pull \<lparr>up_to_transaction = TransactionId m, object_updates = ups\<rparr>))) q'"
      by simp
  qed simp
  show ?thesis
  proof (cases "case pull_since req of Some since \<Rightarrow> uint (transaction_u64 since) > i64_max | None \<Rightarrow> False")
    case True
    then show ?thesis by (simp add: pull_changes_task_def)
  next
    case False
    then show ?thesis
      unfolding pull_changes_task_def if_not_P[OF False]
      by (intro server.ensures_then[OF respects_map_err[OF respects_await[OF reads_grow(3)]] answer]) simp
  qed
qed

subsection \<open>The server at a URL\<close>

text \<open>The base URL of a server is the URL of the client without trailing slashes.\<close>

abbreviation site :: "'n Value env \<Rightarrow> ('n, 'f) numbers \<Rightarrow> ServerStore \<Rightarrow> connection \<Rightarrow> ('n Value pool \<Rightarrow> delivery) \<Rightarrow>
    string \<Rightarrow> ('n Value, 'n Value pool) remote_server" where
  "site E N store con net url \<equiv> http_server E N store con net (trim_end_matches CHR ''/'' url)"

lemma site_requests:
  "post_changes (site E N store con net url) (changes_url url) q = exchange E N store con net (Post_Changes q) read_push"
  "post_changes_query (site E N store con net url) (query_url url) r =
     exchange E N store con net (Post_Changes_Query r) read_pull"
  "get_whoami (site E N store con net url) (whoami_url url) = exchange E N store con net Get_WhoAmI read_whoami"
  by (simp_all add: http_server_def url_of_def)

section \<open>The server among other requests\<close>

text \<open>
  The same exchange with a server that is busy: each time the task of the request is resumed,
  others have changed the database by \<open>I\<close>, as far as requests do (\<open>grows\<close>).
\<close>

definition exchange_among ::
  "'n Value env \<Rightarrow> ('n, 'f) numbers \<Rightarrow> ServerStore \<Rightarrow> connection \<Rightarrow> ('n Value pool \<Rightarrow> delivery) \<Rightarrow>
     ('n Value pool \<Rightarrow> 'n Value pool) \<Rightarrow> 'n Value Endpoint \<Rightarrow> ('n Value Body \<Rightarrow> 'a option) \<Rightarrow> 'n Value pool \<Rightarrow>
     'a http_result \<times> 'n Value pool" where
  "exchange_among E N store con net I e read p =
     (case net p of
        Request_Lost \<Rightarrow> (Send_Failed ''network'', p)
      | fate \<Rightarrow>
          (case run_among I (request_task E N store
              \<lparr> peer = con_peer con, req_headers = con_headers con, endpoint = e \<rparr>) p of
             (Inr resp, p') \<Rightarrow> (if fate = Delivered then received read resp else Send_Failed ''network'', p')
           | (Inl _, p') \<Rightarrow> (Send_Failed ''network'', p')))"

definition busy_server ::
  "'n Value env \<Rightarrow> ('n, 'f) numbers \<Rightarrow> ServerStore \<Rightarrow> connection \<Rightarrow> ('n Value pool \<Rightarrow> delivery) \<Rightarrow>
     ('n Value pool \<Rightarrow> 'n Value pool) \<Rightarrow> string \<Rightarrow> ('n Value, 'n Value pool) remote_server" where
  "busy_server E N store con net I base =
     \<lparr> post_changes = (\<lambda>u q. exchange_among E N store con net I
          (if u = base @ ''/changes'' then Post_Changes q else no_route) read_push),
       post_changes_query = (\<lambda>u q. exchange_among E N store con net I
          (if u = base @ ''/changes/query'' then Post_Changes_Query q else no_route) read_pull),
       get_whoami = (\<lambda>u. exchange_among E N store con net I
          (if u = base @ ''/whoami'' then Get_WhoAmI else no_route) read_whoami) \<rparr>"

abbreviation busy_site :: "'n Value env \<Rightarrow> ('n, 'f) numbers \<Rightarrow> ServerStore \<Rightarrow> connection \<Rightarrow> ('n Value pool \<Rightarrow> delivery) \<Rightarrow>
    ('n Value pool \<Rightarrow> 'n Value pool) \<Rightarrow> string \<Rightarrow> ('n Value, 'n Value pool) remote_server" where
  "busy_site E N store con net I url \<equiv> busy_server E N store con net I (trim_end_matches CHR ''/'' url)"

lemma exchange_alone: "exchange_among E N store con net (\<lambda>p. p) e read = exchange E N store con net e read"
  by (auto simp: fun_eq_iff exchange_among_def exchange_def run_among_nothing uninterrupted_request
      split: delivery.split prod.split)

lemma site_alone: "busy_site E N store con net (\<lambda>p. p) url = site E N store con net url"
  by (simp add: busy_server_def http_server_def exchange_alone)

lemma busy_site_requests:
  "post_changes (busy_site E N store con net I url) (changes_url url) q =
     exchange_among E N store con net I (Post_Changes q) read_push"
  "post_changes_query (busy_site E N store con net I url) (query_url url) r =
     exchange_among E N store con net I (Post_Changes_Query r) read_pull"
  "get_whoami (busy_site E N store con net I url) (whoami_url url) =
     exchange_among E N store con net I Get_WhoAmI read_whoami"
  by (simp_all add: busy_server_def url_of_def)

lemma request_run_grows:
  assumes "\<And>p. grows p (I p)" "run_among I (request_task E N store req) p = (r, p')"
  shows "grows p p'"
  using server.ensures_during[OF request_task_respects run_among_during[where I = I and R = grows, OF assms]] by blast

lemma exchange_among_grows:
  assumes "\<And>p. grows p (I p)"
  shows "grows p (snd (exchange_among E N store con net I e read p))"
  using request_run_grows[where I = I, OF assms]
  by (auto simp: exchange_among_def grows_refl split: delivery.split sum.split prod.split)

text \<open>In particular the others may be any requests.\<close>

lemma served_grows:
  assumes "served N p p'"
  shows "grows p p'"
  using assms
proof cases
  case (request E store req resp)
  then have "run_among (\<lambda>p. p) (request_task E N store req) p = (Inr resp, p')"
    by (simp add: run_among_nothing uninterrupted_request)
  then show ?thesis by (rule request_run_grows[where I = "\<lambda>p. p", OF grows_refl])
qed

lemma exchange_among_Answer:
  assumes "\<And>p. grows p (I p)" "exchange_among E N store con net I e read p = (Answer a, p')"
    and "ensures grows Q (request_task E N store \<lparr> peer = con_peer con, req_headers = con_headers con, endpoint = e \<rparr>) p"
  obtains resp where "Q (Inr resp) p'" "read (body resp) = Some a"
proof -
  let ?c = "request_task E N store \<lparr> peer = con_peer con, req_headers = con_headers con, endpoint = e \<rparr>"
  obtain resp where run: "run_among I ?c p = (Inr resp, p')" and "read (body resp) = Some a"
    using assms(2) by (auto simp: exchange_among_def received_def
        split: delivery.splits prod.splits sum.splits if_splits option.splits)
  moreover have "Q (Inr resp) p'"
    by (rule server.ensures_result[OF assms(3) run_among_during[where I = I and R = grows, OF assms(1) run]])
  ultimately show thesis using that by blast
qed

subsection \<open>The server meets the contract\<close>

lemma read_push_Some [simp]: "read_push b = Some x \<longleftrightarrow> b = Json_Push x"
  by (cases b) simp_all

lemma read_pull_Some [simp]: "read_pull b = Some y \<longleftrightarrow> b = Json_Pull y"
  by (cases b) simp_all

lemma busy_push:
  assumes "\<And>p. grows p (I p)" "exchange_among E N store con net I (Post_Changes q) read_push p = (Answer resp, p')"
  shows "set (resp_accepted resp) \<subseteq> known_revisions p'"
    and "rev_id ` set (push_req_revisions q) = set (resp_accepted resp) \<union> rejected_revision_id ` set (resp_rejected resp)"
proof -
  let ?req = "\<lparr> peer = con_peer con, req_headers = con_headers con, endpoint = Post_Changes q \<rparr>"
  have "endpoint ?req = Post_Changes q" by simp
  from exchange_among_Answer[where I = I, OF assms request_push_answer[OF this]] obtain client where
    "push_effect E client (push_req_revisions q) p resp p'" by auto
  then obtain A s s' where parts: "mset (map rev_id A) + mset (map rejected_revision_id (resp_rejected resp)) =
      mset (map rev_id (push_req_revisions q))"
    and A: "accepted_revs (tables s) client Map.empty A = A"
    and resp: "resp = (push_answer client A (tables s))\<lparr>resp_rejected := resp_rejected resp\<rparr>"
    and run: "pushed E client A (tables s) (tables s')" "grows s' p'" and "grows p s" "grows s s'"
    unfolding push_effect_def by (elim exE conjE) (rule that, assumption+)
  have acc: "resp_accepted resp = map rev_id A" using arg_cong[OF resp, of resp_accepted] A by simp
  have "revision_uuid ` rev_id ` set A \<subseteq> known_ids (tables s')"
    using pushed_ids[OF run(1)] A by simp
  also have "\<dots> \<subseteq> known_ids (tables p')" by (rule log_extends_known[OF grows_log[OF run(2)]])
  finally have "RevisionId ` revision_uuid ` rev_id ` set A \<subseteq> known_revisions p'" by (rule image_mono)
  then show "set (resp_accepted resp) \<subseteq> known_revisions p'" by (simp add: acc image_image)
  show "rev_id ` set (push_req_revisions q) = set (resp_accepted resp) \<union> rejected_revision_id ` set (resp_rejected resp)"
    using arg_cong[OF parts, of set_mset] by (simp add: acc image_Un)
qed

lemma busy_pull:
  assumes "\<And>p. grows p (I p)" "plans_permute E"
    and "exchange_among E N store con net I (Post_Changes_Query r) read_pull p = (Answer resp, p')"
  shows "delivered_ids resp \<subseteq> known_revisions p'"
proof -
  let ?req = "\<lparr> peer = con_peer con, req_headers = con_headers con, endpoint = Post_Changes_Query r \<rparr>"
  let ?P = "\<lambda>info resp p p'. \<forall>answer. body resp = Json_Pull answer \<longrightarrow> delivered_ids answer \<subseteq> known_revisions p'"
  have task: "ensures grows (\<lambda>x p'. ?P info (case x of Inl e \<Rightarrow> into_response e | Inr resp \<Rightarrow> resp) q p')
      (dispatch_task E N info (endpoint ?req)) q" for info q
    using pull_task_stored[OF assms(2)] by simp
  have "ensures grows (\<lambda>x p'. \<exists>resp. x = Inr resp \<and> (resp \<in> {unauthenticated, provider_error} \<or>
      (\<exists>ip info. extract_ip ?req (store_ip_source store) = Some ip \<and> store_auth store ip = Inr info \<and> ?P info resp p p')))
    (request_task E N store ?req) p"
    by (rule request_task_result[where P = ?P]) (rule task, assumption)
  then have "ensures grows (\<lambda>x p'. \<forall>resp answer. x = Inr resp \<longrightarrow> body resp = Json_Pull answer \<longrightarrow>
      delivered_ids answer \<subseteq> known_revisions p') (request_task E N store ?req) p"
    by (rule server.ensures_weaken) (auto simp: unauthenticated_def provider_error_def simp del: UN_subset_iff del: subsetI)
  from exchange_among_Answer[where I = I, OF assms(1,3) this] show ?thesis by simp
qed

text \<open>The database only grows from the state \<open>p0\<close> on.\<close>

interpretation busy_service:
  sync_service "busy_site E N store con net I url" url
    "\<lambda>p. plans_permute E \<and> (\<forall>q. grows q (I q)) \<and> db_inv (tables p) \<and> grows p0 p" known_revisions
  for E N store con net I url p0
proof
  fix p p' :: "'a Value pool" and q r resp
  assume good: "plans_permute E \<and> (\<forall>q. grows q (I q)) \<and> db_inv (tables p) \<and> grows p0 p"
  then have I: "grows q (I q)" for q by blast
  have keeps: "db_inv (tables (snd (exchange_among E N store con net I e read p))) \<and>
      grows p0 (snd (exchange_among E N store con net I e read p))"
    "known_revisions p \<subseteq> known_revisions (snd (exchange_among E N store con net I e read p))" for e read
  proof -
    have "grows p (snd (exchange_among E N store con net I e read p))" by (rule exchange_among_grows[where I = I, OF I])
    from grows_inv[OF _ this] grows_trans[OF _ this] image_mono[OF log_extends_known[OF grows_log[OF this]]] good
    show "db_inv (tables (snd (exchange_among E N store con net I e read p))) \<and>
        grows p0 (snd (exchange_among E N store con net I e read p))"
      "known_revisions p \<subseteq> known_revisions (snd (exchange_among E N store con net I e read p))" by simp_all
  qed
  let ?good = "\<lambda>p. plans_permute E \<and> (\<forall>q. grows q (I q)) \<and> db_inv (tables p) \<and> grows p0 p"
  show "?good (snd (post_changes (busy_site E N store con net I url) (changes_url url) q p))"
    "?good (snd (post_changes_query (busy_site E N store con net I url) (query_url url) r p))"
    "?good (snd (get_whoami (busy_site E N store con net I url) (whoami_url url) p))"
    unfolding busy_site_requests using good keeps(1) by simp_all
  show "known_revisions p \<subseteq> known_revisions (snd (post_changes (busy_site E N store con net I url) (changes_url url) q p))"
    "known_revisions p \<subseteq> known_revisions (snd (post_changes_query (busy_site E N store con net I url) (query_url url) r p))"
    "known_revisions p \<subseteq> known_revisions (snd (get_whoami (busy_site E N store con net I url) (whoami_url url) p))"
    unfolding busy_site_requests by (rule keeps(2))+
  show "set (resp_accepted resp) \<subseteq> known_revisions p'"
    "rev_id ` set (push_req_revisions q) = set (resp_accepted resp) \<union> rejected_revision_id ` set (resp_rejected resp)"
    if "post_changes (busy_site E N store con net I url) (changes_url url) q p = (Answer resp, p')"
    using that unfolding busy_site_requests by (rule busy_push[where I = I, OF I])+
  show "delivered_ids pulled \<subseteq> known_revisions p'"
    if "post_changes_query (busy_site E N store con net I url) (query_url url) r p = (Answer pulled, p')" for pulled
    using that unfolding busy_site_requests by (rule busy_pull[where I = I, OF I conjunct1[OF good]])
qed

section \<open>The system\<close>

text \<open>
  One client and the server, from their beginnings: calls of the client over the network, each
  with its own faults on both sides and with requests of anybody else that overlap with it, and
  requests of anybody else in between. \<open>envs\<close> are the environments the calls run in.
\<close>

inductive system_reaches ::
  "('n, 'f) numbers \<Rightarrow> string \<Rightarrow> ('n Value, 'j, 'n Value pool, 't) client_env set \<Rightarrow> ('j, 'n Value pool) world \<Rightarrow> bool"
  for N url envs where
  begins: "tables p = empty_tables \<Longrightarrow> system_reaches N url envs \<lparr>local_db = empty_db, remote = p\<rparr>"
| calls: "system_reaches N url envs w \<Longrightarrow> X \<in> envs \<Longrightarrow> ce_server X = busy_site E N store con net I url \<Longrightarrow>
    (\<And>q. grows q (I q)) \<Longrightarrow> plans_permute E \<Longrightarrow> addressed url c \<Longrightarrow> system_reaches N url envs (after_call X c w)"
| served_elsewhere: "system_reaches N url envs w \<Longrightarrow> served N (remote w) p \<Longrightarrow> system_reaches N url envs (w\<lparr>remote := p\<rparr>)"

lemma system_sound:
  "system_reaches N url envs w \<Longrightarrow>
     db_inv (tables (remote w)) \<and> synced_inv (known_revisions (remote w)) (local_db w)"
proof (induction rule: system_reaches.induct)
  case (begins p)
  then show ?case by (simp add: db_inv_empty synced_inv_def synced_within_def inv_with_def empty_db_inv) (simp add: empty_db_def)
next
  case (calls w X E store con net I c)
  then have "busy_service.sound E I (remote w) w" unfolding busy_service.sound_def using grows_refl by blast
  from busy_service.sound_call[OF this calls.hyps(3,6)] show ?case unfolding busy_service.sound_def by blast
next
  case (served_elsewhere w p)
  note grown = served_grows[OF served_elsewhere.hyps(2)]
  have "db_inv (tables p)" using grows_inv[OF _ grown] served_elsewhere.IH by simp
  moreover have "synced_within (known_revisions p) (local_db w)"
    by (rule synced_within_mono[OF _ image_mono[OF log_extends_known[OF grows_log[OF grown]]]])
      (use served_elsewhere.IH in \<open>simp add: synced_inv_def\<close>)
  ultimately show ?case using served_elsewhere.IH by (simp add: synced_inv_def)
qed

text \<open>
  C4: what a client regards as synchronised is stored on the server. In every state the
  system reaches, whatever requests of the browser and calls of the database fail, whatever
  the network loses, and whatever other clients do, also while a request of the client is under
  way, the server has every revision that the client's database marks as synchronised.
\<close>

theorem synced_is_stored:
  assumes "system_reaches N url envs w" "x \<in> set (map snd (db_revisions (local_db w)))" "rec_sync_status x = Synced"
  shows "rec_id x \<in> known_revisions (remote w)"
proof -
  have "synced_inv (known_revisions (remote w)) (local_db w)" using system_sound[OF assms(1)] by blast
  then show ?thesis
    using assms(2,3) by (fastforce simp: synced_inv_def synced_within_def inv_with_def client_inv_def)
qed

text \<open>A client and its connection: the server sees it at the first address of the provider.\<close>

definition sample_json_idb :: "(nat Value, nat Value) idb_env" where
  "sample_json_idb = \<lparr> idb_fault = (\<lambda>n. False), idb_message = ''quota'', to_js_value = Some, from_js_value = Some,
     js_u64 = (\<lambda>n. n < 2 ^ 53), js_message = ''not a safe integer'', drop_commits = True \<rparr>"

definition sample_connection :: "IpAddr \<Rightarrow> connection" where
  "sample_connection ip = \<lparr> con_peer = Some ip, con_headers = [] \<rparr>"

definition sample_site :: "IpAddr \<Rightarrow> (nat Value, nat Value pool) remote_server" where
  "sample_site ip = site sample_env sample_numbers (ServerStore_new sample_auth) (sample_connection ip)
     (\<lambda>p. Delivered) ''https://sync/''"

definition sample_client_env :: "ClientId \<Rightarrow> IpAddr \<Rightarrow> (nat Value, nat Value, nat Value pool, nat Value) client_env" where
  "sample_client_env c ip = \<lparr> ce_idb = sample_json_idb, ce_key_path_ok = (\<lambda>p. True), ce_server = sample_site ip,
     ce_to_value = Inr, ce_from_value = Inr,
     ce_repo = \<lparr> repo_client_id = c, repo_user_id = UserId 70, repo_schema = IndexSchema_new \<rparr> \<rparr>"

abbreviation client_a :: "(nat Value, nat Value, nat Value pool, nat Value) client_env" where
  "client_a \<equiv> sample_client_env sample_client (V4 [10, 0, 0, 1])"

abbreviation pull_all :: "'v PullRequest" where
  "pull_all \<equiv> \<lparr> pull_since = None, pull_object_types = None, pull_created_at = None, pull_filter = None \<rparr>"

definition first_calls :: "(nat Value, nat Value) client_call list" where
  "first_calls = [Call_Open IndexSchema_new ''https://sync/'',
     Call_Save (ObjectId 10) (RevisionId 1) 5 ''note'' (String ''a''),
     Call_Sync ''https://sync/'' pull_all]"

definition first_world :: "(nat Value, nat Value pool) world" where
  "first_world = fold (after_call client_a) first_calls \<lparr>local_db = empty_db, remote = empty_pool\<rparr>"

lemma client_a_site:
  "ce_server client_a = site sample_env sample_numbers (ServerStore_new sample_auth)
     (sample_connection (V4 [10, 0, 0, 1])) (\<lambda>p. Delivered) ''https://sync/''"
  by (simp add: sample_client_env_def sample_site_def)

lemma client_a_busy_site:
  "ce_server client_a = busy_site sample_env sample_numbers (ServerStore_new sample_auth)
     (sample_connection (V4 [10, 0, 0, 1])) (\<lambda>p. Delivered) (\<lambda>p. p) ''https://sync/''"
  unfolding site_alone by (rule client_a_site)

lemma client_a_reaches:
  "system_reaches sample_numbers ''https://sync/'' {client_a} w \<Longrightarrow> list_all (addressed ''https://sync/'') cs \<Longrightarrow>
     system_reaches sample_numbers ''https://sync/'' {client_a} (fold (after_call client_a) cs w)"
proof (induction cs arbitrary: w)
  case (Cons c cs)
  have here: "system_reaches sample_numbers ''https://sync/'' {client_a} (after_call client_a c w)"
    by (rule calls[OF Cons.prems(1) singletonI client_a_busy_site grows_refl sample_plans]) (use Cons.prems(2) in simp)
  show ?case unfolding fold_simps(2) by (rule Cons.IH[OF here]) (use Cons.prems(2) in simp)
qed simp

lemma first_world_reached: "system_reaches sample_numbers ''https://sync/'' {client_a} first_world"
  unfolding first_world_def first_calls_def
  by (intro client_a_reaches begins) (simp_all add: empty_pool_def)

theorem synced_is_stored_witness:
  "RevisionId 1 \<in> known_revisions (remote first_world) \<and>
   map (\<lambda>x. (rec_id x, rec_sync_status x)) (map snd (db_revisions (local_db first_world))) = [(RevisionId 1, Synced)]"
proof -
  have "map (\<lambda>x. (rec_id x, rec_sync_status x)) (map snd (db_revisions (local_db first_world))) = [(RevisionId 1, Synced)]"
    by code_simp
  then obtain x where "x \<in> set (map snd (db_revisions (local_db first_world)))" "rec_sync_status x = Synced" "rec_id x = RevisionId 1"
    by fastforce
  with synced_is_stored[OF first_world_reached, of x] \<open>map _ _ = _\<close> show ?thesis by simp
qed

end
