(* ===== verification/Catchup.thy ===== *)
theory Catchup
  imports EndToEnd
begin

text \<open>
  What one round of synchronisation achieves, over the model of the server among other requests:
  nothing is left to push, and the client has every head of every matching object that others
  changed.
\<close>

section \<open>What a pull answers\<close>

abbreviation passes_of :: "('n, 'f) numbers \<Rightarrow> 'n Value PullRequest \<Rightarrow> 'n Value RevisionRow \<Rightarrow> bool" where
  "passes_of N q \<equiv> head_passes N (pull_object_types q) (pull_created_at q) (pull_filter q)"

text \<open>A pull from a server that nobody else uses meanwhile\<close>

lemma pulled_alone:
  assumes "exchange E N store con net (Post_Changes_Query r) read_pull p = (Answer resp, p')"
    and "db_inv (tables p)" "plans_permute E" "parents_fit (tables p')"
  obtains client where "caller store con = Some client"
    "up_to_transaction resp = TransactionId (word_of_int (max_transaction_id (tables p')))"
    "updates_exact (passes_of N r) (window (tables p') (since_i64 (pull_since r)) (max_transaction_id (tables p'))
       (client_uuid client)) (tables p') (object_updates resp)"
proof -
  obtain info q0 resp' where client: "caller store con = Some (auth_client_id info)"
    and up: "upsert_client E (auth_client_id info) (auth_user_id info) p = (Inr (), q0)"
    and run: "dispatch E N info (Post_Changes_Query r) q0 = (Inr resp', p')" "read_pull (body resp') = Some resp"
    by (rule exchange_Answer[OF assms(1)]) simp_all
  then obtain q1 latest where latest: "latest_transaction_id E q0 = (Inr latest, q1)"
    and fetch: "fetch_object_updates E N (auth_client_id info) (pull_since r) (TransactionId latest)
        (pull_object_types r) (pull_created_at r) (pull_filter r) q1 = (Inr (object_updates resp), p')"
    and up_to: "up_to_transaction resp = TransactionId latest"
    by (auto simp: pull_changes_def and_then_Inr_iff map_err_Inr_iff ok_def err_def respond_def split: if_splits)
  have q1: "latest = word_of_int (max_transaction_id (tables q0))" "tables q1 = tables q0"
    using latest by (auto simp: latest_transaction_id_def query_Inr_iff)
  have "db_inv (tables q0)"
    using alwaysD[OF upsert_client_keeps_inv up] assms(2) by (simp add: keeps_inv_def)
  moreover have same: "tables p' = tables q1" using fetch_run[OF fetch] by simp
  ultimately have inv: "db_inv (tables q1)" by (simp add: q1(2))
  have "uint (transaction_u64 (TransactionId latest)) = max_transaction_id (tables p')"
    using max_transaction_u64[OF inv] by (simp add: same q1)
  with fetched_exact[OF fetch inv assms(3), folded same, OF assms(4)] show thesis
    using client up_to by (intro that[of "auth_client_id info"]) (simp_all add: q1 same)
qed

text \<open>
  A pull among other requests: the cursor and the window belong to the state \<open>q0\<close> of the server,
  the heads to the later state \<open>q1\<close>. Both are its final state where nobody else uses it.
\<close>

lemma pulled_exact:
  assumes "\<And>p. grows p (I p)" "db_inv (tables p)" "plans_permute E" "parents_fit (tables p')"
    and "exchange_among E N store con net I (Post_Changes_Query r) read_pull p = (Answer resp, p')"
  obtains client q0 q1 where "caller store con = Some client" "grows p q0" "grows q0 q1" "grows q1 p'"
    "I = (\<lambda>p. p) \<longrightarrow> q0 = p' \<and> q1 = p'"
    "up_to_transaction resp = TransactionId (word_of_int (max_transaction_id (tables q0)))"
    "updates_exact (passes_of N r) (window (tables q0) (since_i64 (pull_since r)) (max_transaction_id (tables q0))
       (client_uuid client)) (tables q1) (object_updates resp)"
proof (cases "I = (\<lambda>p. p)")
  case True
  have "grows p (snd (exchange_among E N store con net I (Post_Changes_Query r) read_pull p))"
    by (rule exchange_among_grows[where I = I, OF assms(1)])
  then have grown: "grows p p'" by (simp add: assms(5))
  show thesis
    using assms(5) unfolding True exchange_alone
    by (rule pulled_alone[OF _ assms(2-4)]) (rule that[OF _ grown grows_refl grows_refl], simp_all)
next
  case False
  let ?req = "\<lparr> peer = con_peer con, req_headers = con_headers con, endpoint = Post_Changes_Query r \<rparr>"
  have e: "endpoint ?req = Post_Changes_Query r" by simp
  obtain ip info where ip: "extract_ip ?req (store_ip_source store) = Some ip" "store_auth store ip = Inr info"
    and effect: "pull_effect N info r p resp p'"
    by (rule exchange_among_Answer[where I = I, OF assms(1,5) request_pull_answer[OF e assms(2,3)]]) auto
  have client: "caller store con = Some (auth_client_id info)"
    using ip by (simp add: caller_def extract_ip_endpoint[where e = Get_WhoAmI and e' = "Post_Changes_Query r"])
  show thesis
    using effect assms(4) False unfolding pull_effect_def by (elim exE conjE) (rule that[OF client]; simp)
qed

section \<open>One round\<close>

lemma pull_run:
  assumes "pull_updates E srv url q w = (Inr counts, w')"
  obtains resp p' d where "post_changes_query srv (query_url url) q (remote w) = (Answer resp, p')"
    "apply_updates E (object_updates resp) (local_db w) = (Inr counts, d)"
    "advance_cursor E (up_to_transaction resp) d = (Inr (), local_db w')" "remote w' = p'"
proof -
  obtain res p' where post: "post_changes_query srv (query_url url) q (remote w) = (res, p')"
    by (cases "post_changes_query srv (query_url url) q (remote w)")
  with assms show thesis
    using that by (auto simp: pull_updates_def and_then_Inr_iff on_remote_def on_db_def answer_or_network_def ok_def err_def
        split: http_result.splits prod.splits)
qed

text \<open>The heads of an update belong to its object.\<close>

lemma exact_of_one_object:
  assumes "updates_exact passes W t ups" "db_inv t" "u \<in> set ups"
  shows "of_one_object u" "rev_id ` set (upd_heads u) = RevisionId ` head_set t (object_uuid (upd_object_id u))"
proof -
  let ?ob = "object_uuid (upd_object_id u)"
  have heads: "set (upd_heads u) = (\<lambda>h. decoded t (row_at t h)) ` head_set t ?ob"
    using assms(1,3) by (simp add: updates_exact_def)
  have "ObjectId ?ob = upd_object_id u" by simp
  then show "of_one_object u"
    using head_row_decoded(2)[OF assms(2)] by (auto simp: of_one_object_def heads)
  show "rev_id ` set (upd_heads u) = RevisionId ` head_set t ?ob"
    unfolding heads image_image by (rule image_cong[OF refl head_row_decoded(1)[OF assms(2)]])
qed

text \<open>A pull from the server that returns brings every head of the matching objects of the window.\<close>

lemma pull_brings_heads:
  assumes "client_inv (local_db w)" "settled (local_db w)" "db_inv (tables (remote w))" "plans_permute E'"
    and "\<And>p. grows p (I p)" "parents_fit (tables (remote w'))"
    and "pull_updates E (busy_site E' N store con net I url) url q w = (Inr counts, w')"
  obtains client q0 q1 where "caller store con = Some client" "settled (local_db w')"
    "grows (remote w) q0" "grows q0 q1" "grows q1 (remote w')" "I = (\<lambda>p. p) \<longrightarrow> q0 = remote w' \<and> q1 = remote w'"
    "db_sync (local_db w') = advanced (TransactionId (word_of_int (max_transaction_id (tables q0)))) (db_sync (local_db w))"
    "\<And>ob h h'. ob \<in> window (tables q0) (since_i64 (pull_since q)) (max_transaction_id (tables q0)) (client_uuid client) \<Longrightarrow>
      h \<in> head_set (tables q1) ob \<Longrightarrow> h' \<in> head_set (tables q1) ob \<Longrightarrow> passes_of N q (row_at (tables q1) h') \<Longrightarrow>
      (ObjectId ob, RevisionId h) \<in> head_keys (local_db w')"
proof -
  obtain resp d where post: "exchange_among E' N store con net I (Post_Changes_Query q) read_pull (remote w) = (Answer resp, remote w')"
    and apply_run: "apply_updates E (object_updates resp) (local_db w) = (Inr counts, d)"
    and cursor: "advance_cursor E (up_to_transaction resp) d = (Inr (), local_db w')"
    using assms(7) by (rule pull_run) (auto simp: busy_site_requests)
  obtain client q0 q1 where client: "caller store con = Some client"
    and states: "grows (remote w) q0" "grows q0 q1" "grows q1 (remote w')" "I = (\<lambda>p. p) \<longrightarrow> q0 = remote w' \<and> q1 = remote w'"
    and up_to: "up_to_transaction resp = TransactionId (word_of_int (max_transaction_id (tables q0)))"
    and exact: "updates_exact (passes_of N q) (window (tables q0) (since_i64 (pull_since q)) (max_transaction_id (tables q0))
       (client_uuid client)) (tables q1) (object_updates resp)"
    using assms(5,3,4,6) post by (rule pulled_exact)
  have inv: "db_inv (tables q1)" using grows_inv[OF grows_inv[OF assms(3) states(1)] states(2)] .
  note one = exact_of_one_object[OF exact inv]
  have "settled d" by (rule triple_Inr[OF statuses_apply_updates assms(2) apply_run]) simp
  then have settled: "settled (local_db w')"
    by (rule triple_Inr[OF advance_cursor_frame[OF uncounted_statuses] _ cursor, rotated]) (simp add: statuses_def)
  have "db_sync d = db_sync (local_db w)"
    by (rule triple_Inr[OF apply_updates_frame[where P = "\<lambda>s. db_sync s = db_sync (local_db w)"] refl apply_run])
      (auto simp: put_record_def put_head_def delete_head_def)
  with triple_Inr[OF advance_cursor_result refl cursor]
  have sync: "db_sync (local_db w') = advanced (up_to_transaction resp) (db_sync (local_db w))" by simp
  have "db_heads (local_db w') = db_heads d"
    by (rule triple_Inr[OF advance_cursor_frame[where P = "\<lambda>s. db_heads s = db_heads d"] refl cursor])
      (simp_all add: uncounted_def)
  moreover have "distinct (map upd_object_id (object_updates resp))" using exact by (simp add: updates_exact_def)
  ultimately have heads: "\<forall>u \<in> set (object_updates resp). \<forall>r \<in> set (upd_heads u). (upd_object_id u, rev_id r) \<in> head_keys (local_db w')"
    using triple_Inr[OF apply_updates_add[OF _ one(1)] assms(1) apply_run] by simp
  show thesis
  proof (rule that[OF client settled states])
    fix ob h h'
    assume "ob \<in> window (tables q0) (since_i64 (pull_since q)) (max_transaction_id (tables q0)) (client_uuid client)"
      and h: "h \<in> head_set (tables q1) ob" "h' \<in> head_set (tables q1) ob" "passes_of N q (row_at (tables q1) h')"
    then have "ObjectId ob \<in> set (map upd_object_id (object_updates resp))"
      using exact unfolding updates_exact_def by blast
    then obtain u where u: "u \<in> set (object_updates resp)" "upd_object_id u = ObjectId ob" by auto
    with one(2)[OF u(1)] h(1) have "RevisionId h \<in> rev_id ` set (upd_heads u)" by simp
    then obtain r where "r \<in> set (upd_heads u)" "rev_id r = RevisionId h" by auto
    with heads u show "(ObjectId ob, RevisionId h) \<in> head_keys (local_db w')" by metis
  qed (use sync up_to in simp)
qed

text \<open>The cursor a round starts from: the one the caller gives, or else the stored one.\<close>

definition round_start :: "'v PullRequest \<Rightarrow> 'j client_db \<Rightarrow> TransactionId option" where
  "round_start q s =
     (case pull_since q of Some t \<Rightarrow> Some t
      | None \<Rightarrow> (case db_sync s of Some r \<Rightarrow> ss_last_server_txn_id r | None \<Rightarrow> None))"

text \<open>Recording verdicts changes only the store of revisions.\<close>

lemma push_pending_frame:
  fixes P :: "'j client_db \<Rightarrow> bool" and E :: "('v, 'j) idb_env"
  assumes "uncounted P" "\<And>y s. P s \<Longrightarrow> P (snd (put_record y s))"
  shows "triple (\<lambda>w. P (local_db w)) (push_pending E srv url) (\<lambda>_ w. P (local_db w)) (\<lambda>_ w. P (local_db w))"
proof -
  note steps = triple_and_then[where R = "\<lambda>_. P"] triple_idb_request triple_map_err triple_to_js triple_from_js triple_ok assms(1)
  have status: "triple P (set_status E i st) (\<lambda>_. P) (\<lambda>_. P)" for i st
    unfolding set_status_def
    by (rule triple_idb_tx_keeps) (auto split: option.split intro!: steps simp: assms)
  have pending: "triple P (get_pending_revisions E) (\<lambda>_. P) (\<lambda>_. P)"
    unfolding get_pending_revisions_def
    by (auto intro!: triple_and_then[where R = "\<lambda>_. P"] triple_idb_tx_keeps triple_idb_request triple_collect_keeps triple_from_js assms(1))
  show ?thesis
    unfolding push_pending_def mark_revision_synced_def mark_revision_error_def
    by (auto intro!: triple_and_then[where R = "\<lambda>_ w. P (local_db w)"] triple_on_db[OF status] triple_on_db[OF pending]
        triple_on_remote triple_answer triple_for_each_keeps triple_ok)
qed

lemma repo_sync_run:
  assumes "idb_ok E" "repo_sync E srv url q w = (Inr res, w')"
  obtains n rejected w1 counts where
    "push_pending E srv url (w\<lparr>local_db := (local_db w)\<lparr>db_requests := n\<rparr>\<rparr>) = (Inr rejected, w1)"
    "pull_updates E srv url (q\<lparr>pull_since := round_start q (local_db w)\<rparr>) w1 = (Inr counts, w')"
proof -
  let ?q = "q\<lparr>pull_since := round_start q (local_db w)\<rparr>"
  have "\<exists>n. sync E srv url ?q (w\<lparr>local_db := (local_db w)\<lparr>db_requests := n\<rparr>\<rparr>) = (Inr res, w')"
  proof (cases "pull_since q")
    case None
    have "read_sync_state E (local_db w) =
        (Inr (fst (spec_read_sync (local_db w))), (local_db w)\<lparr>db_requests := db_requests (local_db w) + 3\<rparr>)"
      using assms(1) by (simp add: read_sync_state_def and_then_def idb_tx_def idb_request_def idb_ok_def ok_def
          Let_def spec_read_sync_def numeral_3_eq_3)
    with assms(2) None show ?thesis
      by (auto simp: repo_sync_def and_then_Inr_iff on_db_def ok_def round_start_def spec_read_sync_def
          split: prod.splits option.splits)
  next
    case (Some t)
    then have "?q = q" by (simp add: round_start_def)
    moreover have "w\<lparr>local_db := (local_db w)\<lparr>db_requests := db_requests (local_db w)\<rparr>\<rparr> = w" by simp
    moreover have "sync E srv url q w = (Inr res, w')" using assms(2) Some by (simp add: repo_sync_def)
    ultimately show ?thesis by (intro exI[of _ "db_requests (local_db w)"]) (simp only:)
  qed
  then show thesis using that by (auto simp: sync_def and_then_Inr_iff ok_def split: prod.splits)
qed

text \<open>
  C5: a round of synchronisation catches up, also while other requests overlap with it. Without
  faults of the browser, where the round returns:

    \<^item> no revision is left to push: each has been accepted or rejected;
    \<^item> there is a state \<open>q0\<close> of the server during the round, and a later one \<open>q1\<close>, such that for every
      object that others changed in the transactions of \<open>q0\<close> after the cursor the round started from,
      and that has in \<open>q1\<close> a head matching the filters of the request, every head the object has in
      \<open>q1\<close> is a head at the client (where the request has no filters, every object has one); if
      nobody else uses the server meanwhile, both states are its final one;
    \<^item> the cursor stands at the newest transaction of \<open>q0\<close>, provided that the database has an
      identity, and is as before otherwise.

  The transactions of the server commit in the order of their ids, the records the client has
  stored convert, and no revision of the server has more than 32768 parents.
\<close>

theorem sync_catches_up:
  assumes "idb_ok E" "client_inv (local_db w)" "readable E (local_db w)"
    and "db_inv (tables (remote w))" "plans_permute E'" "\<And>p. grows p (I p)"
    and "repo_sync E (busy_site E' N store con net I url) url q w = (Inr res, w')" "parents_fit (tables (remote w'))"
  shows "(\<forall>x \<in> set (map snd (db_revisions (local_db w'))). rec_sync_status x \<noteq> Pending) \<and>
    (\<exists>client q0 q1. caller store con = Some client \<and> grows (remote w) q0 \<and> grows q0 q1 \<and> grows q1 (remote w') \<and>
       (I = (\<lambda>p. p) \<longrightarrow> q0 = remote w' \<and> q1 = remote w') \<and>
       (\<forall>ob h h'. ob \<in> window (tables q0) (since_i64 (round_start q (local_db w))) (max_transaction_id (tables q0))
             (client_uuid client) \<and>
          (ob, h) \<in> set (object_heads (tables q1)) \<and> (ob, h') \<in> set (object_heads (tables q1)) \<and>
          head_passes N (pull_object_types q) (pull_created_at q) (pull_filter q) (row_at (tables q1) h') \<longrightarrow>
          (ObjectId ob, RevisionId h) \<in> head_keys (local_db w')) \<and>
       db_sync (local_db w') =
         advanced (TransactionId (word_of_int (max_transaction_id (tables q0)))) (db_sync (local_db w)))"
proof -
  let ?site = "busy_site E' N store con net I url" and ?q = "q\<lparr>pull_since := round_start q (local_db w)\<rparr>"
  obtain n rejected w1 counts where
    push: "push_pending E ?site url (w\<lparr>local_db := (local_db w)\<lparr>db_requests := n\<rparr>\<rparr>) = (Inr rejected, w1)"
    and pull: "pull_updates E ?site url ?q w1 = (Inr counts, w')"
    using assms(1,7) by (rule repo_sync_run)
  let ?w0 = "w\<lparr>local_db := (local_db w)\<lparr>db_requests := n\<rparr>\<rparr>"
  have inv0: "client_inv (local_db ?w0)" using assms(2) by (simp add: client_inv_def)
  have "unsynced E (local_db w1) = [] \<and> readable E (local_db w1) \<and> plans_permute E' \<and> (\<forall>q. grows q (I q)) \<and>
      db_inv (tables (remote w1)) \<and> grows (remote w) (remote w1)"
    by (rule busy_service.push_settles[OF assms(1) inv0 _ _ push]) (use assms(3-6) grows_refl in simp_all)
  then have settled: "settled (local_db w1)" and good: "db_inv (tables (remote w1))" and grown: "grows (remote w) (remote w1)"
    using settled_iff[of E "local_db w1"] by blast+
  have same: "db_sync (local_db w1) = db_sync (local_db w)"
    using triple_Inr[OF push_pending_frame[where P = "\<lambda>s. db_sync s = db_sync (local_db w)"] _ push]
    by (simp add: put_record_def uncounted_sync)
  have inv1: "client_inv (local_db w1)"
    using triple_Inr[OF sync_keeps(1)[of "{}"] _ push] inv0 by (simp add: inv_with_def)
  obtain client q0 q1 where client: "caller store con = Some client" "settled (local_db w')"
    and states: "grows (remote w1) q0" "grows q0 q1" "grows q1 (remote w')" "I = (\<lambda>p. p) \<longrightarrow> q0 = remote w' \<and> q1 = remote w'"
    and cursor: "db_sync (local_db w') =
        advanced (TransactionId (word_of_int (max_transaction_id (tables q0)))) (db_sync (local_db w1))"
    and heads: "\<And>ob h h'. ob \<in> window (tables q0) (since_i64 (pull_since ?q)) (max_transaction_id (tables q0)) (client_uuid client) \<Longrightarrow>
      h \<in> head_set (tables q1) ob \<Longrightarrow> h' \<in> head_set (tables q1) ob \<Longrightarrow> passes_of N ?q (row_at (tables q1) h') \<Longrightarrow>
      (ObjectId ob, RevisionId h) \<in> head_keys (local_db w')"
    using inv1 settled good assms(5,6,8) pull by (rule pull_brings_heads) (rule that)
  have "\<forall>x \<in> set (map snd (db_revisions (local_db w'))). rec_sync_status x \<noteq> Pending"
    using client(2) by (auto simp: statuses_def)
  then show ?thesis
  proof (rule conjI, intro exI conjI)
    show "grows (remote w) q0" by (rule grows_trans[OF grown states(1)])
    show "\<forall>ob h h'. ob \<in> window (tables q0) (since_i64 (round_start q (local_db w))) (max_transaction_id (tables q0))
             (client_uuid client) \<and>
          (ob, h) \<in> set (object_heads (tables q1)) \<and> (ob, h') \<in> set (object_heads (tables q1)) \<and>
          passes_of N q (row_at (tables q1) h') \<longrightarrow> (ObjectId ob, RevisionId h) \<in> head_keys (local_db w')"
      by (intro allI impI, elim conjE, rule heads) (simp_all add: head_set_def)
  qed (use client(1) states(2-4) cursor[unfolded same] in simp_all)
qed

text \<open>While the client worked offline, another client pushed a revision of another object.\<close>

definition offline_work :: "(nat Value, nat Value) client_call list" where
  "offline_work = [Call_Open IndexSchema_new ''https://sync/'',
     Call_Save (ObjectId 10) (RevisionId 1) 5 ''note'' (String ''a'')]"

definition others_revision :: "nat Value Revision" where
  "others_revision = new_root (RevisionId 2) 6 (ObjectId 20) ''note'' other_client (String ''b'')"

definition others_push :: "nat Value Request" where
  "others_push = \<lparr> peer = Some (V4 [10, 0, 0, 2]), req_headers = [],
     endpoint = Post_Changes \<lparr> push_req_revisions = [others_revision] \<rparr> \<rparr>"

definition before_sync :: "(nat Value, nat Value pool) world" where
  "before_sync = (let w = fold (after_call client_a) offline_work \<lparr> local_db = empty_db, remote = empty_pool \<rparr>
     in w\<lparr> remote := snd (router sample_env sample_numbers (ServerStore_new sample_auth) others_push (remote w)) \<rparr>)"

lemma before_sync_reached: "system_reaches sample_numbers ''https://sync/'' {client_a} before_sync"
  unfolding before_sync_def Let_def offline_work_def
  by (intro served_elsewhere[OF _ served.request[OF prod.collapse[symmetric]]] client_a_reaches begins)
    (simp_all add: empty_pool_def)

theorem sync_catches_up_witness:
  "(ObjectId 20, RevisionId 2) \<in> head_keys (local_db (after_call client_a (Call_Sync ''https://sync/'' pull_all) before_sync)) \<and>
   map (rec_sync_status \<circ> snd) (db_revisions (local_db before_sync)) = [Pending]"
proof -
  let ?run = "repo_sync (ce_idb client_a) (ce_server client_a) ''https://sync/'' pull_all before_sync"
  let ?t = "tables (remote (snd ?run))"
  have site: "ce_server client_a = site sample_env sample_numbers (ServerStore_new sample_auth)
      (sample_connection (V4 [10, 0, 0, 1])) (\<lambda>p. Delivered) ''https://sync/''" by (rule client_a_site)
  have "isl (fst ?run) = False" by code_simp
  then obtain res where run: "?run = (Inr res, snd ?run)" by (metis prod.collapse isl_def sum.exhaust)
  have inv: "db_inv (tables (remote before_sync))" "client_inv (local_db before_sync)"
    using system_sound[OF before_sync_reached] by (simp_all add: synced_inv_def inv_with_def)
  have ok: "idb_ok (ce_idb client_a)" by (simp add: sample_client_env_def sample_json_idb_def idb_ok_def)
  have can_read: "readable (ce_idb client_a) (local_db before_sync)" by code_simp
  have "revision_parents ?t = []" by code_simp
  then have fit: "parents_fit ?t" by (simp add: parents_fit_def parents_of_def)
  have facts: "caller (ServerStore_new sample_auth) (sample_connection (V4 [10, 0, 0, 1])) = Some sample_client"
    "round_start (pull_all :: nat Value PullRequest) (local_db before_sync) = None" "client_uuid sample_client = 7"
    "20 \<in> set (changed_objects ?t 0 (max_transaction_id ?t) 7)" "(20, 2) \<in> set (object_heads ?t)"
    by code_simp+
  have passes: "head_passes sample_numbers None None None = (\<lambda>row :: nat Value RevisionRow. True)"
    by (simp add: head_passes_def fun_eq_iff split: option.split)
  obtain client q0 q1 where client: "caller (ServerStore_new sample_auth) (sample_connection (V4 [10, 0, 0, 1])) = Some client"
    and states: "(\<lambda>p :: nat Value pool. p) = (\<lambda>p. p) \<longrightarrow> q0 = remote (snd ?run) \<and> q1 = remote (snd ?run)"
    and heads: "\<forall>ob h h'. ob \<in> window (tables q0) (since_i64 (round_start (pull_all :: nat Value PullRequest) (local_db before_sync)))
          (max_transaction_id (tables q0)) (client_uuid client) \<and>
        (ob, h) \<in> set (object_heads (tables q1)) \<and> (ob, h') \<in> set (object_heads (tables q1)) \<and>
        passes_of sample_numbers (pull_all :: nat Value PullRequest) (row_at (tables q1) h') \<longrightarrow>
        (ObjectId ob, RevisionId h) \<in> head_keys (local_db (snd ?run))"
    using sync_catches_up[where I = "\<lambda>p. p", unfolded site_alone, OF ok inv(2) can_read inv(1) sample_plans grows_refl
      run[unfolded site] fit[unfolded site], folded site]
    by (elim conjE exE) (rule that; assumption)
  have "20 \<in> window ?t 0 (max_transaction_id ?t) 7"
    using facts(4) unfolding window_def set_changed_objects[symmetric] .
  then have "(ObjectId 20, RevisionId 2) \<in> head_keys (local_db (snd ?run))"
    using facts(1-3,5) client states heads[rule_format, of 20 2 2] by (simp add: passes)
  moreover have "map (rec_sync_status \<circ> snd) (db_revisions (local_db before_sync)) = [Pending]" by code_simp
  moreover have "after_call client_a (Call_Sync ''https://sync/'' pull_all) before_sync = snd ?run" by simp
  ultimately show ?thesis by (simp only:)
qed

end
