(* ===== verification/HandlersCorrect.thy ===== *)
theory HandlersCorrect
  imports Interleaving
begin

text \<open>
  What the endpoints answer: the type of each answer, pulls, objects, and files.
\<close>

section \<open>The types of the answers\<close>

text \<open>
  The interface of the router as a typing of answers: which statuses and bodies an endpoint may
  answer with. Every error is a message; the answers of the authentication and of a failing
  database are the same for all endpoints.
\<close>

definition failure :: "'v Response \<Rightarrow> bool" where
  "failure resp \<longleftrightarrow> resp = respond 401 (Json_Error ''unauthenticated'') \<or>
     resp = respond 500 (Json_Error ''internal server error'')"

fun answers :: "'v Endpoint \<Rightarrow> 'v Response \<Rightarrow> bool" where
  "answers Get_WhoAmI resp = (case body resp of Json_WhoAmI _ \<Rightarrow> status resp = 200 | _ \<Rightarrow> failure resp)"
| "answers (Post_Changes _) resp = (case body resp of Json_Push _ \<Rightarrow> status resp = 200 | _ \<Rightarrow> failure resp)"
| "answers (Post_Changes_Query q) resp =
     (case pull_since q of
        Some since \<Rightarrow> if uint (transaction_u64 since) > i64_max
          then resp = respond 400 (Json_Error ''malformed data: since transaction ID out of range'') \<or> failure resp
          else (case body resp of Json_Pull _ \<Rightarrow> status resp = 200 | _ \<Rightarrow> failure resp)
      | None \<Rightarrow> (case body resp of Json_Pull _ \<Rightarrow> status resp = 200 | _ \<Rightarrow> failure resp))"
| "answers (Get_Object i) resp =
     (case body resp of Json_Object u \<Rightarrow> status resp = 200 \<and> upd_object_id u = ObjectId i
      | _ \<Rightarrow> resp = respond 404 (Json_Error ''not found'') \<or> failure resp)"
| "answers (Get_File _) resp =
     (case body resp of Bytes_Body _ \<Rightarrow> status resp = 200 | _ \<Rightarrow> resp = respond 404 Empty_Body \<or> failure resp)"
| "answers (Post_File _ _) resp = (resp = respond 204 Empty_Body \<or> failure resp)"
| "answers (Delete_File _) resp = (resp = respond 204 Empty_Body \<or> failure resp)"
| "answers (Answered_By_Axum r) resp = (resp = r \<or> failure resp)"

lemma failure_refused [simp]:
  "failure unauthenticated" "failure provider_error" "failure (into_response (Err_Database d))"
  by (simp_all add: failure_def unauthenticated_def provider_error_def into_response_def)

lemma failure_answers: "failure resp \<Longrightarrow> answers e resp"
  by (cases e) (auto simp: failure_def respond_def split: option.split)

lemma push_revisions_error: "push_revisions E c revs p = (Inl e, p') \<Longrightarrow> \<exists>d. e = Err_Database d"
  by (auto simp: push_revisions_def and_then_Inl_iff map_err_Inl_iff ok_def err_def split: if_splits)

text \<open>What a handler returns has the type of its endpoint; what it fails with, after the conversion.\<close>

lemma dispatch_answers:
  "dispatch E N auth e p = (Inr resp, p') \<Longrightarrow> answers e resp"
  "dispatch E N auth e p = (Inl err', p') \<Longrightarrow> answers e (into_response err')"
proof -
  show "answers e resp" if "dispatch E N auth e p = (Inr resp, p')"
    using that
    by (cases e) (auto simp: whoami_def push_changes_def pull_changes_def get_object_def get_file_handler_def upload_file_def
        delete_file_handler_def and_then_Inr_iff map_err_Inr_iff ok_def err_def respond_def object_update_def
        split: option.splits if_splits)
  show "answers e (into_response err')" if "dispatch E N auth e p = (Inl err', p')"
  proof (cases "\<exists>d. err' = Err_Database d")
    case True
    then show ?thesis by (auto intro: failure_answers)
  next
    case False
    with that show ?thesis
      by (cases e) (auto simp: whoami_def push_changes_def pull_changes_def get_object_def get_file_handler_def upload_file_def
        delete_file_handler_def and_then_Inl_iff map_err_Inl_iff ok_def err_def into_response_def respond_def
        dest!: push_revisions_error split: option.splits if_splits)
  qed
qed

text \<open>
  C25: every answer of the server has the type its endpoint promises. For each endpoint the
  statuses and bodies are those above: an authenticated request is answered with the body of
  its endpoint, a pull from a cursor that no transaction id can reach is refused with 400, a
  missing object or file is 404, an upload or deletion 204, and everything else is 401 or an
  opaque 500. In particular a rejected revision is never an error status.
\<close>

theorem responses_typed: "answers (endpoint req) (fst (router E N store req p))"
proof -
  have inner: "answers (endpoint req) (fst (routed E N info req q))" for info q
    using dispatch_answers[of E N info "endpoint req" q] by (auto simp: routed_def split: prod.split sum.split)
  show ?thesis
    by (auto simp: router_def auth_call_def failure_answers inner
        split: option.split sum.split AuthError.split prod.split)
qed

section \<open>Pulls\<close>

text \<open>
  What the filters of a request ask of a head: its type is one of the types, it was created
  within all the bounds, and the payload, where there is one, satisfies every condition of some
  group. A tombstone has no payload and passes every filter on it.
\<close>

definition matches :: "('n, 'f) numbers \<Rightarrow> 'n Value PullRequest \<Rightarrow> 'n Value RevisionRow \<Rightarrow> bool" where
  "matches N q row \<longleftrightarrow>
     (\<forall>ts. pull_object_types q = Some ts \<longrightarrow> row_object_type row \<in> set ts) \<and>
     (\<forall>bs. pull_created_at q = Some bs \<longrightarrow>
        (\<forall>t. (CreatedAt_Gt t \<in> set bs \<longrightarrow> t < row_created_at row) \<and> (CreatedAt_Gte t \<in> set bs \<longrightarrow> t \<le> row_created_at row) \<and>
             (CreatedAt_Lt t \<in> set bs \<longrightarrow> row_created_at row < t) \<and> (CreatedAt_Lte t \<in> set bs \<longrightarrow> row_created_at row \<le> t))) \<and>
     (\<forall>groups d. pull_filter q = Some groups \<and> row_data row = Some d \<longrightarrow>
        (\<exists>conditions \<in> set groups. \<forall>c \<in> set conditions. evaluate_condition N d c))"

lemma head_passes_matches:
  "head_passes N (pull_object_types q) (pull_created_at q) (pull_filter q) = matches N q"
proof
  fix row :: "'a Value RevisionRow"
  have "apply_created_at_filters at bs \<longleftrightarrow>
      (\<forall>t. (CreatedAt_Gt t \<in> set bs \<longrightarrow> t < at) \<and> (CreatedAt_Gte t \<in> set bs \<longrightarrow> t \<le> at) \<and>
           (CreatedAt_Lt t \<in> set bs \<longrightarrow> at < t) \<and> (CreatedAt_Lte t \<in> set bs \<longrightarrow> at \<le> t))" for at bs
    unfolding apply_created_at_filters_def list_all_iff by (auto split: CreatedAtFilter.splits)
  then show "head_passes N (pull_object_types q) (pull_created_at q) (pull_filter q) row = matches N q row"
    by (auto simp: head_passes_def matches_def apply_content_filter_def list_ex_iff list_all_iff split: option.splits)
qed

text \<open>
  C29: A pull is always answered, and completely: where no call of the database fails, a cursor
  beyond the largest signed 64-bit number is refused as malformed, and for every other cursor and
  every filter the answer is a 200 with the newest transaction as the new cursor and exactly the
  objects that another client changed after the given cursor and that have a head matching the
  filters, each once with all its heads as they are stored, to replace where there is one head and
  as a conflict where there are several. Nothing changes. No revision of the database has more
  than 32768 parents.
\<close>

theorem pull_answered:
  assumes "fault_free E" "db_inv (tables p)" "plans_permute E" "parents_fit (tables p)"
  shows "\<exists>p'. tables p' = tables p \<and>
    (if \<exists>t. pull_since q = Some t \<and> i64_max < uint (transaction_u64 t)
     then pull_changes E N auth q p = (Inl (Err_MalformedData ''since transaction ID out of range''), p')
     else \<exists>ups. pull_changes E N auth q p = (Inr (respond 200 (Json_Pull
          \<lparr>up_to_transaction = TransactionId (word_of_int (max_transaction_id (tables p))), object_updates = ups\<rparr>)), p') \<and>
        updates_exact (matches N q)
          (window (tables p) (case pull_since q of Some t \<Rightarrow> uint (transaction_u64 t) | None \<Rightarrow> 0)
             (max_transaction_id (tables p)) (client_uuid (auth_client_id auth)))
          (tables p) ups)"
proof (cases "\<exists>t. pull_since q = Some t \<and> i64_max < uint (transaction_u64 t)")
  case True
  then have "pull_changes E N auth q p = (Inl (Err_MalformedData ''since transaction ID out of range''), p)"
    by (auto simp: pull_changes_def err_def)
  with True show ?thesis by auto
next
  case False
  let ?latest = "word_of_int (max_transaction_id (tables p)) :: 64 word"
  note u64 = max_transaction_u64[OF assms(2)]
  have fits: "uint (transaction_u64 (TransactionId ?latest)) \<le> i64_max"
    using max_transaction_id_less[OF assms(2)] assms(2) by (simp add: u64 db_inv_def txns_ok_def)
  obtain p1 where latest: "latest_transaction_id E p = (Inr ?latest, p1)" "tables p1 = tables p"
    using assms(1) by (simp add: latest_transaction_id_def query_fault_free)
  obtain ups p' where fetch: "fetch_object_updates E N (auth_client_id auth) (pull_since q) (TransactionId ?latest)
      (pull_object_types q) (pull_created_at q) (pull_filter q) p1 = (Inr ups, p')"
    by (rule never_failsE[OF fetch_object_updates_never_fails[OF assms(1) fits]])
  have "since_i64 (pull_since q) = (case pull_since q of Some t \<Rightarrow> uint (transaction_u64 t) | None \<Rightarrow> 0)"
    using False by (auto simp: not_less fits_i64 split: option.split)
  then have exact: "updates_exact (matches N q)
      (window (tables p) (case pull_since q of Some t \<Rightarrow> uint (transaction_u64 t) | None \<Rightarrow> 0)
         (max_transaction_id (tables p)) (client_uuid (auth_client_id auth))) (tables p) ups"
    using fetched_exact[OF fetch, unfolded latest(2), OF assms(2-4)] by (simp add: u64 head_passes_matches)
  have "pull_changes E N auth q p = (Inr (respond 200 (Json_Pull
      \<lparr>up_to_transaction = TransactionId ?latest, object_updates = ups\<rparr>)), p')"
    using False latest(1) fetch by (auto simp: pull_changes_def and_then_def map_err_def ok_def split: option.split)
  moreover have "tables p' = tables p" using fetch_run[OF fetch] latest(2) by simp
  ultimately show ?thesis using False exact by auto
qed

text \<open>A pull of the other client, with filters\<close>

theorem pull_answered_witness:
  "\<exists>p'. tables p' = tables branched_pool \<and>
    (\<exists>ups. pull_changes sample_env sample_numbers \<lparr>auth_client_id = other_client, auth_user_id = UserId 80, auth_roles = []\<rparr>
         \<lparr>pull_since = None, pull_object_types = Some [''note''], pull_created_at = Some [CreatedAt_Gt 0], pull_filter = None\<rparr> branched_pool =
       (Inr (respond 200 (Json_Pull \<lparr>up_to_transaction = TransactionId (word_of_int (max_transaction_id (tables branched_pool))),
          object_updates = ups\<rparr>)), p'))"
  using pull_answered[OF sample_fault_free branched_pool_inv sample_plans branched_pool_fits,
    of "\<lparr>pull_since = None, pull_object_types = Some [''note''], pull_created_at = Some [CreatedAt_Gt 0], pull_filter = None\<rparr>"
      sample_numbers "\<lparr>auth_client_id = other_client, auth_user_id = UserId 80, auth_roles = []\<rparr>"]
  by auto

section \<open>Objects\<close>

text \<open>
  The query for the parents of many revisions agrees with the query for one: for every
  revision asked for, both give the same list, in the same order, whatever order the database
  returns rows in.
\<close>

theorem parents_batch_agrees:
  assumes "get_parents_batch E ids p = (Inr m, p1)" "get_parents E i p = (Inr ps, p2)" "i \<in> set ids"
    and "plans_permute E" "db_inv (tables p)" "parents_fit (tables p)"
  shows "get_or_default m i = ps"
proof -
  have ok: "positions_ok (tables p)" using assms(5) by (simp add: db_inv_def)
  have "m = parents_found E ids (tables p)" using readsD[OF get_parents_batch_reads assms(1)] by simp
  then show ?thesis
    using parents_found_eq[OF assms(4) ok assms(6,3)] get_parents_reads[OF assms(4,2) ok assms(6)] by simp
qed

text \<open>A store with a merge\<close>

definition merged_pool :: "nat Value pool" where
  "merged_pool = snd (push_revisions sample_env sample_client [sample_merge] branched_pool)"

lemma merged_pool_ok: "db_inv (tables merged_pool)" "parents_fit (tables merged_pool)"
proof -
  show "db_inv (tables merged_pool)"
    using push_keeps_inv branched_pool_inv unfolding always_def keeps_inv_def merged_pool_def by blast
  have "length (revision_parents (tables merged_pool)) = 4" by code_simp
  then show "parents_fit (tables merged_pool)" by (intro few_parents_fit) simp
qed

theorem parents_batch_agrees_witness:
  "get_or_default (projr (fst (get_parents_batch sample_env [4, 3] merged_pool))) 4 = [2, 3]"
proof -
  let ?batch = "get_parents_batch sample_env [4, 3] merged_pool" and ?one = "get_parents sample_env 4 merged_pool"
  have out: "\<not> isl (fst ?batch)" "fst ?one = Inr [2, 3]" by code_simp+
  then have run: "?batch = (Inr (projr (fst ?batch)), snd ?batch)" "?one = (Inr [2, 3], snd ?one)"
    by (metis prod.collapse sum.collapse(2), metis prod.collapse)
  have "(4::uuid) \<in> set [4, 3]" by simp
  from parents_batch_agrees[OF run this sample_plans merged_pool_ok] show ?thesis .
qed

text \<open>The answer of a successful \<^verbatim>\<open>GET /objects/{id}\<close>\<close>

lemma get_object_run:
  assumes "get_object E i p = (Inr resp, p')" "db_inv (tables p)" "plans_permute E" "parents_fit (tables p)"
  obtains hs where "resp = respond 200 (Json_Object (object_update i (map (\<lambda>h. decoded (tables p) (row_at (tables p) h)) hs)))"
    "set hs = head_set (tables p) i" "distinct hs" "hs \<noteq> []"
proof -
  let ?t = "tables p"
  let ?ids = "plan_head_ids E (map snd (filter (\<lambda>(o', i'). o' = i) (object_heads ?t)))"
  let ?rows = "plan_rows E (filter (\<lambda>r. row_id r \<in> set ?ids) (revisions ?t))"
  let ?pm = "parents_found E (map row_id ?rows) ?t"
  note inv = assms(2)
  have ids: "set ?ids = head_set ?t i"
  proof -
    have "mset ?ids = mset (map snd (filter (\<lambda>(o', i'). o' = i) (object_heads ?t)))"
      using assms(3) by (simp only: plans_permute_def)
    from mset_eq_setD[OF this] show ?thesis by (force simp: head_set_def)
  qed
  have same: "mset ?rows = mset (filter (\<lambda>r. row_id r \<in> set ?ids) (revisions ?t))"
    using assms(3) by (simp add: plans_permute_def)
  from assms(1) obtain ids rows pm q1 q2 where tx: "in_tx E (get_heads E i) p = (Inr ids, q1)" and nonempty: "ids \<noteq> []"
    and read: "get_revision_rows_by_ids E ids q1 = (Inr rows, q2)" "get_parents_batch E (map row_id rows) q2 = (Inr pm, p')"
    and resp: "resp = respond 200 (Json_Object (object_update i
      (map (\<lambda>row. row_to_revision_sync Null row (get_or_default pm (row_id row))) rows)))"
    by (auto simp: get_object_def and_then_Inr_iff ok_def err_def split: if_splits)
  from in_tx_Inr[OF tx] have found: "ids = ?ids" "tables q1 = ?t"
    by (auto simp: get_heads_def query_Inr_iff)
  with read(1) have rows': "rows = ?rows" "tables q2 = ?t"
    by (simp_all add: get_revision_rows_by_ids_def query_Inr_iff)
  have pm: "pm = ?pm" using readsD[OF get_parents_batch_reads read(2)] by (simp only: rows')
  note nonempty = nonempty[unfolded found] and resp = resp[unfolded rows' pm]
  have in_rows: "r \<in> set ?rows \<longleftrightarrow> r \<in> set (revisions ?t) \<and> row_id r \<in> head_set ?t i" for r
  proof -
    have "r \<in> set ?rows \<longleftrightarrow> r \<in> set (revisions ?t) \<and> row_id r \<in> set ?ids"
      by (simp only: mset_eq_setD[OF same] set_filter mem_Collect_eq)
    then show ?thesis by (simp only: ids)
  qed
  have rows: "set ?rows = {r \<in> set (revisions ?t). row_id r \<in> head_set ?t i}"
    by (rule set_eqI) (simp only: in_rows mem_Collect_eq)
  have at: "row_at ?t (row_id r) = r" if "r \<in> set ?rows" for r
    using that rows db_inv_row_at(1)[OF inv] by blast
  have "row_to_revision_sync Null r (get_or_default ?pm (row_id r)) = decoded ?t r" if "r \<in> set ?rows" for r
  proof -
    have "row_id r \<in> set (map row_id ?rows)" using that by simp
    moreover have "positions_ok ?t" using inv by (simp add: db_inv_def)
    ultimately show ?thesis using parents_found_eq[OF assms(3) _ assms(4)] by (simp only: decoded_def)
  qed
  then have decode: "map (\<lambda>row. row_to_revision_sync Null row (get_or_default ?pm (row_id row))) ?rows =
      map (\<lambda>h. decoded ?t (row_at ?t h)) (map row_id ?rows)" by (simp add: at)
  have all: "set (map row_id ?rows) = head_set ?t i"
  proof (intro set_eqI iffI)
    fix h
    assume h: "h \<in> head_set ?t i"
    note row = head_row_decoded(3,4)[OF inv h]
    have "row_at ?t h \<in> set ?rows" by (simp only: in_rows row h simp_thms)
    from imageI[OF this, of row_id] show "h \<in> set (map row_id ?rows)" by (simp only: list.set_map row(1))
  next
    fix h
    assume "h \<in> set (map row_id ?rows)"
    then show "h \<in> head_set ?t i" unfolding list.set_map rows by blast
  qed
  have once: "distinct (map row_id ?rows)"
  proof -
    have "distinct (map row_id (filter (\<lambda>r. row_id r \<in> set ?ids) (revisions ?t)))"
      using inv by (intro distinct_map_filter) (simp add: db_inv_def keys_ok_def)
    moreover have "mset (map row_id ?rows) = mset (map row_id (filter (\<lambda>r. row_id r \<in> set ?ids) (revisions ?t)))"
      using same by (simp only: mset_map)
    ultimately show ?thesis using mset_eq_imp_distinct_iff by blast
  qed
  have "set ?ids \<noteq> {}" using nonempty by (simp only: set_empty not_False_eq_True)
  then have "set (map row_id ?rows) \<noteq> {}" unfolding all by (simp only: ids not_False_eq_True)
  then have "map row_id ?rows \<noteq> []" by (simp only: set_empty not_False_eq_True)
  then show thesis using resp unfolding decode by (intro that[OF _ all once])
qed

text \<open>
  C26: an object that is asked for by id is answered as a pull would deliver it: with all its
  heads, each once, decoded in the same way, and with the action that tells whether there is a
  conflict, whatever order the database returns rows in.
\<close>

theorem object_as_pulled:
  assumes "get_object E i p = (Inr resp, p')"
    and "fetch_object_updates E' N client since up_to types created content q = (Inr ups, q')"
    and "u \<in> set ups" "upd_object_id u = ObjectId i" "tables q = tables p"
    and "db_inv (tables p)" "plans_permute E" "plans_permute E'" "parents_fit (tables p)"
  shows "status resp = 200 \<and> (\<exists>v. body resp = Json_Object v \<and> upd_object_id v = upd_object_id u \<and>
    upd_action v = upd_action u \<and> distinct (map rev_id (upd_heads v)) \<and> distinct (map rev_id (upd_heads u)) \<and>
    set (upd_heads v) = set (upd_heads u))"
proof -
  let ?decoded = "\<lambda>h. decoded (tables p) (row_at (tables p) h)"
  obtain hs where resp: "resp = respond 200 (Json_Object (object_update i (map ?decoded hs)))"
    and hs: "set hs = head_set (tables p) i" "distinct hs"
    using assms(1,6,7,9) by (rule get_object_run)
  obtain ob gs where u: "u = object_update ob (map ?decoded gs)" and gs: "set gs = head_set (tables p) ob" "distinct gs"
    by (rule update_of_heads[OF assms(2) _ assms(8) _ assms(3)]) (use assms(5,6,9) in auto)
  have "ob = i" using u assms(4) by (simp add: object_update_def)
  then show ?thesis
    using map_decoded_heads[OF assms(6) hs] map_decoded_heads[OF assms(6) gs]
    by (simp add: resp u respond_def object_update_def)
qed

theorem object_as_pulled_witness:
  "case fst (get_object sample_env 10 branched_pool) of
     Inr resp \<Rightarrow> (case body resp of Json_Object v \<Rightarrow> upd_action v = Conflict \<and> length (upd_heads v) = 2 | _ \<Rightarrow> False)
   | Inl _ \<Rightarrow> False"
proof -
  let ?get = "get_object sample_env 10 branched_pool"
  let ?pull = "fetch_object_updates sample_env sample_numbers sample_client None (TransactionId 2) None None None branched_pool"
  have out: "\<not> isl (fst ?get)" "\<not> isl (fst ?pull)" "length (projr (fst ?pull)) = 1"
    "upd_object_id (hd (projr (fst ?pull))) = ObjectId 10" "upd_action (hd (projr (fst ?pull))) = Conflict"
    "length (upd_heads (hd (projr (fst ?pull)))) = 2"
    by code_simp+
  then have run: "?get = (Inr (projr (fst ?get)), snd ?get)" "?pull = (Inr (projr (fst ?pull)), snd ?pull)"
    by (metis prod.collapse sum.collapse(2))+
  have "hd (projr (fst ?pull)) \<in> set (projr (fst ?pull))" using out(3) by (intro list.set_sel) auto
  from object_as_pulled[OF run this out(4) refl branched_pool_inv sample_plans sample_plans branched_pool_fits]
  obtain v where v: "body (projr (fst ?get)) = Json_Object v" "upd_action v = Conflict"
    "distinct (map rev_id (upd_heads v))" "set (upd_heads v) = set (upd_heads (hd (projr (fst ?pull))))"
    "distinct (map rev_id (upd_heads (hd (projr (fst ?pull)))))" using out(5) by auto
  have "length (upd_heads v) = length (upd_heads (hd (projr (fst ?pull))))"
    using v(3-5) by (metis distinct_card distinct_map)
  then show ?thesis using v(1,2) out(6) by (subst run(1)) simp
qed

section \<open>Files\<close>

abbreviation file_at :: "'v pool \<Rightarrow> uuid \<rightharpoonup> 8 word list" where
  "file_at p \<equiv> map_of (files (tables p))"

text \<open>A call that fails may have changed the file all the same, where only its answer was lost.\<close>

lemma upsert_file_at:
  "fst (upsert_file E i d p) = Inr () \<Longrightarrow> file_at (snd (upsert_file E i d p)) = (file_at p)(i \<mapsto> d)"
  "file_at (snd (upsert_file E i d p)) = file_at p \<or> file_at (snd (upsert_file E i d p)) = (file_at p)(i \<mapsto> d)"
proof -
  have replaced: "map_of (map (\<lambda>(j, x). if j = i then (j, d) else (j, x)) xs) = (if i \<in> set (map fst xs) then (map_of xs)(i \<mapsto> d) else map_of xs)"
    for xs :: "(uuid \<times> 8 word list) list"
    by (induction xs) (auto simp: fun_eq_iff)
  have appended: "i \<notin> set (map fst xs) \<Longrightarrow> map_of (xs @ [(i, d)]) = (map_of xs)(i \<mapsto> d)" for xs :: "(uuid \<times> 8 word list) list"
    by (induction xs) (auto simp: fun_eq_iff)
  let ?put = "\<lambda>t. t\<lparr>files := if i \<in> set (map fst (files t)) then map (\<lambda>(j, x). if j = i then (j, d) else (j, x)) (files t)
      else files t @ [(i, d)]\<rparr>"
  have stmt: "map_of (files (?put (tables p))) = (file_at p)(i \<mapsto> d)" using replaced appended by simp
  show "file_at (snd (upsert_file E i d p)) = (file_at p)(i \<mapsto> d)" if "fst (upsert_file E i d p) = Inr ()"
    using that stmt by (simp add: upsert_file_def autocommit_def sql_def Let_def split: if_splits)
  show "file_at (snd (upsert_file E i d p)) = file_at p \<or> file_at (snd (upsert_file E i d p)) = (file_at p)(i \<mapsto> d)"
  proof (rule disjE[OF autocommit_tables[of E "\<lambda>t. (Inr (), ?put t)" p]])
    assume "tables (snd (autocommit E (\<lambda>t. (Inr (), ?put t)) p)) = tables p"
    then show ?thesis unfolding upsert_file_def by (rule disjI1[OF arg_cong])
  next
    assume "tables (snd (autocommit E (\<lambda>t. (Inr (), ?put t)) p)) = snd (Inr (), ?put (tables p))"
    then have "file_at (snd (upsert_file E i d p)) = map_of (files (?put (tables p)))"
      unfolding upsert_file_def snd_conv by (rule arg_cong)
    then show ?thesis unfolding stmt by (rule disjI2)
  qed
qed

lemma delete_file_at:
  "fst (delete_file E i p) = Inr () \<Longrightarrow> file_at (snd (delete_file E i p)) = (file_at p)(i := None)"
  "file_at (snd (delete_file E i p)) = file_at p \<or> file_at (snd (delete_file E i p)) = (file_at p)(i := None)"
proof -
  have removed: "map_of (filter (\<lambda>(j, x). j \<noteq> i) xs) = (map_of xs)(i := None)" for xs :: "(uuid \<times> 8 word list) list"
    by (induction xs) (auto simp: fun_eq_iff)
  show "file_at (snd (delete_file E i p)) = (file_at p)(i := None)" if "fst (delete_file E i p) = Inr ()"
    using that by (simp add: delete_file_def autocommit_def sql_def Let_def removed split: if_splits)
  show "file_at (snd (delete_file E i p)) = file_at p \<or> file_at (snd (delete_file E i p)) = (file_at p)(i := None)"
    using autocommit_tables[of E "\<lambda>t. (Inr (), t\<lparr>files := filter (\<lambda>(j, x). j \<noteq> i) (files t)\<rparr>)" p]
    by (auto simp: delete_file_def removed)
qed

text \<open>
  The files after a request, by what it asks for and the status of its answer: after a 204 the
  change has happened, after another answer it has happened or not.
\<close>

fun files_after :: "'v Endpoint \<Rightarrow> nat \<Rightarrow> (uuid \<rightharpoonup> 8 word list) \<Rightarrow> (uuid \<rightharpoonup> 8 word list) set" where
  "files_after (Post_File i d) code m = (if code = 204 then {m(i \<mapsto> d)} else {m, m(i \<mapsto> d)})"
| "files_after (Delete_File i) code m = (if code = 204 then {m(i := None)} else {m, m(i := None)})"
| "files_after _ code m = {m}"

lemma push_keeps_files: "always (\<lambda>p p'. files (tables p') = files (tables p)) (push_revisions E c revs)"
proof -
  have "files t' = files t" if "stored_all E rs t t'" for rs and t t' :: "'a tables"
    using that by (induction rs arbitrary: t) (auto simp: stored_def)
  then have pushed: "files t' = files t" if "pushed E c revs t t'" for t t' :: "'a tables"
    using that by (fastforce simp: pushed_def recorded_def Let_def split: if_splits)
  have "files (tables p') = files (tables p)" if "push_revisions E c revs p = (r, p')" for p r p'
  proof (cases r)
    case (Inl e)
    with push_revisions_Inl[of E c revs p e p'] that pushed show ?thesis by auto
  next
    case (Inr resp)
    with push_revisions_Inr[of E c revs p resp p'] that pushed show ?thesis by blast
  qed
  then show ?thesis unfolding always_def by (metis prod.collapse)
qed

lemma dispatch_files:
  assumes "dispatch E N info e p = (r, p')"
  defines "resp \<equiv> (case r of Inl err' \<Rightarrow> into_response err' | Inr resp \<Rightarrow> resp)"
  shows "file_at p' \<in> files_after e (status resp) (file_at p)"
proof (cases "reads_only e")
  case True
  with alwaysD[OF dispatch_same_tables[OF True] assms(1)] show ?thesis by (cases e) simp_all
next
  case False
  show ?thesis
  proof (cases e)
    case (Post_Changes q)
    obtain x p1 where run: "push_revisions E (auth_client_id info) (push_req_revisions q) p = (x, p1)"
      by (cases "push_revisions E (auth_client_id info) (push_req_revisions q) p")
    with assms(1) Post_Changes have "p' = p1" by (auto simp: push_changes_def and_then_def ok_def split: sum.splits)
    with Post_Changes alwaysD[OF push_keeps_files run] show ?thesis by simp
  next
    case (Post_File i d)
    with assms upsert_file_at[of E i d p] show ?thesis
      by (cases "upsert_file E i d p")
        (auto simp: upload_file_def and_then_def map_err_def ok_def respond_def into_response_def split: sum.splits)
  next
    case (Delete_File i)
    with assms delete_file_at[of E i p] show ?thesis
      by (cases "delete_file E i p")
        (auto simp: delete_file_handler_def and_then_def map_err_def ok_def respond_def into_response_def split: sum.splits)
  qed (use False in simp_all)
qed

text \<open>A request is refused before its handler, or handled after the client was registered.\<close>

lemma router_cases:
  assumes "router E N store req p = (resp, p')"
  obtains (refused) "failure resp" "p' = p \<or> (\<exists>c u. p' = snd (upsert_client E c u p))"
    | (handled) info c u q where "q = snd (upsert_client E c u p)" "routed E N info req q = (resp, p')"
  using assms by (auto simp: router_def auth_call_def split: option.splits sum.splits AuthError.splits prod.splits)
    (metis snd_conv failure_refused)+

lemma upsert_client_files: "files (tables (snd (upsert_client E c u p))) = files (tables p)"
  using single_statements_keep(1)[of E c u] by (simp add: always_def)

text \<open>
  C28: files are served as they were uploaded. An upload answered with 204 makes the file of its
  object what was sent and a deletion answered with 204 removes it; with another answer the file
  is changed as asked or not at all. No other request changes any file, and a request for a file is
  answered with the bytes that are stored, or 404 where there are none.
\<close>

theorem files_served:
  assumes "router E N store req p = (resp, p')"
  shows "file_at p' \<in> files_after (endpoint req) (status resp) (file_at p) \<and>
    (\<forall>i. endpoint req = Get_File i \<longrightarrow> (status resp = 200 \<longrightarrow> (\<exists>d. body resp = Bytes_Body d \<and> file_at p i = Some d)) \<and>
       (status resp = 404 \<longrightarrow> file_at p i = None))"
proof -
  show ?thesis
    using assms
  proof (cases rule: router_cases)
    case refused
    then have "file_at p' = file_at p" using upsert_client_files by metis
    with refused(1) show ?thesis by (cases "endpoint req") (auto simp: failure_def respond_def)
  next
    case (handled info c u q)
    then have same: "file_at q = file_at p" by (simp add: upsert_client_files)
    obtain r where r: "dispatch E N info (endpoint req) q = (r, p')"
      "resp = (case r of Inl err' \<Rightarrow> into_response err' | Inr resp \<Rightarrow> resp)"
      using handled(2) by (auto simp: routed_def split: prod.splits sum.splits)
    then have "file_at p' \<in> files_after (endpoint req) (status resp) (file_at p)"
      using dispatch_files[OF r(1)] same by simp
    moreover have "(status resp = 200 \<longrightarrow> (\<exists>d. body resp = Bytes_Body d \<and> file_at p i = Some d)) \<and>
       (status resp = 404 \<longrightarrow> file_at p i = None)" if "endpoint req = Get_File i" for i
      using r that same
      by (auto simp: get_file_handler_def get_file_def query_def sql_def and_then_def map_err_def ok_def respond_def
          into_response_def Let_def split: if_splits option.splits)
    ultimately show ?thesis by blast
  qed
qed

text \<open>
  An object is found exactly when the server has a revision of it. On a database without
  faults, asking for an object is answered with 404 where it was never pushed, and with its
  heads otherwise, also when it was deleted.
\<close>

theorem object_found_iff:
  assumes "fault_free E" "db_inv (tables p)" "plans_permute E"
  shows "case fst (get_object E i p) of
      Inl e \<Rightarrow> e = Err_NotFound \<and> i \<notin> row_object_id ` set (revisions (tables p))
    | Inr resp \<Rightarrow> i \<in> row_object_id ` set (revisions (tables p))"
proof -
  let ?t = "tables p"
  let ?ids = "plan_head_ids E (map snd (filter (\<lambda>(o', i'). o' = i) (object_heads ?t)))"
  have found: "?ids \<noteq> [] \<longleftrightarrow> i \<in> row_object_id ` set (revisions ?t)"
  proof -
    have same: "mset ?ids = mset (map snd (filter (\<lambda>(o', i'). o' = i) (object_heads ?t)))"
      using assms(3) by (simp only: plans_permute_def)
    have "set ?ids = head_set ?t i" using mset_eq_setD[OF same] by (force simp: head_set_def)
    then have "?ids \<noteq> [] \<longleftrightarrow> head_set ?t i \<noteq> {}" by (metis set_empty)
    also have "\<dots> \<longleftrightarrow> (\<exists>h. (i, h) \<in> set (object_heads ?t))" by (auto simp: head_set_def)
    also have "\<dots> \<longleftrightarrow> i \<in> row_object_id ` set (revisions ?t)"
      using db_inv_object_has_head[OF assms(2)] db_inv_heads(3)[OF assms(2)] db_inv_row_at(2)[OF assms(2)]
      by (fastforce dest: object_of_SomeD)
    finally show ?thesis .
  qed
  have run: "(?ids = [] \<longrightarrow> fst (get_object E i p) = Inl Err_NotFound) \<and>
      (?ids \<noteq> [] \<longrightarrow> (\<exists>resp. fst (get_object E i p) = Inr resp))"
    using assms(1)
    by (simp add: get_object_def in_tx_def sql_def fault_free_def get_heads_def query_def and_then_def map_err_def ok_def
        err_def get_revision_rows_by_ids_def get_parents_batch_def Let_def)
  show ?thesis
  proof (cases "?ids = []")
    case True
    with found run have "fst (get_object E i p) = Inl Err_NotFound" "i \<notin> row_object_id ` set (revisions ?t)" by blast+
    then show ?thesis by simp
  next
    case False
    with found run obtain resp where "fst (get_object E i p) = Inr resp" "i \<in> row_object_id ` set (revisions ?t)" by blast
    then show ?thesis by simp
  qed
qed

theorem object_found_iff_witness:
  "fst (get_object sample_env 11 branched_pool) = Inl Err_NotFound"
proof -
  have "11 \<notin> row_object_id ` set (revisions (tables branched_pool))" by code_simp
  with object_found_iff[OF sample_fault_free branched_pool_inv sample_plans, of 11] show ?thesis
    by (cases "fst (get_object sample_env 11 branched_pool)") auto
qed

theorem files_served_witness:
  "file_at (snd (router sample_env sample_numbers sample_store (sample_request (Post_File 10 [1, 2])) empty_pool)) 10 = Some [1, 2]"
proof -
  let ?run = "router sample_env sample_numbers sample_store (sample_request (Post_File 10 [1, 2])) empty_pool"
  have code: "status (fst ?run) = 204" by code_simp
  have "?run = (fst ?run, snd ?run)" by simp
  from files_served[OF this] code show ?thesis by (simp add: sample_request_def)
qed

end
