(* ===== verification/InputsCorrect.thy ===== *)
theory InputsCorrect
  imports Server PullCorrect
begin

text \<open>
  The inputs the server reads by hand: addresses in headers, and the paths and operators of
  filters.
\<close>

section \<open>Addresses\<close>
















section \<open>Filters\<close>

text \<open>A value below nested keys\<close>

fun nest :: "string list \<Rightarrow> 'n Value \<Rightarrow> 'n Value" where
  "nest [] v = v"
| "nest (k # ks) v = Object [(k, nest ks v)]"

lemma resolve_nest: "resolve_keys (nest ks v) ks = Some v"
  by (induction ks) simp_all

text \<open>
  C37: a filter path reaches the value it names. For keys without a dot, the path that joins them
  with dots, with the prefix \<^verbatim>\<open>$.\<close> or without where the first key does not look like one, leads
  through exactly these keys, so that a value nested below them is found again.
\<close>

theorem path_reaches:
  assumes "ks \<noteq> []" "\<forall>k \<in> set ks. CHR ''.'' \<notin> set k"
  shows "resolve_path data (''$.'' @ join_on CHR ''.'' ks) = resolve_keys data ks \<and>
    (hd ks \<noteq> ''$'' \<longrightarrow> resolve_path data (join_on CHR ''.'' ks) = resolve_keys data ks) \<and>
    resolve_path (nest ks v) (''$.'' @ join_on CHR ''.'' ks) = Some v"
proof -
  have split: "split_on CHR ''.'' (join_on CHR ''.'' ks) = ks" using assms by (intro split_on_join) auto
  have plain: "strip_prefix ''$.'' (join_on CHR ''.'' ks) = None" if "hd ks \<noteq> ''$''"
  proof (rule ccontr)
    assume "strip_prefix ''$.'' (join_on CHR ''.'' ks) \<noteq> None"
    then obtain r where "join_on CHR ''.'' ks = ''$'' @ CHR ''.'' # r" by (auto simp: strip_prefix_Some_iff)
    with split have "ks = split_on CHR ''.'' (''$'' @ CHR ''.'' # r)" by simp
    also have "\<dots> = ''$'' # split_on CHR ''.'' r" by (rule split_on_append_sep) simp
    finally show False using that by simp
  qed
  have "resolve_path d (''$.'' @ join_on CHR ''.'' ks) = resolve_keys d ks" for d :: "'a Value"
    unfolding resolve_path_def strip_prefix_append Let_def option.case split ..
  then show ?thesis using plain split by (simp add: resolve_path_def resolve_nest)
qed

theorem path_reaches_witness:
  "resolve_path (nest [''a'', ''b''] (Bool True) :: nat Value) ''$.a.b'' = Some (Bool True)"
  using path_reaches[of "[''a'', ''b'']" "Null :: nat Value" "Bool True :: nat Value"] by simp

text \<open>
  The comparison operators of a filter on a string are one total order, that of the bytes.
  Of less, equal and greater exactly one holds, the non-strict operators are the strict ones or
  equality, not-equal is the negation of equal, the order is transitive, and a value of another
  type is never less or greater.
\<close>

theorem string_operators:
  fixes N :: "('n, 'f) numbers" and data :: "'n Value"
  assumes "resolve_path data path = Some (String s)" "resolve_path data' path = Some (String t)"
  defines "holds \<equiv> \<lambda>d op. evaluate_condition N d \<lparr> cond_path = path, cond_operator = op \<rparr>"
  shows "(holds data (Op_Eq (String t)) \<longleftrightarrow> s = t) \<and> (holds data (Op_Ne (String t)) \<longleftrightarrow> s \<noteq> t) \<and>
    (holds data (Op_Lt (String t)) \<longleftrightarrow> \<not> holds data (Op_Eq (String t)) \<and> \<not> holds data (Op_Gt (String t))) \<and>
    (holds data (Op_Lt (String t)) \<longleftrightarrow> holds data' (Op_Gt (String s))) \<and>
    (holds data (Op_Lte (String t)) \<longleftrightarrow> holds data (Op_Lt (String t)) \<or> holds data (Op_Eq (String t))) \<and>
    (holds data (Op_Gte (String t)) \<longleftrightarrow> holds data (Op_Gt (String t)) \<or> holds data (Op_Eq (String t))) \<and>
    (holds data (Op_Lt (String t)) \<and> holds data' (Op_Lt (String u)) \<longrightarrow> holds data (Op_Lt (String u))) \<and>
    (\<forall>v. (\<forall>t. v \<noteq> String t) \<longrightarrow>
       \<not> holds data (Op_Lt v) \<and> \<not> holds data (Op_Lte v) \<and> \<not> holds data (Op_Gt v) \<and> \<not> holds data (Op_Gte v))"
proof -
  have strings: "holds data (Op_Eq (String x)) \<longleftrightarrow> s = x" "holds data (Op_Ne (String x)) \<longleftrightarrow> s \<noteq> x"
    "holds data (Op_Lt (String x)) \<longleftrightarrow> str_cmp s x = Less" "holds data (Op_Gt (String x)) \<longleftrightarrow> str_cmp s x = Greater"
    "holds data (Op_Lte (String x)) \<longleftrightarrow> str_cmp s x \<noteq> Greater" "holds data (Op_Gte (String x)) \<longleftrightarrow> str_cmp s x \<noteq> Less"
    "holds data' (Op_Lt (String x)) \<longleftrightarrow> str_cmp t x = Less" "holds data' (Op_Gt (String x)) \<longleftrightarrow> str_cmp t x = Greater" for x
    using assms(1,2) by (simp_all add: holds_def evaluate_condition_def)
  have others: "compare N (String s) v = None" if "\<forall>t. v \<noteq> String t" for v using that by (cases v) simp_all
  have cases: "str_cmp s t = Less \<or> str_cmp s t = Equal \<or> str_cmp s t = Greater" by (cases "str_cmp s t") simp_all
  have "\<not> holds data (Op_Lt v) \<and> \<not> holds data (Op_Lte v) \<and> \<not> holds data (Op_Gt v) \<and> \<not> holds data (Op_Gte v)"
    if "\<forall>t. v \<noteq> String t" for v
    using others[OF that] assms(1) by (simp add: holds_def evaluate_condition_def)
  moreover have "str_cmp s t = Less \<longleftrightarrow> str_cmp t s = Greater" by (rule str_cmp_flip)
  moreover have "str_cmp s t = Less \<Longrightarrow> str_cmp t u = Less \<Longrightarrow> str_cmp s u = Less" by (rule str_cmp_trans)
  ultimately show ?thesis unfolding strings using cases str_cmp_Equal_iff[of s t] by (metis Ordering.distinct)
qed

theorem string_operators_witness:
  "evaluate_condition sample_numbers (nest [''a''] (String ''x'')) \<lparr> cond_path = ''$.a'', cond_operator = Op_Lt (String ''z'') \<rparr>"
proof -
  let ?d = "\<lambda>s. nest [''a''] (String s) :: nat Value"
  have found: "resolve_path (?d s) ''$.a'' = Some (String s)" for s by (simp add: resolve_path_def)
  have less: "evaluate_condition sample_numbers (?d ''x'') \<lparr> cond_path = ''$.a'', cond_operator = Op_Lt (String ''y'') \<rparr>"
    "evaluate_condition sample_numbers (?d ''y'') \<lparr> cond_path = ''$.a'', cond_operator = Op_Lt (String ''z'') \<rparr>"
    by (simp_all only: evaluate_condition_def found Let_def FilterCondition.select_convs FilterOperator.case option.case Option.bind.simps
        compare.simps str_cmp.simps) simp_all
  note order = string_operators[OF found found, THEN conjunct2, THEN conjunct2, THEN conjunct2, THEN conjunct2,
      THEN conjunct2, THEN conjunct2, THEN conjunct1, THEN mp]
  show ?thesis by (rule order[OF conjI[OF less]])
qed

end
