(* ===== verification/CommitOrder.thy ===== *)
theory CommitOrder
  imports Interleaving
begin

text \<open>
  Transactions that commit in any order. A push draws the number of its transaction from a
  sequence and becomes visible when it commits (\<^verbatim>\<open>db/transactions.rs\<close>); between the two other
  pushes can draw later numbers and commit them. Here the two are separate steps. What the
  database promises but the order of recording holds all the same, and what a client that pulls
  again from its cursor misses is exactly what was drawn and not committed when it pulled.
\<close>

section \<open>The invariant but for the order\<close>

definition in_order :: "'v tables \<Rightarrow> 'v tables" where
  "in_order t = t\<lparr>transactions := sort_key tx_id (transactions t)\<rparr>"

lemma in_order_simps [simp]:
  "clients (in_order t) = clients t" "revisions (in_order t) = revisions t"
  "revision_parents (in_order t) = revision_parents t" "transaction_revisions (in_order t) = transaction_revisions t"
  "object_heads (in_order t) = object_heads t" "files (in_order t) = files t" "txn_sequence (in_order t) = txn_sequence t"
  "set (transactions (in_order t)) = set (transactions t)"
  by (simp_all add: in_order_def)

lemma in_order_views [simp]:
  "object_of (in_order t) = object_of t" "parent_edges (in_order t) = parent_edges t" "head_set (in_order t) = head_set t"
  "parents_of (in_order t) = parents_of t" "row_at (in_order t) = row_at t"
  "window (in_order t) = window t" "parents_fit (in_order t) = parents_fit t"
  by (simp_all add: object_of_def parent_edges_def head_set_def parents_of_def row_at_def window_def parents_fit_def fun_eq_iff)

lemma in_order_decoded [simp]: "decoded (in_order t) = decoded t"
  by (simp add: decoded_def fun_eq_iff)

lemma in_order_ids: "map tx_id (transactions (in_order t)) = sort (map tx_id (transactions t))"
proof (rule properties_for_sort[symmetric])
  show "mset (map tx_id (transactions (in_order t))) = mset (map tx_id (transactions t))"
    by (simp add: in_order_def)
qed (simp add: in_order_def)

text \<open>Everything the invariant says except that transactions are recorded in the order of their ids\<close>

definition unordered_inv :: "'v tables \<Rightarrow> bool" where
  "unordered_inv t \<longleftrightarrow> store_inv t \<and> logged_ok t \<and> 1 \<le> txn_sequence t \<and> txn_sequence t \<le> 2 ^ 63 \<and>
     distinct (map tx_id (transactions t)) \<and>
     (\<forall>x \<in> set (transactions t). 1 \<le> tx_id x \<and> tx_id x < txn_sequence t)"

lemma unordered_inv_iff: "unordered_inv t \<longleftrightarrow> db_inv (in_order t)"
proof -
  have "store_inv (in_order t) = store_inv t" "logged_ok (in_order t) = logged_ok t"
    by (simp_all add: store_inv_def keys_ok_def refs_ok_def checks_ok_def positions_ok_def logged_ok_def)
  moreover have "sorted_wrt (<) (map tx_id (transactions (in_order t))) \<longleftrightarrow> distinct (map tx_id (transactions t))"
    unfolding in_order_ids strict_sorted_iff by simp
  ultimately show ?thesis
    by (auto simp: unordered_inv_def db_inv_store_inv txns_ok_def)
qed

lemma db_inv_unordered: "db_inv t \<Longrightarrow> unordered_inv t"
  by (auto simp: unordered_inv_def db_inv_store_inv txns_ok_def strict_sorted_iff)

section \<open>The steps\<close>

text \<open>
  \<open>drawn\<close> is the database after a push has drawn the number of its transaction, \<open>commit_drawn\<close> its
  commit under that number; the sequence does not go back. The batch is validated at the moment
  of the commit: \<open>Overlap\<close> shows that a push whose validation ran earlier has the effect of a push
  of the revisions it accepted, and the steps below push any batch.
\<close>

definition drawn :: "'v pool \<Rightarrow> 'v pool" where
  "drawn p = p\<lparr> tables := (tables p)\<lparr> txn_sequence := txn_sequence (tables p) + 1 \<rparr> \<rparr>"

definition commit_drawn :: "'v env \<Rightarrow> ClientId \<Rightarrow> 'v Revision list \<Rightarrow> int \<Rightarrow> 'v pool \<Rightarrow> 'v pool" where
  "commit_drawn E client revs n p =
     (let p' = snd (push_revisions E client revs (p\<lparr> tables := (tables p)\<lparr> txn_sequence := n \<rparr> \<rparr>))
      in p'\<lparr> tables := (tables p')\<lparr> txn_sequence := txn_sequence (tables p) \<rparr> \<rparr>)"

text \<open>
  The database with the numbers that are drawn and not committed: a client registers, a push
  draws a number, or commits under the number it has drawn, or fails and gives it up.
\<close>

inductive commit_step :: "'v pool \<times> int list \<Rightarrow> 'v pool \<times> int list \<Rightarrow> bool" where
  registers: "upsert_client E i u p = (r, p') \<Longrightarrow> commit_step (p, ds) (p', ds)"
| draws: "txn_sequence (tables p) \<le> i64_max \<Longrightarrow> commit_step (p, ds) (drawn p, txn_sequence (tables p) # ds)"
| commits: "n \<in> set ds \<Longrightarrow> commit_step (p, ds) (commit_drawn E client revs n p, remove1 n ds)"
| gives_up: "n \<in> set ds \<Longrightarrow> commit_step (p, ds) (p, remove1 n ds)"

inductive_cases commit_stepE: "commit_step s s'"

text \<open>What holds of the numbers that are drawn\<close>

definition drawn_inv :: "'v pool \<times> int list \<Rightarrow> bool" where
  "drawn_inv s \<longleftrightarrow> (case s of (p, ds) \<Rightarrow> unordered_inv (tables p) \<and> distinct ds \<and>
     (\<forall>n \<in> set ds. 1 \<le> n \<and> n < txn_sequence (tables p) \<and> n \<notin> tx_id ` set (transactions (tables p))))"

text \<open>What a step adds: its transactions are drawn before or newer than everything drawn.\<close>

definition adds :: "'v pool \<times> int list \<Rightarrow> 'v pool \<times> int list \<Rightarrow> bool" where
  "adds s s' \<longleftrightarrow> (case (s, s') of ((p, ds), (p', ds')) \<Rightarrow>
     (\<exists>rows txs trs. revisions (tables p') = revisions (tables p) @ rows \<and>
        transactions (tables p') = transactions (tables p) @ txs \<and>
        transaction_revisions (tables p') = transaction_revisions (tables p) @ trs \<and>
        (\<forall>x \<in> set txs. tx_id x \<in> set ds \<or> txn_sequence (tables p) \<le> tx_id x) \<and> fst ` set trs \<subseteq> tx_id ` set txs) \<and>
     txn_sequence (tables p) \<le> txn_sequence (tables p') \<and>
     (\<forall>n \<in> set ds'. n \<in> set ds \<or> txn_sequence (tables p) \<le> n))"

lemma sequence_views [simp]:
  "object_of (t\<lparr>txn_sequence := n\<rparr>) = object_of t" "parent_edges (t\<lparr>txn_sequence := n\<rparr>) = parent_edges t"
  "head_set (t\<lparr>txn_sequence := n\<rparr>) = head_set t"
  by (simp_all add: object_of_def parent_edges_def head_set_def fun_eq_iff)

lemma sequence_parts [simp]:
  "store_inv (t\<lparr>txn_sequence := n\<rparr>) = store_inv t" "logged_ok (t\<lparr>txn_sequence := n\<rparr>) = logged_ok t"
  by (simp_all add: store_inv_def keys_ok_def refs_ok_def checks_ok_def positions_ok_def logged_ok_def)

lemma late_pushed_inv:
  fixes t :: "'v tables"
  assumes "unordered_inv t" "pushed E client revs (t\<lparr>txn_sequence := n\<rparr>) t'"
    and n: "1 \<le> n" "n < txn_sequence t" "n \<notin> tx_id ` set (transactions t)"
  shows "unordered_inv (t'\<lparr>txn_sequence := txn_sequence t\<rparr>)"
proof -
  let ?t = "t\<lparr>txn_sequence := n\<rparr>" and ?A = "accepted_revs (t\<lparr>txn_sequence := n\<rparr>) client Map.empty revs"
  show ?thesis
  proof (cases "?A = []")
    case True
    with assms show ?thesis by (simp add: pushed_def)
  next
    case False
    then obtain t1 where all: "stored_all E ?A ?t t1" and rec: "recorded client (map rev_id ?A) t1 t'"
      using assms(2) by (auto simp: pushed_def Let_def)
    have adm: "admissible ?t client Map.empty ?A" by (rule accepted_revs_admissible)
    from assms(1) have inv: "store_inv ?t" "logged_ok ?t" by (simp_all add: unordered_inv_def)
    then have "store_inv t1" by (intro stored_all_store_inv[OF adm all objects_agree_refl])
    then have store: "store_inv t'" by (rule store_inv_recorded[OF rec])
    have logged: "logged_ok t'"
      by (rule logged_ok_pushed[OF all admissible_author[OF adm] rec inv(2)])
        (use inv(1) n(3) in \<open>simp_all add: store_inv_def\<close>)
    have "transactions t1 = transactions t" "txn_sequence t1 = n" using stored_all_rows[OF all] by auto
    then obtain at where "transactions t' = transactions t @ [\<lparr>tx_id = n, tx_client_id = client_uuid client, tx_created_at = at\<rparr>]"
      using rec by (auto simp: recorded_def)
    with assms(1) n store logged show ?thesis by (auto simp: unordered_inv_def)
  qed
qed

lemma late_pushed_adds:
  assumes "pushed E client revs (t\<lparr>txn_sequence := n\<rparr>) t'"
  shows "\<exists>rows txs trs. revisions t' = revisions t @ rows \<and> transactions t' = transactions t @ txs \<and>
    transaction_revisions t' = transaction_revisions t @ trs \<and> tx_id ` set txs \<subseteq> {n} \<and> fst ` set trs \<subseteq> tx_id ` set txs"
proof (cases "accepted_revs (t\<lparr>txn_sequence := n\<rparr>) client Map.empty revs = []")
  case True
  with assms show ?thesis by (simp add: pushed_def)
next
  case False
  then obtain t1 where all: "stored_all E (accepted_revs (t\<lparr>txn_sequence := n\<rparr>) client Map.empty revs) (t\<lparr>txn_sequence := n\<rparr>) t1"
    and "recorded client (map rev_id (accepted_revs (t\<lparr>txn_sequence := n\<rparr>) client Map.empty revs)) t1 t'"
    using assms by (auto simp: pushed_def Let_def)
  with stored_all_rows[OF all] show ?thesis by (auto simp: recorded_def)
qed

lemma commit_drawn_pushed:
  "tables (commit_drawn E client revs n p) = tables p \<or>
   (\<exists>t'. pushed E client revs ((tables p)\<lparr>txn_sequence := n\<rparr>) t' \<and>
      tables (commit_drawn E client revs n p) = t'\<lparr>txn_sequence := txn_sequence (tables p)\<rparr>)"
proof -
  let ?p = "p\<lparr>tables := (tables p)\<lparr>txn_sequence := n\<rparr>\<rparr>"
  obtain r p' where run: "push_revisions E client revs ?p = (r, p')" by (cases "push_revisions E client revs ?p")
  then have "tables (commit_drawn E client revs n p) = (tables p')\<lparr>txn_sequence := txn_sequence (tables p)\<rparr>"
    by (simp add: commit_drawn_def Let_def)
  moreover have "(\<exists>m. tables p' = (tables p)\<lparr>txn_sequence := m\<rparr>) \<or> pushed E client revs (tables ?p) (tables p')"
    using run push_revisions_Inr[of E client revs ?p _ p'] push_revisions_Inl[of E client revs ?p _ p'] by (cases r) auto
  ultimately show ?thesis by auto
qed

lemma upsert_client_unordered:
  assumes "upsert_client E i u p = (r, p')"
  shows "(\<exists>cs. tables p' = (tables p)\<lparr>clients := cs\<rparr>) \<and> (unordered_inv (tables p) \<longrightarrow> unordered_inv (tables p'))"
proof -
  let ?R = "\<lambda>p p' :: 'a pool. (\<exists>cs. tables p' = (tables p)\<lparr>clients := cs\<rparr>) \<and> (unordered_inv (tables p) \<longrightarrow> unordered_inv (tables p'))"
  have same: "\<exists>cs. t = t\<lparr>clients := cs\<rparr>" for t :: "'a tables" by (rule exI[of _ "clients t"]) simp
  have row: "(\<exists>cs. snd (upsert_client_row c v at t) = t\<lparr>clients := cs\<rparr>) \<and>
      in_order (snd (upsert_client_row c v at t)) = snd (upsert_client_row c v at (in_order t))" for c v at and t :: "'a tables"
    using same by (auto simp: upsert_client_row_def in_order_def split: option.split)
  have "always ?R (autocommit E (upsert_client_row c v at))" for c v at
    using row upsert_client_row_db_inv same by (intro always_autocommit) (auto simp: unordered_inv_iff)
  then show ?thesis using assms unfolding always_def upsert_client_def by (metis snd_conv)
qed

lemma commit_step_inv:
  assumes "commit_step s s'" "drawn_inv s"
  shows "drawn_inv s' \<and> adds s s'"
  using assms(1)
proof cases
  case (registers E i u p r p' ds)
  from upsert_client_unordered[OF registers(3)] assms(2) show ?thesis
    by (auto simp: registers drawn_inv_def adds_def)
next
  case (draws p ds)
  have "tables (drawn p) = (tables p)\<lparr>txn_sequence := txn_sequence (tables p) + 1\<rparr>" by (simp add: drawn_def)
  with assms(2) draws(3) show ?thesis by (fastforce simp: draws(1,2) drawn_inv_def adds_def unordered_inv_def)
next
  case (commits n ds p E client revs)
  have inv: "unordered_inv (tables p)" "distinct ds" "1 \<le> n" "n < txn_sequence (tables p)" "n \<notin> tx_id ` set (transactions (tables p))"
    using assms(2) commits(3) by (auto simp: commits drawn_inv_def)
  show ?thesis
    using commit_drawn_pushed[of E client revs n p]
  proof (elim disjE exE conjE)
    assume same: "tables (commit_drawn E client revs n p) = tables p"
    with assms(2) show ?thesis by (auto simp: commits drawn_inv_def adds_def dest: notin_set_remove1[THEN contrapos_pp] set_remove1_subset[THEN subsetD])
  next
    fix t'
    assume eff: "pushed E client revs ((tables p)\<lparr>txn_sequence := n\<rparr>) t'"
      and t': "tables (commit_drawn E client revs n p) = t'\<lparr>txn_sequence := txn_sequence (tables p)\<rparr>"
    obtain rows txs trs where more: "revisions t' = revisions (tables p) @ rows" "transactions t' = transactions (tables p) @ txs"
      "transaction_revisions t' = transaction_revisions (tables p) @ trs" "tx_id ` set txs \<subseteq> {n}" "fst ` set trs \<subseteq> tx_id ` set txs"
      using late_pushed_adds[OF eff] by blast
    have left: "set (remove1 n ds) = set ds - {n}" using inv(2) by simp
    have "m \<notin> tx_id ` set (transactions t')" if "m \<in> set ds - {n}" for m
      using that more(2,4) assms(2) by (auto simp: commits(1) drawn_inv_def)
    moreover have "1 \<le> m \<and> m < txn_sequence (tables p)" if "m \<in> set ds - {n}" for m
      using that assms(2) by (simp add: commits(1) drawn_inv_def)
    ultimately have "drawn_inv s'"
      using late_pushed_inv[OF inv(1) eff inv(3-5)] inv(2) unfolding commits(2) drawn_inv_def t' prod.case left by simp
    moreover have "tx_id x \<in> set ds" if "x \<in> set txs" for x using that more(4) commits(3) by blast
    then have "adds s s'"
      unfolding commits(1,2) adds_def t' prod.case left using more(1-3,5) by auto
    ultimately show ?thesis ..
  qed
next
  case (gives_up n ds p)
  with assms(2) show ?thesis by (auto simp: drawn_inv_def adds_def dest: set_remove1_subset[THEN subsetD])
qed

section \<open>Reachable states\<close>

lemma adds_refl: "adds s s"
  by (cases s) (auto simp: adds_def)

lemma adds_trans:
  assumes "adds s1 s2" "adds s2 s3"
  shows "adds s1 s3"
proof -
  obtain p1 d1 p2 d2 p3 d3 where s: "s1 = (p1, d1)" "s2 = (p2, d2)" "s3 = (p3, d3)" by (metis prod.collapse)
  from assms obtain rows txs trs rows' txs' trs' where
    one: "revisions (tables p2) = revisions (tables p1) @ rows" "transactions (tables p2) = transactions (tables p1) @ txs"
      "transaction_revisions (tables p2) = transaction_revisions (tables p1) @ trs"
      "\<forall>x \<in> set txs. tx_id x \<in> set d1 \<or> txn_sequence (tables p1) \<le> tx_id x" "fst ` set trs \<subseteq> tx_id ` set txs"
    and two: "revisions (tables p3) = revisions (tables p2) @ rows'" "transactions (tables p3) = transactions (tables p2) @ txs'"
      "transaction_revisions (tables p3) = transaction_revisions (tables p2) @ trs'"
      "\<forall>x \<in> set txs'. tx_id x \<in> set d2 \<or> txn_sequence (tables p2) \<le> tx_id x" "fst ` set trs' \<subseteq> tx_id ` set txs'"
    and seq: "txn_sequence (tables p1) \<le> txn_sequence (tables p2)" "txn_sequence (tables p2) \<le> txn_sequence (tables p3)"
    and new: "\<forall>n \<in> set d2. n \<in> set d1 \<or> txn_sequence (tables p1) \<le> n" "\<forall>n \<in> set d3. n \<in> set d2 \<or> txn_sequence (tables p2) \<le> n"
    by (auto simp: adds_def s)
  have "tx_id x \<in> set d1 \<or> txn_sequence (tables p1) \<le> tx_id x" if "x \<in> set (txs @ txs')" for x
    using that one(4) two(4) new(1) seq(1) by fastforce
  moreover have "n \<in> set d1 \<or> txn_sequence (tables p1) \<le> n" if "n \<in> set d3" for n
    using that new seq(1) by fastforce
  moreover have "fst ` set (trs @ trs') \<subseteq> tx_id ` set (txs @ txs')" using one(5) two(5) by auto
  moreover have "txn_sequence (tables p1) \<le> txn_sequence (tables p3)" using seq by simp
  ultimately show ?thesis
    unfolding adds_def s prod.case
    by (intro conjI exI[where x = "rows @ rows'"] exI[where x = "txs @ txs'"] exI[where x = "trs @ trs'"])
      (simp_all add: one(1-3) two(1-3))
qed

lemma commit_steps_inv:
  assumes "commit_step\<^sup>*\<^sup>* s s'" "drawn_inv s"
  shows "drawn_inv s' \<and> adds s s'"
  using assms(1)
proof (induction rule: rtranclp_induct)
  case base
  with assms(2) adds_refl show ?case by blast
next
  case (step s' s'')
  with commit_step_inv adds_trans show ?case by blast
qed

lemma drawn_inv_start: "db_inv (tables p) \<Longrightarrow> drawn_inv (p, [])"
  by (simp add: drawn_inv_def db_inv_unordered)

text \<open>
  C27: The database stays sound whichever order transactions commit in. From a sound database on,
  with any number of pushes between drawing a number and committing, in every order and with any
  fault of a database call: the tables satisfy the constraints of the schema, every revision is
  recorded in exactly one transaction, whose client is its author, the heads of every object are
  its revisions without children in an acyclic graph, transaction ids are distinct and were drawn,
  and a number that is drawn and not committed is not in use.
\<close>

theorem commit_order_inv:
  assumes "db_inv (tables p)" "commit_step\<^sup>*\<^sup>* (p, []) (p', ds)"
  shows "keys_ok (tables p') \<and> refs_ok (tables p') \<and> checks_ok (tables p') \<and> positions_ok (tables p') \<and>
    logged_ok (tables p') \<and> graph_ok (object_of (tables p')) (parent_edges (tables p')) (head_set (tables p')) \<and>
    distinct (map tx_id (transactions (tables p'))) \<and>
    (\<forall>x \<in> set (transactions (tables p')). 1 \<le> tx_id x \<and> tx_id x < txn_sequence (tables p')) \<and>
    (\<forall>n \<in> set ds. n < txn_sequence (tables p') \<and> n \<notin> tx_id ` set (transactions (tables p')))"
  using commit_steps_inv[OF assms(2) drawn_inv_start[OF assms(1)]]
  by (simp add: drawn_inv_def unordered_inv_def store_inv_def)

text \<open>
  Two pushes: the one that has drawn the number 1 commits after the one that has drawn 2.
\<close>

definition overtaken :: "nat Value pool" where
  "overtaken = commit_drawn sample_env other_client [unrelated_root] 2 (drawn (drawn sample_pool))"

definition committed_late :: "nat Value pool" where
  "committed_late = commit_drawn sample_env sample_client [sample_root] 1 overtaken"

lemma overtaken_reached: "commit_step\<^sup>*\<^sup>* (sample_pool, []) (overtaken, [1])"
proof -
  let ?p1 = "drawn sample_pool" and ?p2 = "drawn (drawn sample_pool)"
  have seq: "txn_sequence (tables sample_pool) = 1" "txn_sequence (tables ?p1) = 2" by code_simp+
  have "commit_step (sample_pool, []) (?p1, [1])" using draws[of sample_pool "[]"] seq by simp
  moreover have "commit_step (?p1, [1]) (?p2, [2, 1])" using draws[of ?p1 "[1]"] seq by simp
  moreover have "commit_step (?p2, [2, 1]) (overtaken, [1])"
    unfolding overtaken_def using commits[of 2 "[2, 1]" ?p2 sample_env other_client "[unrelated_root]"] by simp
  ultimately show ?thesis by (meson converse_rtranclp_into_rtranclp rtranclp.rtrancl_refl)
qed

lemma committed_late_reached: "commit_step\<^sup>*\<^sup>* (overtaken, [1]) (committed_late, [])"
  unfolding committed_late_def using commits[of 1 "[1]" overtaken sample_env sample_client "[sample_root]"] by auto

theorem commit_order_inv_witness:
  "graph_ok (object_of (tables committed_late)) (parent_edges (tables committed_late)) (head_set (tables committed_late)) \<and>
   map tx_id (transactions (tables committed_late)) = [2, 1]"
proof -
  have "map tx_id (transactions (tables committed_late)) = [2, 1]" by code_simp
  with commit_order_inv[OF sample_pool_inv rtranclp_trans[OF overtaken_reached committed_late_reached]] show ?thesis by blast
qed

section \<open>Pulls\<close>

text \<open>No query looks at the order in which transactions were recorded.\<close>

lemma max_in_order: "max_transaction_id (in_order t) = max_transaction_id t"
proof (cases "transactions t")
  case (Cons x xs)
  have top: "max_transaction_id u = Max (tx_id ` set (transactions u))" if "transactions u \<noteq> []" for u :: "'a tables"
  proof -
    have "fold max is i = Max (set (i # is))" for i :: int and "is" by (rule Max.set_eq_fold[symmetric])
    with that show ?thesis unfolding max_transaction_id_def by (cases "transactions u") auto
  qed
  have "transactions (in_order t) \<noteq> []" using Cons by (metis empty_iff in_order_simps(8) list.set(1) list.set_intros(1))
  with Cons show ?thesis by (simp add: top)
qed (simp add: in_order_def max_transaction_id_def)

lemma changed_in_order: "changed_objects (in_order t) s u c = changed_objects t s u c"
proof -
  have rep: "concat (map (\<lambda>x. if P x then [v] else []) xs) = replicate (length (filter P xs)) v" for P :: "TransactionRow \<Rightarrow> bool" and v :: uuid and xs
    by (induction xs) auto
  have "length (filter P (sort_key tx_id xs)) = length (filter P xs)" for P and xs :: "TransactionRow list"
    by (metis mset_filter mset_sort size_mset)
  then show ?thesis by (simp add: changed_objects_def rep in_order_def)
qed

lemma updates_in_order: "updates_of E passes s u c (in_order t) = updates_of E passes s u c t"
proof -
  have "parents_found E ids (in_order t) = parents_found E ids t" for ids by (simp add: parents_found_def)
  then have "assembled E passes cs (in_order t) = assembled E passes cs t" for cs
    by (simp add: assembled_def head_rows_def Let_def)
  then show ?thesis by (simp add: updates_of_def changed_in_order Let_def)
qed

lemma pull_changes_run:
  assumes "pull_changes E N auth q p = (Inr resp, p')"
  shows "resp = respond 200 (Json_Pull \<lparr>up_to_transaction = TransactionId (word_of_int (max_transaction_id (tables p))),
      object_updates = updates_of E (head_passes N (pull_object_types q) (pull_created_at q) (pull_filter q)) (since_i64 (pull_since q))
        (uint (word_of_int (max_transaction_id (tables p)) :: 64 word)) (client_uuid (auth_client_id auth)) (tables p)\<rparr>)"
proof -
  from assms obtain latest p1 ups where "latest_transaction_id E p = (Inr latest, p1)"
    and fetch: "fetch_object_updates E N (auth_client_id auth) (pull_since q) (TransactionId latest)
      (pull_object_types q) (pull_created_at q) (pull_filter q) p1 = (Inr ups, p')"
    and resp: "resp = respond 200 (Json_Pull \<lparr>up_to_transaction = TransactionId latest, object_updates = ups\<rparr>)"
    by (auto simp: pull_changes_def and_then_Inr_iff map_err_Inr_iff ok_def err_def split: if_splits)
  then have "latest = word_of_int (max_transaction_id (tables p))" "tables p1 = tables p"
    by (auto simp: latest_transaction_id_def query_Inr_iff)
  with fetch_run[OF fetch] resp show ?thesis by simp
qed

text \<open>A pull without filters names the objects of its window, whatever the order of the transactions.\<close>

lemma pulled_objects:
  assumes "pull_changes E N auth q p = (Inr (respond 200 (Json_Pull a)), p')"
    and "pull_object_types q = None" "pull_created_at q = None" "pull_filter q = None"
    and "unordered_inv (tables p)" "plans_permute E" "parents_fit (tables p)"
  shows "upd_object_id ` set (object_updates a) = ObjectId ` window (tables p) (since_i64 (pull_since q))
      (max_transaction_id (tables p)) (client_uuid (auth_client_id auth))"
    and "uint (transaction_u64 (up_to_transaction a)) = max_transaction_id (tables p)"
proof -
  let ?t = "in_order (tables p)"
  have inv: "db_inv ?t" using assms(5) by (simp add: unordered_inv_iff)
  have u64: "uint (word_of_int (max_transaction_id (tables p)) :: 64 word) = max_transaction_id (tables p)"
    using max_transaction_u64[OF inv] by (simp add: max_in_order)
  let ?ups = "updates_of E (head_passes N None None None) (since_i64 (pull_since q)) (max_transaction_id (tables p))
      (client_uuid (auth_client_id auth)) (tables p)"
  have a: "a = \<lparr>up_to_transaction = TransactionId (word_of_int (max_transaction_id (tables p))), object_updates = ?ups\<rparr>"
    using pull_changes_run[OF assms(1)] by (simp add: assms(2-4) u64 respond_def)
  show "uint (transaction_u64 (up_to_transaction a)) = max_transaction_id (tables p)" by (simp add: a u64)
  let ?w = "window (tables p) (since_i64 (pull_since q)) (max_transaction_id (tables p)) (client_uuid (auth_client_id auth))"
  have "updates_exact (head_passes N None None None) ?w ?t ?ups"
    using updates_of_exact[OF inv assms(6), of "head_passes N None None None" "since_i64 (pull_since q)"
        "max_transaction_id (tables p)" "client_uuid (auth_client_id auth)"] assms(7)
    by (simp add: updates_in_order)
  then have "upd_object_id ` set ?ups = ObjectId ` {ob \<in> ?w. \<exists>h \<in> head_set ?t ob. head_passes N None None None (row_at ?t h)}"
    by (simp add: updates_exact_def)
  also have "{ob \<in> ?w. \<exists>h \<in> head_set ?t ob. head_passes N None None None (row_at ?t h)} = ?w"
  proof -
    have "head_passes N None None None row" for row by (simp add: head_passes_def split: option.split)
    moreover have "\<exists>h. h \<in> head_set ?t ob" if "ob \<in> ?w" for ob
    proof -
      from that obtain r where "r \<in> set (revisions ?t)" "row_object_id r = ob" by (auto simp: window_def)
      with db_inv_object_has_head[OF inv] show ?thesis by (auto simp: head_set_def)
    qed
    ultimately show ?thesis by blast
  qed
  finally show "upd_object_id ` set (object_updates a) = ObjectId ` ?w" by (simp only: a PullResponse.select_convs)
qed

text \<open>
  The windows of two states that are connected by commits in any order: what lies between the
  first cursor and the second is missing only where its number was drawn before and is too small.
\<close>

lemma windows_any_order:
  assumes "drawn_inv (p, ds)" "drawn_inv (p', ds')" "adds (p, ds) (p', ds')" and s: "s \<le> max_transaction_id (tables p)"
  shows "window (tables p) s (max_transaction_id (tables p)) c \<union>
      window (tables p') (max_transaction_id (tables p)) (max_transaction_id (tables p')) c =
    {row_object_id r | r x. r \<in> set (revisions (tables p')) \<and> x \<in> set (transactions (tables p')) \<and>
      (tx_id x, row_id r) \<in> set (transaction_revisions (tables p')) \<and> row_created_by r \<noteq> c \<and> s < tx_id x \<and>
      \<not> (tx_id x \<in> set ds \<and> tx_id x \<le> max_transaction_id (tables p))}" (is "?old \<union> ?new = ?all")
proof -
  let ?t = "tables p" and ?t' = "tables p'" and ?m = "max_transaction_id (tables p)"
  from assms(3) obtain rows txs trs where t': "revisions ?t' = revisions ?t @ rows" "transactions ?t' = transactions ?t @ txs"
    "transaction_revisions ?t' = transaction_revisions ?t @ trs"
    and late: "\<And>x. x \<in> set txs \<Longrightarrow> tx_id x \<in> set ds \<or> txn_sequence ?t \<le> tx_id x" and logs: "fst ` set trs \<subseteq> tx_id ` set txs"
    by (auto simp: adds_def)
  have inv: "unordered_inv ?t" "unordered_inv ?t'" and free: "\<And>n. n \<in> set ds \<Longrightarrow> n \<notin> tx_id ` set (transactions ?t)"
    using assms(1,2) by (simp_all add: drawn_inv_def)
  have m: "?m < txn_sequence ?t" using max_transaction_id_less[of "in_order ?t"] inv(1) by (simp add: max_in_order unordered_inv_iff)
  have one: "x = y" if "x \<in> set (transactions ?t')" "y \<in> set (transactions ?t')" "tx_id x = tx_id y" for x y
    using that inv(2) by (auto simp: unordered_inv_def distinct_map dest: inj_onD)
  have rows_one: "r = r'" if "r \<in> set (revisions ?t')" "r' \<in> set (revisions ?t')" "row_id r = row_id r'" for r r'
    using that inv(2) by (auto simp: unordered_inv_def store_inv_def keys_ok_def distinct_map dest: inj_onD)
  show ?thesis
  proof (intro set_eqI iffI)
    fix ob
    assume "ob \<in> ?old \<union> ?new"
    then show "ob \<in> ?all" using s free by (fastforce simp: window_def t')
  next
    fix ob
    assume "ob \<in> ?all"
    then obtain r x where r: "r \<in> set (revisions ?t')" "x \<in> set (transactions ?t')" "(tx_id x, row_id r) \<in> set (transaction_revisions ?t')"
      "row_created_by r \<noteq> c" "s < tx_id x" "ob = row_object_id r" and not_late: "\<not> (tx_id x \<in> set ds \<and> tx_id x \<le> ?m)" by blast
    show "ob \<in> ?old \<union> ?new"
    proof (cases "?m < tx_id x")
      case True
      with r max_transaction_id_ge[OF r(2)] show ?thesis by (auto simp: window_def)
    next
      case False
      have old: "y \<in> set (transactions ?t)" if "y \<in> set (transactions ?t')" "tx_id y = tx_id x" for y
        using that late[of y] not_late False m by (auto simp: t'(2))
      have "(tx_id x, row_id r) \<notin> set trs"
      proof
        assume "(tx_id x, row_id r) \<in> set trs"
        then obtain y where y: "y \<in> set txs" "tx_id y = tx_id x" using logs by force
        from late[OF y(1)] y(2) not_late False m show False by auto
      qed
      then have entry: "(tx_id x, row_id r) \<in> set (transaction_revisions ?t)" using r(3) by (auto simp: t'(3))
      then have "row_id r \<in> known_ids ?t" using inv(1) by (fastforce simp: unordered_inv_def store_inv_def refs_ok_def)
      then obtain r' where "r' \<in> set (revisions ?t)" "row_id r' = row_id r" by auto
      with rows_one[of r' r] r(1) have "r \<in> set (revisions ?t)" by (auto simp: t'(1))
      with entry old[OF r(2) refl] r False have "ob \<in> ?old"
        unfolding window_def mem_Collect_eq by (intro exI[of _ r] exI[of _ x] conjI) simp_all
      then show ?thesis ..
    qed
  qed
qed

text \<open>
  C17: What a client that pulls again from its cursor has heard of, whichever order transactions
  commit in. Two pulls without filters, the second from the cursor of the first and any number of
  commits later, together name exactly the objects that others changed after the first cursor, in
  all transactions recorded by then, except those whose number was drawn before the first pull,
  was not committed then, and lies below its cursor. So nothing is missed where no number is drawn
  and uncommitted at the time of the first pull, in particular where transactions commit in the
  order of their ids. The cursor the first pull starts from is not beyond the newest transaction.
\<close>

theorem cursor_gap_exact:
  assumes "db_inv (tables p0)" "commit_step\<^sup>*\<^sup>* (p0, []) (p, ds)" "commit_step\<^sup>*\<^sup>* (p, ds) (p', ds')"
    and "pull_changes E N auth q p = (Inr (respond 200 (Json_Pull a)), q1)"
    and "pull_changes E' N auth (q\<lparr>pull_since := Some (up_to_transaction a)\<rparr>) p' = (Inr (respond 200 (Json_Pull b)), q2)"
    and "pull_object_types q = None" "pull_created_at q = None" "pull_filter q = None"
    and "since_i64 (pull_since q) \<le> max_transaction_id (tables p)"
    and "plans_permute E" "plans_permute E'" "parents_fit (tables p)" "parents_fit (tables p')"
  shows "upd_object_id ` (set (object_updates a) \<union> set (object_updates b)) =
    ObjectId ` {row_object_id r | r x. r \<in> set (revisions (tables p')) \<and> x \<in> set (transactions (tables p')) \<and>
      (tx_id x, row_id r) \<in> set (transaction_revisions (tables p')) \<and> row_created_by r \<noteq> client_uuid (auth_client_id auth) \<and>
      since_i64 (pull_since q) < tx_id x \<and>
      \<not> (tx_id x \<in> set ds \<and> tx_id x \<le> uint (transaction_u64 (up_to_transaction a)))}"
proof -
  let ?c = "client_uuid (auth_client_id auth)" and ?m = "max_transaction_id (tables p)"
  have inv: "drawn_inv (p, ds)" using commit_steps_inv[OF assms(2) drawn_inv_start[OF assms(1)]] ..
  note later = commit_steps_inv[OF assms(3) inv]
  have unordered: "unordered_inv (tables p)" "unordered_inv (tables p')" using inv later by (simp_all add: drawn_inv_def)
  note first = pulled_objects[OF assms(4,6-8) unordered(1) assms(10,12)]
  have second: "upd_object_id ` set (object_updates b) = ObjectId ` window (tables p')
      (sint (transaction_u64 (up_to_transaction a))) (max_transaction_id (tables p')) ?c"
    using pulled_objects(1)[OF assms(5) _ _ _ unordered(2) assms(11,13)] assms(6-8) by simp
  have "?m < txn_sequence (tables p)" "txn_sequence (tables p) \<le> 2 ^ 63"
    using max_transaction_id_less[of "in_order (tables p)"] unordered(1) by (simp_all add: max_in_order unordered_inv_iff[symmetric] unordered_inv_def)
  then have "sint (transaction_u64 (up_to_transaction a)) = ?m"
    using first(2) fits_i64[of "transaction_u64 (up_to_transaction a)"] by simp
  then have "upd_object_id ` (set (object_updates a) \<union> set (object_updates b)) =
      ObjectId ` (window (tables p) (since_i64 (pull_since q)) ?m ?c \<union> window (tables p') ?m (max_transaction_id (tables p')) ?c)"
    by (simp only: image_Un first(1) second)
  also have "window (tables p) (since_i64 (pull_since q)) ?m ?c \<union> window (tables p') ?m (max_transaction_id (tables p')) ?c =
    {row_object_id r | r x. r \<in> set (revisions (tables p')) \<and> x \<in> set (transactions (tables p')) \<and>
      (tx_id x, row_id r) \<in> set (transaction_revisions (tables p')) \<and> row_created_by r \<noteq> ?c \<and>
      since_i64 (pull_since q) < tx_id x \<and> \<not> (tx_id x \<in> set ds \<and> tx_id x \<le> ?m)}"
    by (rule windows_any_order[OF inv conjunct1[OF later] conjunct2[OF later] assms(9)])
  finally show ?thesis unfolding first(2) .
qed

text \<open>A client that pulls between the two commits and again from its cursor never hears of object 10.\<close>

abbreviation reader :: AuthInfo where
  "reader \<equiv> \<lparr>auth_client_id = ClientId 9, auth_user_id = UserId 90, auth_roles = []\<rparr>"

definition pull_by_reader :: "TransactionId option \<Rightarrow> nat Value pool \<Rightarrow> (ServerError + nat Value Response) \<times> nat Value pool" where
  "pull_by_reader since p = pull_changes sample_env sample_numbers reader
     \<lparr>pull_since = since, pull_object_types = None, pull_created_at = None, pull_filter = None\<rparr> p"

abbreviation missed_answer :: "TransactionId \<Rightarrow> nat Value ObjectUpdate list \<Rightarrow> nat Value Response" where
  "missed_answer m ups \<equiv> respond 200 (Json_Pull \<lparr>up_to_transaction = m, object_updates = ups\<rparr>)"

lemma missed_for_good:
  "fst (pull_by_reader None overtaken) = Inr (missed_answer (TransactionId 2) [object_update 20 [unrelated_root]])"
  "fst (pull_by_reader (Some (TransactionId 2)) committed_late) = Inr (missed_answer (TransactionId 2) [])"
  "object_heads (tables committed_late) = [(20, 5), (10, 1)]"
  by code_simp+

theorem cursor_gap_exact_witness:
  "{ObjectId 20} = ObjectId ` {row_object_id r | r x. r \<in> set (revisions (tables committed_late)) \<and>
      x \<in> set (transactions (tables committed_late)) \<and> (tx_id x, row_id r) \<in> set (transaction_revisions (tables committed_late)) \<and>
      row_created_by r \<noteq> 9 \<and> 0 < tx_id x \<and> \<not> (tx_id x \<in> set [1] \<and> tx_id x \<le> 2)} \<and>
   (10, 1) \<in> set (object_heads (tables committed_late))"
proof -
  have fit: "parents_fit (tables overtaken)" "parents_fit (tables committed_late)"
  proof -
    have "length (revision_parents (tables overtaken)) = 0" "length (revision_parents (tables committed_late)) = 0" by code_simp+
    then show "parents_fit (tables overtaken)" "parents_fit (tables committed_late)" by (simp_all add: few_parents_fit)
  qed
  have m: "0 \<le> max_transaction_id (tables overtaken)" by code_simp
  let ?q = "\<lparr>pull_since = None, pull_object_types = None, pull_created_at = None, pull_filter = None\<rparr>"
  have pulls: "pull_changes sample_env sample_numbers reader ?q overtaken =
      (Inr (missed_answer (TransactionId 2) [object_update 20 [unrelated_root]]), snd (pull_by_reader None overtaken))"
    "pull_changes sample_env sample_numbers reader (?q\<lparr>pull_since := Some (TransactionId 2)\<rparr>) committed_late =
      (Inr (missed_answer (TransactionId 2) []), snd (pull_by_reader (Some (TransactionId 2)) committed_late))"
    using missed_for_good(1,2) by (simp_all add: pull_by_reader_def prod_eq_iff)
  have "upd_object_id ` (set [object_update 20 [unrelated_root]] \<union> set []) =
    ObjectId ` {row_object_id r | r x. r \<in> set (revisions (tables committed_late)) \<and>
      x \<in> set (transactions (tables committed_late)) \<and> (tx_id x, row_id r) \<in> set (transaction_revisions (tables committed_late)) \<and>
      row_created_by r \<noteq> 9 \<and> 0 < tx_id x \<and> \<not> (tx_id x \<in> set [1] \<and> tx_id x \<le> 2)}"
    using cursor_gap_exact[OF sample_pool_inv overtaken_reached committed_late_reached pulls(1), unfolded PullResponse.select_convs,
        OF pulls(2)] m fit sample_plans by simp
  then show ?thesis by (simp add: object_update_def missed_for_good(3))
qed

end
