(* ===== verification/Scenarios.thy ===== *)
theory Scenarios
  imports EndToEnd
begin

text \<open>
  Runs of the whole program that end in states its users will not expect, evaluated on the
  model: what the findings of the development report.
\<close>

section \<open>Two clients and a server\<close>

abbreviation client_b :: "(nat Value, nat Value, nat Value pool, nat Value) client_env" where
  "client_b \<equiv> sample_client_env other_client (V4 [10, 0, 0, 2])"

text \<open>The calls of a client on its database and the server\<close>

definition calls_of ::
  "(nat Value, nat Value, nat Value pool, nat Value) client_env \<Rightarrow> (nat Value, nat Value) client_call list \<Rightarrow>
     nat Value client_db \<times> nat Value pool \<Rightarrow> nat Value client_db \<times> nat Value pool" where
  "calls_of X cs st = (case fold (after_call X) cs \<lparr> local_db = fst st, remote = snd st \<rparr> of w \<Rightarrow> (local_db w, remote w))"

abbreviation opens_repo :: "(nat Value, nat Value) client_call" where
  "opens_repo \<equiv> Call_Open IndexSchema_new ''https://sync/''"

abbreviation syncs :: "(nat Value, nat Value) client_call" where
  "syncs \<equiv> Call_Sync ''https://sync/'' pull_all"

definition sync_statuses :: "nat Value client_db \<Rightarrow> (RevisionId \<times> SyncStatus) list" where
  "sync_statuses d = map (\<lambda>(i, x). (i, rec_sync_status x)) (db_revisions d)"

section \<open>An offline edit with a smaller id than its parent\<close>

text \<open>
  The pending revisions are pushed in the order of their ids. Where the id of an edit is the
  smaller one, it is sent before its parent and rejected for good, while its parent is stored:
  the state of the client and the server stay apart, also after another round.
\<close>

definition edited_offline :: "nat Value client_db \<times> nat Value pool" where
  "edited_offline = calls_of client_a
     [opens_repo, Call_Save (ObjectId 10) (RevisionId 2) 5 ''note'' (String ''a''),
      Call_Update (RevisionId 1) 6 (ObjectId 10) (RevisionId 2) (String ''b''), syncs, syncs] (empty_db, empty_pool)"

theorem edit_before_parent:
  "sync_statuses (fst edited_offline) = [(RevisionId 1, SyncError UnknownParent), (RevisionId 2, Synced)]"
  "map fst (db_heads (fst edited_offline)) = [(ObjectId 10, RevisionId 1)]"
  "object_heads (tables (snd edited_offline)) = [(10, 2)]"
  by code_simp+

section \<open>A lost answer\<close>

text \<open>
  Where the answer to a push is lost, the push is repeated in the next round and the server
  reports the revision as a duplicate: the client regards a stored revision as rejected.
\<close>

definition losing_env :: "(nat Value, nat Value, nat Value pool, nat Value) client_env" where
  "losing_env = client_a\<lparr> ce_server := site sample_env sample_numbers (ServerStore_new sample_auth)
     (sample_connection (V4 [10, 0, 0, 1])) (\<lambda>p. Response_Lost) ''https://sync/'' \<rparr>"

definition retried :: "nat Value client_db \<times> nat Value pool" where
  "retried = calls_of client_a [syncs] (calls_of losing_env [syncs]
     (calls_of client_a [opens_repo, Call_Save (ObjectId 10) (RevisionId 1) 5 ''note'' (String ''a'')] (empty_db, empty_pool)))"

theorem stored_but_rejected:
  "sync_statuses (fst retried) = [(RevisionId 1, SyncError DuplicateRevisionId)]"
  "RevisionId 1 \<in> known_revisions (snd retried)"
  by code_simp+

section \<open>A client two revisions behind\<close>

text \<open>
  A pull compares the heads of the client with the direct parents of the delivered heads only.
  A client that is two revisions behind keeps its old head beside the new one and reports a
  conflict, although the new head descends from the old one. It has to be resolved by hand.
\<close>

definition third_revision :: "nat Value Revision" where
  "third_revision = sample_update\<lparr> rev_id := RevisionId 3, rev_lineage := Update (RevisionId 2) \<rparr>"

definition pushed_by_a :: "nat Value Revision list \<Rightarrow> nat Value pool \<Rightarrow> nat Value pool" where
  "pushed_by_a rs p = snd (router sample_env sample_numbers (ServerStore_new sample_auth)
     \<lparr> peer = Some (V4 [10, 0, 0, 1]), req_headers = [], endpoint = Post_Changes \<lparr> push_req_revisions = rs \<rparr> \<rparr> p)"

definition behind :: "nat Value client_db \<times> nat Value pool" where
  "behind = (let (b, p) = calls_of client_b [opens_repo, syncs] (empty_db, pushed_by_a [sample_root] empty_pool)
     in (b, pushed_by_a [sample_update, third_revision] p))"

theorem spurious_conflict:
  "(map fst (db_heads (fst behind)), object_heads (tables (snd behind)),
    map fst (db_heads (fst (calls_of client_b [syncs] behind)))) =
   ([(ObjectId 10, RevisionId 1)], [(10, 3)], [(ObjectId 10, RevisionId 1), (ObjectId 10, RevisionId 3)])"
  by code_simp

end
