(* ===== verification/Spec2Isabelle.thy ===== *)
theory Spec2Isabelle
  imports ServerCorrect ClientCorrect OpenCorrect IndexQuery Catchup HandlersCorrect InputsCorrect Overlap CommitOrder Scenarios
begin

text \<open>
  rustend: an offline-first store of versioned objects. A server keeps the revisions of all
  objects in PostgreSQL (\<^verbatim>\<open>src/rustend-server\<close>), clients keep a cache in IndexedDB
  (\<^verbatim>\<open>src/rustend-client\<close>), and both exchange the messages of \<^verbatim>\<open>src/rustend-core\<close>. Every change of an
  object is a revision that names its parents; revisions without children are the heads of their
  object, and an object with several heads is in conflict until somebody merges them. A client
  works on its cache; a round of synchronisation pushes its pending revisions and pulls the heads
  of the objects that others changed since its cursor.

  The parts of the program and their theories

    \<^item> \<^verbatim>\<open>Core\<close>: \<^verbatim>\<open>rustend-core/src/*.rs\<close>, the identifiers (newtypes over 128-bit words, a transaction id
      over a 64-bit word), lineage, content, revisions, filters and messages. Fresh ids and the
      time, which the code draws in constructors, are arguments.
    \<^item> \<^verbatim>\<open>Tables\<close>: the functions of \<^verbatim>\<open>rustend-server/src/db\<close> but push and pull over the
      tables of \<^verbatim>\<open>migrations/001_initial.sql\<close>. Each statement is a change of the tables that checks
      the constraints of the schema; \<^verbatim>\<open>in_tx\<close> is a transaction with its rollback.
    \<^item> \<^verbatim>\<open>Push\<close>: \<^verbatim>\<open>db/push.rs\<close>, the validation of a batch and the transaction that stores it.
    \<^item> \<^verbatim>\<open>Filters\<close> and \<^verbatim>\<open>Pull\<close>: \<^verbatim>\<open>db/pull.rs\<close>, the evaluation of filters, and the updates of a window of
      transactions.
    \<^item> \<^verbatim>\<open>Ip\<close> and \<^verbatim>\<open>Server\<close>: \<^verbatim>\<open>error.rs\<close>, \<^verbatim>\<open>auth.rs\<close>, \<^verbatim>\<open>store.rs\<close>, \<^verbatim>\<open>handlers/*.rs\<close> and the router of \<^verbatim>\<open>lib.rs\<close>; a
      request is the peer address, the headers and the endpoint with its extracted arguments.
    \<^item> \<^verbatim>\<open>Idb\<close> and \<^verbatim>\<open>ClientDb\<close>: \<^verbatim>\<open>rustend-client/src/idb/*.rs\<close>, the object stores as lists in key order and the
      functions on them, in transactions that commit or roll back.
    \<^item> \<^verbatim>\<open>Sync\<close>: \<^verbatim>\<open>sync.rs\<close>, over a server that is an argument.
    \<^item> \<^verbatim>\<open>Repository\<close> and \<^verbatim>\<open>IndexQuery\<close>: \<^verbatim>\<open>repository.rs\<close>, \<^verbatim>\<open>schema.rs\<close>, \<^verbatim>\<open>types.rs\<close>, \<^verbatim>\<open>error.rs\<close> and
      \<^verbatim>\<open>idb/open.rs\<close>.
    \<^item> \<^verbatim>\<open>Async\<close> and \<^verbatim>\<open>Tasks\<close>: requests that overlap. An \<^verbatim>\<open>async fn\<close> is a task that is done or waits for the
      database; the push, the pull, the handlers and the authentication again, with each of their
      \<^verbatim>\<open>.await\<close>s. A task that nobody interrupts is the operation of the theories above.
    \<^item> \<^verbatim>\<open>Prelude\<close> and \<^verbatim>\<open>Str\<close>: fallible operations with a state (\<^verbatim>\<open>?\<close> is \<open>and_then\<close>), loops that stop at
      the first error, pre- and postconditions, and the operations on strings.

  What is proved, and where

    \<^item> \<^verbatim>\<open>Graph\<close> and \<^verbatim>\<open>Invariant\<close>: an interface for a growing graph of revisions, interpreted on the tables.
      It gives the invariant of the database: the constraints of the schema, the order of parents,
      the log of transactions, and that the heads are the revisions without children of an acyclic
      graph within one object. Every operation keeps it, whether it succeeds or fails.
    \<^item> \<^verbatim>\<open>PushCorrect\<close>: which revisions a push accepts and why it rejects the others, that it is atomic
      and total, what a repetition does, and the order of transactions.
    \<^item> \<^verbatim>\<open>PullCorrect\<close>: the history only grows, and a pull delivers exactly the objects and heads it should.
    \<^item> \<^verbatim>\<open>ServerCorrect\<close> and \<^verbatim>\<open>HandlersCorrect\<close>: what holds in every reachable state of the server, who may
      write and what the others are told; the type of every answer, the answer to a pull with its
      filters, objects and files.
    \<^item> \<^verbatim>\<open>Interleaving\<close> and \<^verbatim>\<open>Overlap\<close>: any number of requests under way, resumed in any order and dropped
      at any \<^verbatim>\<open>.await\<close>. A rely and guarantee argument (the locale \<open>cooperation\<close> of \<^verbatim>\<open>Async\<close>, interpreted
      on the growth of the database) gives the invariant in every state, the atomic effect of a push
      whose validation ran before its transaction, and the consistent answer of a pull whose queries
      saw different states.
    \<^item> \<^verbatim>\<open>CommitOrder\<close>: pushes that draw the number of their transaction and commit in another order. The
      invariant holds but for the order of recording, and what a client that pulls again from its
      cursor does not hear of is exactly what was drawn and not committed when it pulled first.
    \<^item> \<^verbatim>\<open>InputsCorrect\<close>: addresses in headers, paths and comparisons of filters.
    \<^item> \<^verbatim>\<open>ClientInv\<close> and \<^verbatim>\<open>ClientReach\<close>: the invariant of the client's database and the states a client can
      reach, with any faults of the browser and any answers of the server.
    \<^item> \<^verbatim>\<open>ClientSpec\<close>, \<^verbatim>\<open>ClientCorrect\<close> and \<^verbatim>\<open>OpenCorrect\<close>: abstract operations on the decoded database and
      the refinement of the repository to them; saving and reading, conflicts, files, upgrades and
      the identity of the client.
    \<^item> \<^verbatim>\<open>SyncCorrect\<close>: the heads and the cursor under any faults, the exact effect of a push and of a pull
      without them.
    \<^item> \<^verbatim>\<open>Service\<close> and \<^verbatim>\<open>EndToEnd\<close>: the contract of the server as the client relies on it, interpreted on
      the model of the server among other requests, behind a network that loses requests and
      answers. In every state of the whole system, what a client regards as synchronised is stored.
    \<^item> \<^verbatim>\<open>Catchup\<close>: a round of synchronisation with a server that serves others at the same time leaves
      nothing to push and brings every head of the window that passes the filters.
    \<^item> \<^verbatim>\<open>Scenarios\<close>: three runs of the whole program that end in states its users will not expect.

  Parameters. The database server is an \<open>env\<close>: which calls fail, whether a failing commit has
  happened, what the columns store of a value, the time, and the order in which queries return
  rows (\<open>plans_permute\<close> says that an order is a permutation). The browser is an \<open>idb_env\<close>: which
  requests it refuses and how payloads convert to JavaScript values (\<open>idb_ok\<close>: it refuses none).
  Numbers of JSON are a type parameter with the two operations the code applies to them. The
  network loses requests and answers as a function of the state of the server. Properties that
  need no faults say so; the invariants need none of this.

  Bounds. Loops run over lists, so every operation is total and no fuel is needed. Positions
  of parents are 16-bit words as in the code, which wrap beyond 32768 parents (\<open>parents_fit\<close>);
  counters of a synchronisation are 32-bit words; cursors are 64-bit words read as signed numbers
  by the database, with the check of the handler for those that do not fit.

  Not modelled. Requests overlap at their \<^verbatim>\<open>.await\<close>s, but a transaction of the database is one step:
  the statements of two open transactions do not mix. A transaction draws its number and commits
  in that step, so numbers commit in order, in all theories but \<^verbatim>\<open>CommitOrder\<close>, where the drawing is a
  step of its own and other pushes commit between it and the commit (\<open>missed_for_good\<close> evaluates what
  a client can miss then). The tables have no isolation levels: a query sees what is committed.
  Calls of one client do not overlap. Matching of paths, extraction of arguments and JSON
  encodings are those of axum and serde; \<^verbatim>\<open>run_migrations\<close> only calls sqlx; the random ids and the
  clock are arguments. Log messages and the plumbing of tower services carry no behaviour. Tests
  are not modelled.
\<close>

end
